(* ===== verification/FastECU_Prelude.thy ===== *)
theory FastECU_Prelude
  imports Main "HOL-Library.Word"
begin

text \<open>
  What the component theories share: the machine types of the C++ sources, the
  list operations behind \<^verbatim>\<open>std::span\<close> and \<^verbatim>\<open>std::copy\<close>, the
  \<^verbatim>\<open>std::expected\<close> chain, the \<^verbatim>\<open>std::format\<close> placeholders the error
  texts use, and generic lemmas on lists and words. A \<^verbatim>\<open>std::size_t\<close> is a
  \<^typ>\<open>nat\<close>: every buffer of the program is far below the 64-bit limit, and
  where the code narrows a size the cast is written out.
\<close>

unbundle bit_operations_syntax

section \<open>Machine types\<close>

type_synonym u8 = "8 word"
type_synonym u16 = "16 word"
type_synonym u32 = "32 word"
type_synonym u64 = "64 word"
type_synonym bytes = "u8 list"

named_theorems span_simps \<open>facts about subspan, overwrite and FitsAt\<close>
named_theorems word_codec_simps \<open>reading what was written\<close>

section \<open>Spans\<close>

text \<open>\<^verbatim>\<open>span.subspan(off, n)\<close> and \<^verbatim>\<open>std::copy(ys, out.begin() + off)\<close>; both are
  only used where the range lies inside the buffer.\<close>

definition subspan :: "'a list \<Rightarrow> nat \<Rightarrow> nat \<Rightarrow> 'a list" where
  "subspan xs off n = take n (drop off xs)"

definition overwrite :: "'a list \<Rightarrow> nat \<Rightarrow> 'a list \<Rightarrow> 'a list" where
  "overwrite xs off ys = take off xs @ ys @ drop (off + length ys) xs"

text \<open>\<^verbatim>\<open>std::ranges::copy_n\<close> over an index window \<open>[off, off + length ys)\<close> does
  not reach any other index.\<close>

lemma length_subspan [simp]: "length (subspan xs off n) = min n (length xs - off)"
  by (simp add: subspan_def min.commute)

lemma nth_subspan [span_simps]:
  "i < n \<Longrightarrow> off + i < length xs \<Longrightarrow> subspan xs off n ! i = xs ! (off + i)"
  by (simp add: subspan_def)

lemma subspan_all [simp]: "subspan xs 0 (length xs) = xs"
  by (simp add: subspan_def)

lemma subspan_append_prefix [span_simps]: "subspan (xs @ ys @ zs) (length xs) (length ys) = ys"
  by (simp add: subspan_def)

lemma length_overwrite [span_simps]:
  "off + length ys \<le> length xs \<Longrightarrow> length (overwrite xs off ys) = length xs"
  by (simp add: overwrite_def)

lemma nth_overwrite [span_simps]:
  "off + length ys \<le> length xs \<Longrightarrow> i < length xs \<Longrightarrow>
   overwrite xs off ys ! i = (if off \<le> i \<and> i < off + length ys then ys ! (i - off) else xs ! i)"
  by (auto simp: overwrite_def nth_append min_def)

lemma overwrite_Nil [simp]: "overwrite xs off [] = xs"
  by (simp add: overwrite_def)

lemma overwrite_subspan_same [span_simps]:
  "off + n \<le> length xs \<Longrightarrow> overwrite xs off (subspan xs off n) = xs"
  by (rule nth_equalityI) (auto simp: length_overwrite nth_overwrite nth_subspan)

lemma subspan_overwrite_same [span_simps]:
  "off + length ys \<le> length xs \<Longrightarrow> n = length ys \<Longrightarrow> subspan (overwrite xs off ys) off n = ys"
  by (simp add: subspan_def overwrite_def)

lemma subspan_overwrite_disjoint [span_simps]:
  assumes "off + length ys \<le> length xs" and "o' + n \<le> off \<or> off + length ys \<le> o'"
  shows "subspan (overwrite xs off ys) o' n = subspan xs o' n"
  using assms
  by (intro nth_equalityI) (auto simp: length_overwrite nth_overwrite nth_subspan)

lemma overwrite_overwrite_same [span_simps]:
  "off + length ys \<le> length xs \<Longrightarrow> length zs = length ys \<Longrightarrow>
   overwrite (overwrite xs off ys) off zs = overwrite xs off zs"
  by (rule nth_equalityI) (auto simp: length_overwrite nth_overwrite)

lemma overwrite_overwrite_swap:
  assumes "a + length xs \<le> length zs" and "b + length ys \<le> length zs"
    and "a + length xs \<le> b \<or> b + length ys \<le> a"
  shows "overwrite (overwrite zs a xs) b ys = overwrite (overwrite zs b ys) a xs"
  using assms by (intro nth_equalityI) (auto simp: length_overwrite nth_overwrite)

lemma list_update_overwrite1 [span_simps]:
  "off < length xs \<Longrightarrow> xs[off := v] = overwrite xs off [v]"
  by (rule nth_equalityI) (auto simp: length_overwrite nth_overwrite nth_list_update)

lemma overwrite_append [span_simps]:
  assumes "off + length ys + length zs \<le> length xs"
  shows "overwrite xs off (ys @ zs) = overwrite (overwrite xs off ys) (off + length ys) zs"
  using assms by (intro nth_equalityI) (auto simp: length_overwrite nth_overwrite nth_append)

lemma subspan_split [span_simps]:
  "subspan xs off (m + n) = subspan xs off m @ subspan xs (off + m) n"
  by (simp add: subspan_def take_add add.commute)

lemma subspan_subspan: "k + m \<le> n \<Longrightarrow> subspan (subspan xs off n) k m = subspan xs (off + k) m"
  by (simp add: subspan_def drop_take add.commute)

lemma take_drop_subspan: "off + n \<le> length xs \<Longrightarrow> xs = take off xs @ subspan xs off n @ drop (off + n) xs"
  by (simp add: subspan_def flip: take_add append_assoc)

section \<open>std::expected\<close>

text \<open>\<^verbatim>\<open>std::expected<T, E>\<close> is the sum \<open>'e + 'a\<close> with the error on the left;
  \<^verbatim>\<open>and_then\<close> is \<open>result_bind\<close>.\<close>

definition result_bind :: "'e + 'a \<Rightarrow> ('a \<Rightarrow> 'e + 'b) \<Rightarrow> 'e + 'b" where
  "result_bind r f = (case r of Inl e \<Rightarrow> Inl e | Inr a \<Rightarrow> f a)"

lemma result_bind_simps [simp]:
  "result_bind (Inl e) f = Inl e"
  "result_bind (Inr a) f = f a"
  by (simp_all add: result_bind_def)

lemma result_bind_Inr_conv: "result_bind r f = Inr b \<longleftrightarrow> (\<exists>a. r = Inr a \<and> f a = Inr b)"
  by (cases r) auto

section \<open>std::format placeholders\<close>

text \<open>The placeholders the sources use: \<^verbatim>\<open>{}\<close> and \<^verbatim>\<open>{:x}\<close> of unsigned values,
  and their zero-padded forms \<^verbatim>\<open>{:02x}\<close> and \<^verbatim>\<open>{:04x}\<close>.\<close>

fun fmt_base :: "nat \<Rightarrow> nat \<Rightarrow> string" where
  "fmt_base b n =
     (if b < 2 \<or> n < b then [''0123456789abcdef'' ! (n mod 16)]
      else fmt_base b (n div b) @ [''0123456789abcdef'' ! (n mod b mod 16)])"

declare fmt_base.simps [simp del]

definition fmt_d :: "nat \<Rightarrow> string" where
  "fmt_d n = fmt_base 10 n"

definition fmt_x :: "nat \<Rightarrow> string" where
  "fmt_x n = fmt_base 16 n"

definition fmt_pad_x :: "nat \<Rightarrow> nat \<Rightarrow> string" where
  "fmt_pad_x w n = replicate (w - length (fmt_x n)) (CHR ''0'') @ fmt_x n"

section \<open>Words\<close>

lemma uint32_lt [simp]: "unat (w :: u32) < 4294967296"
  by (rule order_less_le_trans [OF unsigned_less]) simp

lemma uint16_lt [simp]: "unat (w :: u16) < 65536"
  by (rule order_less_le_trans [OF unsigned_less]) simp

lemma uint8_lt [simp]: "unat (w :: u8) < 256"
  by (rule order_less_le_trans [OF unsigned_less]) simp

text \<open>Narrowing casts are ring homomorphisms; widening then narrowing is the identity.\<close>

lemma take_bit_narrow_add:
  "m \<le> n \<Longrightarrow> take_bit m (take_bit n a + take_bit n b) = take_bit m (a + b)" for a b :: int
  using take_bit_add [of m "take_bit n a" "take_bit n b"] take_bit_add [of m a b]
  by (simp add: min_absorb1)

lemma take_bit_narrow_diff:
  "m \<le> n \<Longrightarrow> take_bit m (take_bit n a - take_bit n b) = take_bit m (a - b)" for a b :: int
  using take_bit_diff [of m "take_bit n a" "take_bit n b"] take_bit_diff [of m a b]
  by (simp add: min_absorb1)

lemma ucast_add_narrow:
  "LENGTH('b) \<le> LENGTH('a) \<Longrightarrow> (ucast (a + b) :: 'b::len word) = ucast a + ucast (b :: 'a::len word)"
  by transfer (simp add: take_bit_narrow_add)

lemma ucast_diff_narrow:
  "LENGTH('b) \<le> LENGTH('a) \<Longrightarrow> (ucast (a - b) :: 'b::len word) = ucast a - ucast (b :: 'a::len word)"
  by transfer (simp add: take_bit_narrow_diff)

lemma ucast_ucast_same:
  "LENGTH('a) \<le> LENGTH('b) \<Longrightarrow> (ucast (ucast a :: 'b::len word) :: 'a::len word) = a"
  by (rule bit_word_eqI) (auto simp: bit_simps)

lemma unat_ucast_up:
  "LENGTH('a) \<le> LENGTH('b) \<Longrightarrow> unat (ucast (w :: 'a::len word) :: 'b::len word) = unat w"
  by (simp add: unsigned_ucast_eq take_bit_nat_eq_self_iff)
    (rule order_less_le_trans [OF unsigned_less power_increasing], simp_all)

lemma word_sub_swap: "(a :: 'a::len word) + t - (a + r) = t - r"
  by simp

end
