(* ===== verification/Bytes.thy ===== *)
theory Bytes
  imports FastECU_Prelude
begin

text \<open>
  The byte layer every protocol and checksum is written against:
  \<^verbatim>\<open>protocol/bytes.h\<close> (fixed-width readers, writers and appenders, the 8-bit
  sum), \<^verbatim>\<open>bytes_views.h\<close> (a buffer as big-endian words),
  \<^verbatim>\<open>bytes_compose.h\<close> (the frame composer) and \<^verbatim>\<open>fixed_buffer.h\<close>. A mutable
  span is passed in and returned. The locale \<open>word_codec\<close> is the contract of one
  reader/writer/appender triple; it is interpreted for all six.
\<close>

section \<open>Appending: AppendU16Be to AppendU32Le\<close>

definition AppendU16Be :: "bytes \<Rightarrow> u16 \<Rightarrow> bytes" where
  "AppendU16Be out v = out @ [ucast (drop_bit 8 v AND 0xFF), ucast (v AND 0xFF)]"

definition AppendU24Be :: "bytes \<Rightarrow> u32 \<Rightarrow> bytes" where
  "AppendU24Be out v =
     out @ [ucast (drop_bit 16 v AND 0xFF), ucast (drop_bit 8 v AND 0xFF), ucast (v AND 0xFF)]"

definition AppendU32Be :: "bytes \<Rightarrow> u32 \<Rightarrow> bytes" where
  "AppendU32Be out v =
     out @ [ucast (drop_bit 24 v AND 0xFF), ucast (drop_bit 16 v AND 0xFF),
            ucast (drop_bit 8 v AND 0xFF), ucast (v AND 0xFF)]"

definition AppendU16Le :: "bytes \<Rightarrow> u16 \<Rightarrow> bytes" where
  "AppendU16Le out v = out @ [ucast (v AND 0xFF), ucast (drop_bit 8 v AND 0xFF)]"

definition AppendU24Le :: "bytes \<Rightarrow> u32 \<Rightarrow> bytes" where
  "AppendU24Le out v =
     out @ [ucast (v AND 0xFF), ucast (drop_bit 8 v AND 0xFF), ucast (drop_bit 16 v AND 0xFF)]"

definition AppendU32Le :: "bytes \<Rightarrow> u32 \<Rightarrow> bytes" where
  "AppendU32Le out v =
     out @ [ucast (v AND 0xFF), ucast (drop_bit 8 v AND 0xFF),
            ucast (drop_bit 16 v AND 0xFF), ucast (drop_bit 24 v AND 0xFF)]"

section \<open>Reading\<close>

definition FitsAt :: "bytes \<Rightarrow> nat \<Rightarrow> nat \<Rightarrow> bool" where
  "FitsAt bs offset count \<longleftrightarrow> count \<le> length bs \<and> offset \<le> length bs - count"

definition ReadU16Be :: "bytes \<Rightarrow> nat \<Rightarrow> u16" where
  "ReadU16Be bs offset =
     (if \<not> FitsAt bs offset 2 then 0
      else ucast ((push_bit 8 (ucast (bs ! offset)) :: u32) OR ucast (bs ! (offset + 1))))"

definition ReadU24Be :: "bytes \<Rightarrow> nat \<Rightarrow> u32" where
  "ReadU24Be bs offset =
     (if \<not> FitsAt bs offset 3 then 0
      else push_bit 16 (ucast (bs ! offset)) OR push_bit 8 (ucast (bs ! (offset + 1)))
           OR ucast (bs ! (offset + 2)))"

definition ReadU32Be :: "bytes \<Rightarrow> nat \<Rightarrow> u32" where
  "ReadU32Be bs offset =
     (if \<not> FitsAt bs offset 4 then 0
      else push_bit 24 (ucast (bs ! offset)) OR push_bit 16 (ucast (bs ! (offset + 1)))
           OR push_bit 8 (ucast (bs ! (offset + 2))) OR ucast (bs ! (offset + 3)))"

definition ReadU16Le :: "bytes \<Rightarrow> nat \<Rightarrow> u16" where
  "ReadU16Le bs offset =
     (if \<not> FitsAt bs offset 2 then 0
      else ucast ((ucast (bs ! offset) :: u32) OR push_bit 8 (ucast (bs ! (offset + 1)))))"

definition ReadU24Le :: "bytes \<Rightarrow> nat \<Rightarrow> u32" where
  "ReadU24Le bs offset =
     (if \<not> FitsAt bs offset 3 then 0
      else ucast (bs ! offset) OR push_bit 8 (ucast (bs ! (offset + 1)))
           OR push_bit 16 (ucast (bs ! (offset + 2))))"

definition ReadU32Le :: "bytes \<Rightarrow> nat \<Rightarrow> u32" where
  "ReadU32Le bs offset =
     (if \<not> FitsAt bs offset 4 then 0
      else ucast (bs ! offset) OR push_bit 8 (ucast (bs ! (offset + 1)))
           OR push_bit 16 (ucast (bs ! (offset + 2))) OR push_bit 24 (ucast (bs ! (offset + 3))))"

definition ReadUBe :: "bytes \<Rightarrow> nat \<Rightarrow> nat \<Rightarrow> u32" where
  "ReadUBe bs offset width =
     (if width = 1 then (if offset < length bs then ucast (bs ! offset) else 0)
      else if width = 2 then ucast (ReadU16Be bs offset)
      else if width = 3 then ReadU24Be bs offset
      else if width = 4 then ReadU32Be bs offset
      else 0)"

definition ReadULe :: "bytes \<Rightarrow> nat \<Rightarrow> nat \<Rightarrow> u32" where
  "ReadULe bs offset width =
     (if width = 1 then (if offset < length bs then ucast (bs ! offset) else 0)
      else if width = 2 then ucast (ReadU16Le bs offset)
      else if width = 3 then ReadU24Le bs offset
      else if width = 4 then ReadU32Le bs offset
      else 0)"

section \<open>Writing\<close>

definition OverwriteAt :: "bytes \<Rightarrow> nat \<Rightarrow> bytes \<Rightarrow> bytes" where
  "OverwriteAt out offset payload =
     (if offset \<ge> length out then out
      else overwrite out offset (take (min (length payload) (length out - offset)) payload))"

definition WriteU16Be :: "bytes \<Rightarrow> nat \<Rightarrow> u16 \<Rightarrow> bytes" where
  "WriteU16Be out offset v =
     (if \<not> FitsAt out offset 2 then out
      else out[offset := ucast (drop_bit 8 v AND 0xFF), offset + 1 := ucast (v AND 0xFF)])"

definition WriteU24Be :: "bytes \<Rightarrow> nat \<Rightarrow> u32 \<Rightarrow> bytes" where
  "WriteU24Be out offset v =
     (if \<not> FitsAt out offset 3 then out
      else out[offset := ucast (drop_bit 16 v AND 0xFF), offset + 1 := ucast (drop_bit 8 v AND 0xFF),
               offset + 2 := ucast (v AND 0xFF)])"

definition WriteU32Be :: "bytes \<Rightarrow> nat \<Rightarrow> u32 \<Rightarrow> bytes" where
  "WriteU32Be out offset v =
     (if \<not> FitsAt out offset 4 then out
      else out[offset := ucast (drop_bit 24 v AND 0xFF), offset + 1 := ucast (drop_bit 16 v AND 0xFF),
               offset + 2 := ucast (drop_bit 8 v AND 0xFF), offset + 3 := ucast (v AND 0xFF)])"

definition WriteU16Le :: "bytes \<Rightarrow> nat \<Rightarrow> u16 \<Rightarrow> bytes" where
  "WriteU16Le out offset v =
     (if \<not> FitsAt out offset 2 then out
      else out[offset := ucast (v AND 0xFF), offset + 1 := ucast (drop_bit 8 v AND 0xFF)])"

definition WriteU24Le :: "bytes \<Rightarrow> nat \<Rightarrow> u32 \<Rightarrow> bytes" where
  "WriteU24Le out offset v =
     (if \<not> FitsAt out offset 3 then out
      else out[offset := ucast (v AND 0xFF), offset + 1 := ucast (drop_bit 8 v AND 0xFF),
               offset + 2 := ucast (drop_bit 16 v AND 0xFF)])"

definition WriteU32Le :: "bytes \<Rightarrow> nat \<Rightarrow> u32 \<Rightarrow> bytes" where
  "WriteU32Le out offset v =
     (if \<not> FitsAt out offset 4 then out
      else out[offset := ucast (v AND 0xFF), offset + 1 := ucast (drop_bit 8 v AND 0xFF),
               offset + 2 := ucast (drop_bit 16 v AND 0xFF), offset + 3 := ucast (drop_bit 24 v AND 0xFF)])"

section \<open>The 8-bit sum\<close>

text \<open>\<^verbatim>\<open>std::accumulate\<close> over \<^verbatim>\<open>unsigned\<close>, masked to a byte.\<close>

definition Sum8Range :: "bytes \<Rightarrow> nat \<Rightarrow> nat \<Rightarrow> u8" where
  "Sum8Range bs from len =
     (if from \<ge> length bs then 0
      else let slice = subspan bs from (min len (length bs - from));
               total = fold (\<lambda>b acc. acc + (ucast b :: u32)) slice 0
           in ucast (total AND 0xFF))"

definition Sum8 :: "bytes \<Rightarrow> u8" where
  "Sum8 bs = Sum8Range bs 0 (length bs)"

definition ToHex :: "bytes \<Rightarrow> string" where
  "ToHex bs = concat (map (\<lambda>b. fmt_pad_x 2 (unat b) @ '' '') bs)"

section \<open>Views and fixed buffers\<close>

text \<open>\<^verbatim>\<open>views::kU32Be\<close>: each four bytes as one big-endian word, a partial tail ignored.\<close>

definition kU32Be :: "bytes \<Rightarrow> u32 list" where
  "kU32Be data =
     map (\<lambda>word. let b = subspan data (word * 4) 4
                 in push_bit 24 (ucast (b ! 0)) OR push_bit 16 (ucast (b ! 1))
                    OR push_bit 8 (ucast (b ! 2)) OR ucast (b ! 3))
         [0..<length data div 4]"

definition FromFixedBuffer :: "char list \<Rightarrow> string" where
  "FromFixedBuffer buffer = takeWhile (\<lambda>c. c \<noteq> CHR 0x00) buffer"

definition FromFixedBufferDroppingLast :: "char list \<Rightarrow> string" where
  "FromFixedBufferDroppingLast buffer =
     (let text = FromFixedBuffer buffer in if text \<noteq> [] then butlast text else text)"

section \<open>Composing frames\<close>

text \<open>The field types \<^verbatim>\<open>ComposeBe\<close> accepts; a \<open>U24\<close> marker carries 32 bits of which
  the low 24 are emitted.\<close>

datatype field =
    FByte u8
  | FU16 u16
  | FU24 u32
  | FU32 u32
  | FString string
  | FBytes bytes
  | FU16s "u16 list"
  | FU32s "u32 list"
  | FU64s "u64 list"

fun WidthBe :: "field \<Rightarrow> nat" where
  "WidthBe (FByte _) = 1"
| "WidthBe (FU16 _) = 2"
| "WidthBe (FU24 _) = 3"
| "WidthBe (FU32 _) = 4"
| "WidthBe (FString s) = length s"
| "WidthBe (FBytes bs) = length bs"
| "WidthBe (FU16s ws) = 2 * length ws"
| "WidthBe (FU32s ws) = 4 * length ws"
| "WidthBe (FU64s ws) = 8 * length ws"

text \<open>\<^verbatim>\<open>for (shift = Width; shift-- > 0;) *out++ = Byte(value >> (8 * shift))\<close>\<close>

fun EmitIntegerBe :: "nat \<Rightarrow> 'a::len word \<Rightarrow> bytes" where
  "EmitIntegerBe 0 v = []"
| "EmitIntegerBe (Suc shift) v = ucast (drop_bit (8 * shift) v) # EmitIntegerBe shift v"

fun EmitBe :: "field \<Rightarrow> bytes" where
  "EmitBe (FByte b) = EmitIntegerBe 1 b"
| "EmitBe (FU16 w) = EmitIntegerBe 2 w"
| "EmitBe (FU24 w) = EmitIntegerBe 3 w"
| "EmitBe (FU32 w) = EmitIntegerBe 4 w"
| "EmitBe (FString s) = map of_char s"
| "EmitBe (FBytes bs) = bs"
| "EmitBe (FU16s ws) = concat (map (EmitIntegerBe 2) ws)"
| "EmitBe (FU32s ws) = concat (map (EmitIntegerBe 4) ws)"
| "EmitBe (FU64s ws) = concat (map (EmitIntegerBe 8) ws)"

text \<open>\<^verbatim>\<open>AppendBe\<close>: wide ranges resize the vector by \<open>WidthBe\<close> and fill in place, every
  other field is pushed at the back.\<close>

fun AppendBe :: "bytes \<Rightarrow> field \<Rightarrow> bytes" where
  "AppendBe out (FU16s ws) =
     overwrite (out @ replicate (WidthBe (FU16s ws)) 0) (length out) (EmitBe (FU16s ws))"
| "AppendBe out (FU32s ws) =
     overwrite (out @ replicate (WidthBe (FU32s ws)) 0) (length out) (EmitBe (FU32s ws))"
| "AppendBe out (FU64s ws) =
     overwrite (out @ replicate (WidthBe (FU64s ws)) 0) (length out) (EmitBe (FU64s ws))"
| "AppendBe out f = out @ EmitBe f"

definition ComposeBe :: "field list \<Rightarrow> bytes" where
  "ComposeBe args = fold (\<lambda>f out. AppendBe out f) args []"

definition ComposeBeWithChecksum :: "(bytes \<Rightarrow> u8) \<Rightarrow> field list \<Rightarrow> bytes" where
  "ComposeBeWithChecksum checksum args =
     (let out = ComposeBe args in AppendBe out (FByte (checksum out)))"


section \<open>The contract of a fixed-width codec\<close>

lemma FitsAt_iff [simp]: "FitsAt bs offset count \<longleftrightarrow> offset + count \<le> length bs"
  by (auto simp: FitsAt_def)

text \<open>
  What callers rely on of one reader/writer/appender triple. \<open>enc\<close> is what the
  appender adds, \<open>norm\<close> the part of the value the width keeps (all of it for 16 and
  32 bits, the low 24 bits for the 24-bit codecs).
\<close>

locale word_codec =
  fixes width :: nat
    and enc :: "'w::zero \<Rightarrow> bytes"
    and dec :: "bytes \<Rightarrow> 'w"
    and rd :: "bytes \<Rightarrow> nat \<Rightarrow> 'w"
    and wr :: "bytes \<Rightarrow> nat \<Rightarrow> 'w \<Rightarrow> bytes"
    and norm :: "'w \<Rightarrow> 'w"
  assumes width_pos: "0 < width"
    and length_enc [simp]: "length (enc v) = width"
    and rd_in: "off + width \<le> length bs \<Longrightarrow> rd bs off = dec (subspan bs off width)"
    and rd_out: "\<not> off + width \<le> length bs \<Longrightarrow> rd bs off = 0"
    and dec_enc: "dec (enc v) = norm v"
    and enc_dec: "length bs = width \<Longrightarrow> enc (dec bs) = bs"
    and wr_in: "off + width \<le> length bs \<Longrightarrow> wr bs off v = overwrite bs off (enc v)"
    and wr_out: "\<not> off + width \<le> length bs \<Longrightarrow> wr bs off v = bs"
begin

lemma length_wr [simp]: "length (wr bs off v) = length bs"
  by (cases "off + width \<le> length bs") (auto simp: wr_in wr_out length_overwrite)

lemma rd_wr_same: "off + width \<le> length bs \<Longrightarrow> rd (wr bs off v) off = norm v"
  by (simp add: rd_in wr_in subspan_overwrite_same dec_enc length_overwrite)

lemma rd_cong:
  "length bs = length cs \<Longrightarrow> subspan bs off width = subspan cs off width \<Longrightarrow> rd bs off = rd cs off"
  by (cases "off + width \<le> length bs") (simp_all add: rd_in rd_out)

lemma subspan_wr_other:
  "a + n \<le> off \<or> off + width \<le> a \<Longrightarrow> subspan (wr bs off v) a n = subspan bs a n"
  by (cases "off + width \<le> length bs") (auto simp: wr_in wr_out subspan_overwrite_disjoint)

lemma rd_wr_other:
  "a + width \<le> off \<or> off + width \<le> a \<Longrightarrow> rd (wr bs off v) a = rd bs a"
  by (rule rd_cong) (simp_all add: subspan_wr_other)

lemma nth_wr_other:
  "i < off \<or> off + width \<le> i \<Longrightarrow> i < length bs \<Longrightarrow> wr bs off v ! i = bs ! i"
  by (cases "off + width \<le> length bs") (auto simp: wr_in wr_out nth_overwrite)

lemma enc_rd: "off + width \<le> length bs \<Longrightarrow> enc (rd bs off) = subspan bs off width"
  by (simp add: rd_in enc_dec)

lemma wr_rd_same: "wr bs off (rd bs off) = bs"
  by (cases "off + width \<le> length bs")
    (simp_all add: wr_in wr_out enc_rd overwrite_subspan_same)

lemma wr_wr_same: "wr (wr bs off v) off w = wr bs off w"
  by (cases "off + width \<le> length bs")
    (simp_all add: wr_in wr_out overwrite_overwrite_same length_overwrite)

lemma rd_append: "rd (xs @ enc v @ ys) (length xs) = norm v"
  using subspan_append_prefix [of xs "enc v" ys] by (simp add: rd_in dec_enc)

lemma rd_in_append: "off + width \<le> length xs \<Longrightarrow> rd (xs @ ys) off = rd xs off"
  by (simp add: rd_in subspan_def)

lemma rd_drop: "rd (drop k xs) off = rd xs (k + off)"
  by (cases "k + off + width \<le> length xs")
    (use width_pos in \<open>auto simp: rd_in rd_out subspan_def add.commute\<close>)

end

text \<open>The bit-level identities behind the interpretations.\<close>

lemma ucast_mask_byte [simp]: "(ucast (w AND 0xFF) :: u8) = ucast (w :: u32)"
proof -
  have m: "(0xFF :: u32) = mask 8" by (simp add: mask_eq_exp_minus_1)
  show ?thesis unfolding m by (auto intro!: bit_word_eqI simp: bit_simps)
qed

lemma ucast_mask_byte16 [simp]: "(ucast (w AND 0xFF) :: u8) = ucast (w :: u16)"
proof -
  have m: "(0xFF :: u16) = mask 8" by (simp add: mask_eq_exp_minus_1)
  show ?thesis unfolding m by (auto intro!: bit_word_eqI simp: bit_simps)
qed

lemma length_2_cases: "length xs = 2 \<longleftrightarrow> (\<exists>a b. xs = [a, b])"
  by (auto simp: length_Suc_conv numeral_2_eq_2)

lemma length_3_cases: "length xs = 3 \<longleftrightarrow> (\<exists>a b c. xs = [a, b, c])"
  by (auto simp: length_Suc_conv numeral_3_eq_3)

lemma length_4_cases: "length xs = 4 \<longleftrightarrow> (\<exists>a b c d. xs = [a, b, c, d])"
proof -
  have "(4::nat) = Suc (Suc (Suc (Suc 0)))" by simp
  then show ?thesis by (simp only: length_Suc_conv) auto
qed

lemma list_update2_overwrite:
  "off + 2 \<le> length xs \<Longrightarrow> xs[off := a, off + 1 := b] = overwrite xs off [a, b]"
  by (rule nth_equalityI) (auto simp: length_overwrite nth_overwrite nth_list_update nth_Cons')

lemma list_update3_overwrite:
  "off + 3 \<le> length xs \<Longrightarrow> xs[off := a, off + 1 := b, off + 2 := c] = overwrite xs off [a, b, c]"
  by (rule nth_equalityI) (auto simp: length_overwrite nth_overwrite nth_list_update nth_Cons')

lemma list_update4_overwrite:
  "off + 4 \<le> length xs \<Longrightarrow>
   xs[off := a, off + 1 := b, off + 2 := c, off + 3 := d] = overwrite xs off [a, b, c, d]"
  by (rule nth_equalityI) (auto simp: length_overwrite nth_overwrite nth_list_update nth_Cons')

lemmas list_update_overwrites = list_update2_overwrite list_update3_overwrite list_update4_overwrite

text \<open>Splitting a word into bytes and joining them again.\<close>

lemma bit_u8_ge [simp]: "8 \<le> n \<Longrightarrow> \<not> bit (b :: u8) n"
  using bit_imp_le_length [of b n] by auto

lemma shift_back: "k \<le> n \<Longrightarrow> bit w (k + (n - k)) = bit w n" for n k :: nat
  by simp

lemma byte_index_cases [case_names b0 b1 b2 b3]:
  "(n < 8 \<Longrightarrow> P) \<Longrightarrow> (8 \<le> n \<Longrightarrow> n < 16 \<Longrightarrow> P) \<Longrightarrow> (16 \<le> n \<Longrightarrow> n < 24 \<Longrightarrow> P) \<Longrightarrow> (24 \<le> n \<Longrightarrow> P) \<Longrightarrow> P"
  for n :: nat
  by linarith

text \<open>Encoding then decoding, and decoding then encoding, for each codec.\<close>

lemma U16Be_dec_enc: "ReadU16Be (AppendU16Be [] v) 0 = v"
proof (rule bit_word_eqI)
  fix n
  assume n: "n < LENGTH(16)"
  show "bit (ReadU16Be (AppendU16Be [] v) 0) n = bit v n"
    using n by (cases n rule: byte_index_cases) (auto simp: AppendU16Be_def ReadU16Be_def bit_simps shift_back)
qed

lemma U16Be_enc_dec: "length bs = 2 \<Longrightarrow> AppendU16Be [] (ReadU16Be bs 0) = bs"
  by (auto simp: length_2_cases AppendU16Be_def ReadU16Be_def bit_simps intro!: bit_word_eqI)

lemma U16Be_overwrite: "off + 2 \<le> length out \<Longrightarrow> WriteU16Be out off v = overwrite out off (AppendU16Be [] v)"
  using list_update2_overwrite [of off out] by (simp add: WriteU16Be_def AppendU16Be_def)

lemma U24Be_dec_enc: "ReadU24Be (AppendU24Be [] v) 0 = (v AND mask 24)"
proof (rule bit_word_eqI)
  fix n
  assume n: "n < LENGTH(32)"
  show "bit (ReadU24Be (AppendU24Be [] v) 0) n = bit (v AND mask 24) n"
    using n by (cases n rule: byte_index_cases) (auto simp: AppendU24Be_def ReadU24Be_def bit_simps shift_back)
qed

lemma U24Be_enc_dec: "length bs = 3 \<Longrightarrow> AppendU24Be [] (ReadU24Be bs 0) = bs"
  by (auto simp: length_3_cases AppendU24Be_def ReadU24Be_def bit_simps intro!: bit_word_eqI)

lemma U24Be_overwrite: "off + 3 \<le> length out \<Longrightarrow> WriteU24Be out off v = overwrite out off (AppendU24Be [] v)"
  using list_update3_overwrite [of off out] by (simp add: WriteU24Be_def AppendU24Be_def)

lemma U32Be_dec_enc: "ReadU32Be (AppendU32Be [] v) 0 = v"
proof (rule bit_word_eqI)
  fix n
  assume n: "n < LENGTH(32)"
  show "bit (ReadU32Be (AppendU32Be [] v) 0) n = bit v n"
    using n by (cases n rule: byte_index_cases) (auto simp: AppendU32Be_def ReadU32Be_def bit_simps shift_back)
qed

lemma U32Be_enc_dec: "length bs = 4 \<Longrightarrow> AppendU32Be [] (ReadU32Be bs 0) = bs"
  by (auto simp: length_4_cases AppendU32Be_def ReadU32Be_def bit_simps intro!: bit_word_eqI)

lemma U32Be_overwrite: "off + 4 \<le> length out \<Longrightarrow> WriteU32Be out off v = overwrite out off (AppendU32Be [] v)"
  using list_update4_overwrite [of off out] by (simp add: WriteU32Be_def AppendU32Be_def)

lemma U16Le_dec_enc: "ReadU16Le (AppendU16Le [] v) 0 = v"
proof (rule bit_word_eqI)
  fix n
  assume n: "n < LENGTH(16)"
  show "bit (ReadU16Le (AppendU16Le [] v) 0) n = bit v n"
    using n by (cases n rule: byte_index_cases) (auto simp: AppendU16Le_def ReadU16Le_def bit_simps shift_back)
qed

lemma U16Le_enc_dec: "length bs = 2 \<Longrightarrow> AppendU16Le [] (ReadU16Le bs 0) = bs"
  by (auto simp: length_2_cases AppendU16Le_def ReadU16Le_def bit_simps intro!: bit_word_eqI)

lemma U16Le_overwrite: "off + 2 \<le> length out \<Longrightarrow> WriteU16Le out off v = overwrite out off (AppendU16Le [] v)"
  using list_update2_overwrite [of off out] by (simp add: WriteU16Le_def AppendU16Le_def)

lemma U24Le_dec_enc: "ReadU24Le (AppendU24Le [] v) 0 = (v AND mask 24)"
proof (rule bit_word_eqI)
  fix n
  assume n: "n < LENGTH(32)"
  show "bit (ReadU24Le (AppendU24Le [] v) 0) n = bit (v AND mask 24) n"
    using n by (cases n rule: byte_index_cases) (auto simp: AppendU24Le_def ReadU24Le_def bit_simps shift_back)
qed

lemma U24Le_enc_dec: "length bs = 3 \<Longrightarrow> AppendU24Le [] (ReadU24Le bs 0) = bs"
  by (auto simp: length_3_cases AppendU24Le_def ReadU24Le_def bit_simps intro!: bit_word_eqI)

lemma U24Le_overwrite: "off + 3 \<le> length out \<Longrightarrow> WriteU24Le out off v = overwrite out off (AppendU24Le [] v)"
  using list_update3_overwrite [of off out] by (simp add: WriteU24Le_def AppendU24Le_def)

lemma U32Le_dec_enc: "ReadU32Le (AppendU32Le [] v) 0 = v"
proof (rule bit_word_eqI)
  fix n
  assume n: "n < LENGTH(32)"
  show "bit (ReadU32Le (AppendU32Le [] v) 0) n = bit v n"
    using n by (cases n rule: byte_index_cases) (auto simp: AppendU32Le_def ReadU32Le_def bit_simps shift_back)
qed

lemma U32Le_enc_dec: "length bs = 4 \<Longrightarrow> AppendU32Le [] (ReadU32Le bs 0) = bs"
  by (auto simp: length_4_cases AppendU32Le_def ReadU32Le_def bit_simps intro!: bit_word_eqI)

lemma U32Le_overwrite: "off + 4 \<le> length out \<Longrightarrow> WriteU32Le out off v = overwrite out off (AppendU32Le [] v)"
  using list_update4_overwrite [of off out] by (simp add: WriteU32Le_def AppendU32Le_def)

interpretation u16be: word_codec 2 "AppendU16Be []" "\<lambda>bs. ReadU16Be bs 0" ReadU16Be WriteU16Be id
  by unfold_locales
    (simp_all add: U16Be_dec_enc U16Be_enc_dec U16Be_overwrite,
      auto simp: AppendU16Be_def ReadU16Be_def WriteU16Be_def nth_subspan)

interpretation u24be: word_codec 3 "AppendU24Be []" "\<lambda>bs. ReadU24Be bs 0" ReadU24Be WriteU24Be "\<lambda>v. v AND mask 24"
  by unfold_locales
    (simp_all add: U24Be_dec_enc U24Be_enc_dec U24Be_overwrite,
      auto simp: AppendU24Be_def ReadU24Be_def WriteU24Be_def nth_subspan)

interpretation u32be: word_codec 4 "AppendU32Be []" "\<lambda>bs. ReadU32Be bs 0" ReadU32Be WriteU32Be id
  by unfold_locales
    (simp_all add: U32Be_dec_enc U32Be_enc_dec U32Be_overwrite,
      auto simp: AppendU32Be_def ReadU32Be_def WriteU32Be_def nth_subspan)

interpretation u16le: word_codec 2 "AppendU16Le []" "\<lambda>bs. ReadU16Le bs 0" ReadU16Le WriteU16Le id
  by unfold_locales
    (simp_all add: U16Le_dec_enc U16Le_enc_dec U16Le_overwrite,
      auto simp: AppendU16Le_def ReadU16Le_def WriteU16Le_def nth_subspan)

interpretation u24le: word_codec 3 "AppendU24Le []" "\<lambda>bs. ReadU24Le bs 0" ReadU24Le WriteU24Le "\<lambda>v. v AND mask 24"
  by unfold_locales
    (simp_all add: U24Le_dec_enc U24Le_enc_dec U24Le_overwrite,
      auto simp: AppendU24Le_def ReadU24Le_def WriteU24Le_def nth_subspan)

interpretation u32le: word_codec 4 "AppendU32Le []" "\<lambda>bs. ReadU32Le bs 0" ReadU32Le WriteU32Le id
  by unfold_locales
    (simp_all add: U32Le_dec_enc U32Le_enc_dec U32Le_overwrite,
      auto simp: AppendU32Le_def ReadU32Le_def WriteU32Le_def nth_subspan)

section \<open>Appending, summing and composing\<close>

lemma Append_prefix:
  "AppendU16Be out v = out @ AppendU16Be [] v"
  "AppendU24Be out w = out @ AppendU24Be [] w"
  "AppendU32Be out w = out @ AppendU32Be [] w"
  "AppendU16Le out v = out @ AppendU16Le [] v"
  "AppendU24Le out w = out @ AppendU24Le [] w"
  "AppendU32Le out w = out @ AppendU32Le [] w"
  by (simp_all add: AppendU16Be_def AppendU24Be_def AppendU32Be_def
      AppendU16Le_def AppendU24Le_def AppendU32Le_def)

lemma ucast_fold_add:
  "(ucast (fold (\<lambda>b acc. acc + (ucast b :: u32)) bs z) :: u8) = ucast z + sum_list bs"
  by (induction bs arbitrary: z) (simp_all add: ucast_add_narrow ucast_ucast_same ac_simps)

lemma Sum8Range_sum_list: "Sum8Range bs from len = sum_list (subspan bs from len)"
proof (cases "from \<ge> length bs")
  case True
  then show ?thesis by (simp add: Sum8Range_def subspan_def)
next
  case False
  have "subspan bs from (min len (length bs - from)) = subspan bs from len"
    by (simp add: subspan_def min_def)
  with False show ?thesis
    using ucast_fold_add [of "subspan bs from len" 0] by (simp add: Sum8Range_def)
qed

lemma Sum8_sum_list: "Sum8 bs = sum_list bs"
  by (simp add: Sum8_def Sum8Range_sum_list)

lemma Sum8Range_prefix: "Sum8Range bs 0 n = Sum8 (take n bs)"
  by (simp add: Sum8Range_sum_list Sum8_sum_list subspan_def)

lemma Sum8_append [simp]: "Sum8 (xs @ ys) = Sum8 xs + Sum8 ys"
  by (simp add: Sum8_sum_list)

text \<open>The word view reads the buffer four bytes at a time.\<close>

lemma kU32Be_ReadU32Be: "kU32Be bs = map (\<lambda>i. ReadU32Be bs (4 * i)) [0..<length bs div 4]"
  by (auto simp: kU32Be_def ReadU32Be_def nth_subspan Let_def mult.commute)

lemma EmitIntegerBe_Append:
  "EmitIntegerBe 2 v = AppendU16Be [] v"
  "EmitIntegerBe 3 w = AppendU24Be [] w"
  "EmitIntegerBe 4 w = AppendU32Be [] w"
  by (simp_all add: AppendU16Be_def AppendU24Be_def AppendU32Be_def numeral_eq_Suc)

lemma length_EmitIntegerBe [simp]: "length (EmitIntegerBe n v) = n"
  by (induction n) auto

lemma length_EmitBe: "length (EmitBe f) = WidthBe f"
  by (cases f) (simp_all add: length_concat comp_def sum_list_triv)

lemma AppendBe_eq: "AppendBe out f = out @ EmitBe f"
proof -
  have fill: "overwrite (out @ replicate (WidthBe f) 0) (length out) (EmitBe f) = out @ EmitBe f"
    by (simp add: overwrite_def length_EmitBe)
  show ?thesis
  proof (cases f)
  qed (use fill in \<open>simp_all\<close>)
qed

lemma ComposeBe_concat: "ComposeBe args = concat (map EmitBe args)"
proof -
  have "fold (\<lambda>f out. AppendBe out f) args out = out @ concat (map EmitBe args)" for out
    by (induction args arbitrary: out) (simp_all add: AppendBe_eq)
  then show ?thesis by (simp add: ComposeBe_def)
qed

lemma length_ComposeBe: "length (ComposeBe args) = sum_list (map WidthBe args)"
  by (simp add: ComposeBe_concat length_concat comp_def length_EmitBe)

lemma ComposeBeWithChecksum_eq:
  "ComposeBeWithChecksum checksum args = ComposeBe args @ [checksum (ComposeBe args)]"
  by (simp add: ComposeBeWithChecksum_def AppendBe_eq Let_def)

lemma FromFixedBuffer_no_nul: "CHR 0x00 \<notin> set (FromFixedBuffer buffer)"
  by (auto simp: FromFixedBuffer_def dest: set_takeWhileD)

lemma kU32Be_Cons: "kU32Be (AppendU32Be [] w @ bs) = w # kU32Be bs"
proof -
  have rd: "ReadU32Be (AppendU32Be [] w @ bs) (4 + off) = ReadU32Be bs off" for off
    using u32be.rd_drop [of 4 "AppendU32Be [] w @ bs" off] by simp
  have hd: "ReadU32Be (AppendU32Be [] w @ bs) 0 = w"
    using u32be.rd_append [of "[]" w bs] by simp
  have "length (AppendU32Be [] w @ bs) div 4 = Suc (length bs div 4)" by simp
  then have "[0..<length (AppendU32Be [] w @ bs) div 4] = 0 # map Suc [0..<length bs div 4]"
    by (simp only: map_Suc_upt) (simp add: upt_conv_Cons del: upt_Suc)
  then show ?thesis
    unfolding kU32Be_ReadU32Be by (simp add: hd rd add.commute comp_def)
qed

lemma kU32Be_words: "kU32Be (concat (map (AppendU32Be []) ws)) = ws"
proof (induction ws)
  case (Cons w ws)
  then show ?case by (simp add: kU32Be_Cons)
qed (simp add: kU32Be_def)

lemma words_of_kU32Be: "concat (map (AppendU32Be []) (kU32Be bs)) = take (4 * (length bs div 4)) bs"
proof (induction "length bs div 4" arbitrary: bs)
  case 0
  then show ?case by (simp add: kU32Be_def)
next
  case (Suc n)
  then have len: "4 \<le> length bs" by linarith
  then have bs: "bs = AppendU32Be [] (ReadU32Be bs 0) @ drop 4 bs"
    by (simp add: u32be.enc_rd subspan_def)
  have "n = length (drop 4 bs) div 4" using Suc(2) len by simp
  then have "concat (map (AppendU32Be []) (kU32Be (drop 4 bs))) = take (4 * (length (drop 4 bs) div 4)) (drop 4 bs)"
    by (rule Suc(1))
  moreover have "length bs div 4 = Suc (length (drop 4 bs) div 4)" using len by (simp add: le_div_geq)
  ultimately show ?case
    by (subst (1 3) bs) (simp add: kU32Be_Cons)
qed

section \<open>Properties\<close>

text \<open>C24: every reader returns what its writer stored, for all six widths and byte orders, and 0 when
  the field does not fit; writing back what was read changes nothing, and no write changes the
  length of the span. A 24-bit field keeps the low 24 bits of the value.\<close>

theorem codecs_round_trip:
  "ReadU16Be (WriteU16Be bs off v) off = (if off + 2 \<le> length bs then v else 0) \<and>
   ReadU24Be (WriteU24Be bs off w) off = (if off + 3 \<le> length bs then w AND mask 24 else 0) \<and>
   ReadU32Be (WriteU32Be bs off w) off = (if off + 4 \<le> length bs then w else 0) \<and>
   ReadU16Le (WriteU16Le bs off v) off = (if off + 2 \<le> length bs then v else 0) \<and>
   ReadU24Le (WriteU24Le bs off w) off = (if off + 3 \<le> length bs then w AND mask 24 else 0) \<and>
   ReadU32Le (WriteU32Le bs off w) off = (if off + 4 \<le> length bs then w else 0) \<and>
   list_all (\<lambda>bs'. bs' = bs)
     [WriteU16Be bs off (ReadU16Be bs off), WriteU24Be bs off (ReadU24Be bs off),
      WriteU32Be bs off (ReadU32Be bs off), WriteU16Le bs off (ReadU16Le bs off),
      WriteU24Le bs off (ReadU24Le bs off), WriteU32Le bs off (ReadU32Le bs off)] \<and>
   list_all (\<lambda>bs'. length bs' = length bs)
     [WriteU16Be bs off v, WriteU24Be bs off w, WriteU32Be bs off w,
      WriteU16Le bs off v, WriteU24Le bs off w, WriteU32Le bs off w]"
  by (simp add: u16be.rd_wr_same u24be.rd_wr_same u32be.rd_wr_same u16le.rd_wr_same u24le.rd_wr_same
      u32le.rd_wr_same u16be.rd_out u24be.rd_out u32be.rd_out u16le.rd_out u24le.rd_out u32le.rd_out
      u16be.wr_rd_same u24be.wr_rd_same u32be.wr_rd_same u16le.wr_rd_same u24le.wr_rd_same u32le.wr_rd_same)


end
