(* ===== verification/Checksum_Primitives.thy ===== *)
theory Checksum_Primitives
  imports Bytes
begin

text \<open>
  \<^verbatim>\<open>algorithms/checksum/checksum_primitives.h/.cpp\<close>: the CRC table and CRC-32, the word
  folds over checksum windows, the slot rebalancing the checksum families share, and the
  8-bit sums. The locale \<open>slot_codec\<close> is the contract behind every rebalanced checksum: a
  word codec over a group, for which rewriting one slot of a window moves the window's
  sum by exactly the change of the slot.
\<close>

section \<open>CRC-32\<close>

definition kPolynomial :: u32 where
  "kPolynomial = 0x5AA5A55A"

text \<open>The inner loop of \<^verbatim>\<open>MakeCrcTable\<close>, \<open>j\<close> rounds left.\<close>

fun crc_entry :: "nat \<Rightarrow> u32 \<Rightarrow> u32 \<Rightarrow> u32" where
  "crc_entry 0 crc c = crc"
| "crc_entry (Suc j) crc c =
     crc_entry j
       (if (crc XOR c) AND 1 \<noteq> 0 then drop_bit 1 crc XOR kPolynomial else drop_bit 1 crc)
       (drop_bit 1 c)"

definition MakeCrcTable :: "u32 list" where
  "MakeCrcTable = map (\<lambda>i. crc_entry 8 0 (of_nat i)) [0..<256]"

definition kCrcTable :: "u32 list" where
  "kCrcTable = MakeCrcTable"

definition crc_step :: "u8 \<Rightarrow> u32 \<Rightarrow> u32" where
  "crc_step byte crc = kCrcTable ! unat ((crc XOR ucast byte) AND 0xff) XOR drop_bit 8 crc"

definition Crc32 :: "bytes \<Rightarrow> u32" where
  "Crc32 data = fold crc_step data 0xFFFFFFFF XOR 0xFFFFFFFF"

text \<open>The pointer overload: \<^const>\<open>None\<close> is the null pointer; the buffer is \<open>len\<close> bytes.\<close>

definition Crc32Ptr :: "bytes option \<Rightarrow> u32 \<Rightarrow> u32" where
  "Crc32Ptr buf len = (case buf of None \<Rightarrow> 0 | Some bs \<Rightarrow> Crc32 (take (unat len) bs))"

section \<open>Rebalancing a slot\<close>

text \<open>The 16-bit sum is computed in \<^verbatim>\<open>int\<close> and narrowed.\<close>

definition RebalanceU16Be :: "bytes \<Rightarrow> nat \<Rightarrow> u16 \<Rightarrow> u16 \<Rightarrow> bytes" where
  "RebalanceU16Be rom offset observed target =
     (let stored = ReadU16Be rom offset in
      WriteU16Be rom offset (word_of_int (uint stored + uint target - uint observed)))"

definition RebalanceU32Be :: "bytes \<Rightarrow> nat \<Rightarrow> u32 \<Rightarrow> u32 \<Rightarrow> bytes" where
  "RebalanceU32Be rom offset observed target =
     (let stored = ReadU32Be rom offset in
      WriteU32Be rom offset (stored + target - observed))"

section \<open>Folding windows\<close>

record WordFold =
  fold_sum :: u32
  fold_xor :: u32

text \<open>The loops, from an offset on.\<close>

function fold_from :: "bytes \<Rightarrow> nat \<Rightarrow> WordFold \<Rightarrow> WordFold" where
  "fold_from piece offset f =
     (if offset + 4 \<le> length piece then
        let word = ReadU32Be piece offset in
        fold_from piece (offset + 4)
          (f\<lparr>fold_sum := fold_sum f + word, fold_xor := fold_xor f XOR word\<rparr>)
      else f)"
  by pat_completeness auto
termination
  by (relation "measure (\<lambda>(piece, offset, _). length piece - offset)") auto

declare fold_from.simps [simp del]

definition FoldPieceU32Be :: "WordFold \<Rightarrow> bytes \<Rightarrow> WordFold" where
  "FoldPieceU32Be f piece = fold_from piece 0 f"

function sum16_from :: "bytes \<Rightarrow> nat \<Rightarrow> u16 \<Rightarrow> u16" where
  "sum16_from piece offset s =
     (if offset + 2 \<le> length piece then
        sum16_from piece (offset + 2) (word_of_int (uint s + uint (ReadU16Be piece offset)))
      else s)"
  by pat_completeness auto
termination
  by (relation "measure (\<lambda>(piece, offset, _). length piece - offset)") auto

declare sum16_from.simps [simp del]

definition SumPieceU16Be :: "u16 \<Rightarrow> bytes \<Rightarrow> u16" where
  "SumPieceU16Be s piece = sum16_from piece 0 s"

definition FoldU32Be :: "bytes list \<Rightarrow> WordFold" where
  "FoldU32Be pieces = fold (\<lambda>p f. FoldPieceU32Be f p) pieces \<lparr>fold_sum = 0, fold_xor = 0\<rparr>"

definition SumU16Be :: "bytes list \<Rightarrow> u16" where
  "SumU16Be pieces = fold (\<lambda>p s. SumPieceU16Be s p) pieces 0"

section \<open>8-bit sums\<close>

definition cks_add :: "u8 \<Rightarrow> u16 \<Rightarrow> u16" where
  "cks_add byte s0 =
     (let s1 = s0 + ucast byte;
          s2 = (if s1 AND 0x100 \<noteq> 0 then s1 + 1 else s1)
      in ucast (ucast s2 :: u8))"

definition CksAdd8 :: "bytes \<Rightarrow> u8" where
  "CksAdd8 data = ucast (fold cks_add data 0)"

definition NegatedSum8 :: "bytes \<Rightarrow> u8" where
  "NegatedSum8 data = word_of_int (0x100 - uint (Sum8 data))"

section \<open>The CRC table implements the bitwise CRC\<close>

text \<open>The reference: the reflected bitwise update, one bit and one byte at a time.\<close>

definition crc_bit :: "u32 \<Rightarrow> u32" where
  "crc_bit x = drop_bit 1 x XOR (if bit x 0 then kPolynomial else 0)"

definition crc_bitwise :: "bytes \<Rightarrow> u32" where
  "crc_bitwise data =
     fold (\<lambda>b crc. (crc_bit ^^ 8) (crc XOR ucast b)) data 0xFFFFFFFF XOR 0xFFFFFFFF"

lemma and_1_bit: "x AND 1 \<noteq> 0 \<longleftrightarrow> bit (x :: u32) 0"
  by (simp add: and_one_eq odd_iff_mod_2_eq_one bit_0)

lemma drop_bit_xor_word: "drop_bit n (a XOR b) = drop_bit n a XOR drop_bit n (b :: 'a::len word)"
  by (rule bit_word_eqI) (simp add: bit_simps)

lemma crc_bit_xor: "crc_bit (a XOR b) = crc_bit a XOR crc_bit b"
  by (rule bit_word_eqI) (auto simp: crc_bit_def bit_simps)

lemma crc_bits_xor: "(crc_bit ^^ n) (a XOR b) = (crc_bit ^^ n) a XOR (crc_bit ^^ n) b"
  by (induction n) (simp_all add: crc_bit_xor)

lemma crc_entry_bits:
  "crc_entry n crc c XOR drop_bit n c = (crc_bit ^^ n) (crc XOR c)"
proof (induction n arbitrary: crc c)
  case (Suc n)
  let ?crc = "if (crc XOR c) AND 1 \<noteq> 0 then drop_bit 1 crc XOR kPolynomial else drop_bit 1 crc"
  have "?crc XOR drop_bit 1 c = crc_bit (crc XOR c)"
    by (rule bit_word_eqI) (auto simp: crc_bit_def and_1_bit bit_simps)
  then show ?case
    using Suc [of ?crc "drop_bit 1 c"] by (simp add: funpow_swap1)
qed simp

lemma crc_bits_shift:
  "take_bit n x = 0 \<Longrightarrow> (crc_bit ^^ n) x = drop_bit n x"
proof (induction n arbitrary: x)
  case (Suc n)
  have low: "\<not> bit x i" if "i \<le> n" for i
    using arg_cong [OF Suc.prems, of "\<lambda>w. bit w i"] that by (simp add: bit_simps)
  then have "crc_bit x = drop_bit 1 x" by (simp add: crc_bit_def)
  moreover have "take_bit n (drop_bit 1 x) = 0"
    using low by (intro bit_word_eqI) (auto simp: bit_simps)
  ultimately show ?case
    using Suc.IH [of "drop_bit 1 x"] by (simp add: funpow_swap1)
qed simp

lemma kCrcTable_nth:
  assumes "x < 256"
  shows "kCrcTable ! unat x = (crc_bit ^^ 8) x"
proof -
  have "unat x < 256" using assms by (simp add: word_less_nat_alt)
  then have "kCrcTable ! unat x = crc_entry 8 0 x" by (simp add: kCrcTable_def MakeCrcTable_def)
  moreover have "drop_bit 8 x = 0"
  proof -
    have "unat (drop_bit 8 x) = drop_bit 8 (unat x)" by (rule unat_drop_bit_eq)
    also have "\<dots> = unat x div 256" by (simp add: drop_bit_eq_div)
    finally show ?thesis using \<open>unat x < 256\<close> by (simp add: unat_eq_zero)
  qed
  ultimately show ?thesis using crc_entry_bits [of 8 0 x] by simp
qed

lemma crc_step_bits: "crc_step b crc = (crc_bit ^^ 8) (crc XOR ucast b)"
proof -
  let ?x = "crc XOR ucast b"
  have m: "(0xff :: u32) = mask 8" by (simp add: mask_eq_exp_minus_1)
  have small: "?x AND 0xff < 256"
    unfolding m take_bit_eq_mask [symmetric] word_less_nat_alt unsigned_take_bit_eq
    using take_bit_nat_less_exp [of 8 "unat ?x"] by simp
  have split: "?x = (?x AND 0xff) XOR (?x AND NOT (mask 8))"
    unfolding m by (rule bit_word_eqI) (auto simp: bit_simps)
  have "(crc_bit ^^ 8) ?x = (crc_bit ^^ 8) (?x AND 0xff) XOR (crc_bit ^^ 8) (?x AND NOT (mask 8))"
    by (subst split) (rule crc_bits_xor)
  also have "(crc_bit ^^ 8) (?x AND NOT (mask 8)) = drop_bit 8 (?x AND NOT (mask 8))"
    by (rule crc_bits_shift) (rule bit_word_eqI, auto simp: bit_simps)
  also have "\<dots> = drop_bit 8 crc"
    by (rule bit_word_eqI) (auto simp: bit_simps dest: bit_imp_le_length)
  finally show ?thesis using kCrcTable_nth [OF small] by (simp add: crc_step_def)
qed

lemma Crc32_bitwise: "Crc32 data = crc_bitwise data"
proof -
  have "crc_step = (\<lambda>b crc. (crc_bit ^^ 8) (crc XOR ucast b))"
    by (intro ext) (rule crc_step_bits)
  then show ?thesis by (simp add: Crc32_def crc_bitwise_def)
qed

section \<open>The folds are sums over the words of the window\<close>

definition halfwords :: "bytes \<Rightarrow> u16 list" where
  "halfwords piece = map (\<lambda>i. ReadU16Be piece (2 * i)) [0..<length piece div 2]"

definition words :: "bytes \<Rightarrow> u32 list" where
  "words piece = map (\<lambda>i. ReadU32Be piece (4 * i)) [0..<length piece div 4]"

lemma word16_of_uint_add: "word_of_int (uint a + uint b) = a + (b :: u16)"
  by (simp add: wi_hom_add)

lemma sum16_from_halfwords:
  "sum16_from piece (2 * k) s = s + sum_list (map (\<lambda>i. ReadU16Be piece (2 * i)) [k..<length piece div 2])"
proof (induction "length piece div 2 - k" arbitrary: k s)
  case 0
  then have "\<not> 2 * k + 2 \<le> length piece" by linarith
  with 0 show ?case by (subst sum16_from.simps) simp
next
  case (Suc n)
  then have k: "2 * k + 2 \<le> length piece" "k < length piece div 2" by linarith+
  have "sum16_from piece (2 * k) s = sum16_from piece (2 * Suc k) (s + ReadU16Be piece (2 * k))"
    using k by (subst sum16_from.simps) (simp add: word16_of_uint_add)
  also have "\<dots> = s + ReadU16Be piece (2 * k) + sum_list (map (\<lambda>i. ReadU16Be piece (2 * i)) [Suc k..<length piece div 2])"
    by (rule Suc(1)) (use Suc(2) in linarith)
  finally show ?case using k by (simp add: upt_conv_Cons add.assoc)
qed

lemma SumPieceU16Be_eq: "SumPieceU16Be s piece = s + sum_list (halfwords piece)"
  using sum16_from_halfwords [of piece 0 s] by (simp add: SumPieceU16Be_def halfwords_def)

lemma SumU16Be_eq: "SumU16Be pieces = sum_list (concat (map halfwords pieces))"
proof -
  have "fold (\<lambda>p s. SumPieceU16Be s p) pieces s = s + sum_list (concat (map halfwords pieces))" for s
    by (induction pieces arbitrary: s) (simp_all add: SumPieceU16Be_eq add.assoc)
  then show ?thesis by (simp add: SumU16Be_def)
qed

lemma fold_from_words:
  "fold_from piece (4 * k) f =
     f\<lparr>fold_sum := fold_sum f + sum_list (map (\<lambda>i. ReadU32Be piece (4 * i)) [k..<length piece div 4]),
       fold_xor := fold (\<lambda>w x. x XOR w) (map (\<lambda>i. ReadU32Be piece (4 * i)) [k..<length piece div 4]) (fold_xor f)\<rparr>"
proof (induction "length piece div 4 - k" arbitrary: k f)
  case 0
  then have "\<not> 4 * k + 4 \<le> length piece" by linarith
  with 0 show ?case by (subst fold_from.simps) simp
next
  case (Suc n)
  then have k: "4 * k + 4 \<le> length piece" "k < length piece div 4" by linarith+
  let ?w = "ReadU32Be piece (4 * k)"
  have "fold_from piece (4 * k) f =
      fold_from piece (4 * Suc k) (f\<lparr>fold_sum := fold_sum f + ?w, fold_xor := fold_xor f XOR ?w\<rparr>)"
    using k(1) by (subst fold_from.simps) (simp add: Let_def add.commute)
  also have "\<dots> = f\<lparr>
      fold_sum := fold_sum f + ?w + sum_list (map (\<lambda>i. ReadU32Be piece (4 * i)) [Suc k..<length piece div 4]),
      fold_xor := fold (\<lambda>w x. x XOR w) (map (\<lambda>i. ReadU32Be piece (4 * i)) [Suc k..<length piece div 4])
        (fold_xor f XOR ?w)\<rparr>"
    by (subst Suc(1)) (use Suc(2) in simp_all)
  finally show ?case using k by (simp add: upt_conv_Cons add.assoc)
qed

lemma FoldPieceU32Be_eq:
  "fold_sum (FoldPieceU32Be f piece) = fold_sum f + sum_list (words piece)"
  "fold_xor (FoldPieceU32Be f piece) = fold (\<lambda>w x. x XOR w) (words piece) (fold_xor f)"
  using fold_from_words [of piece 0 f] by (simp_all add: FoldPieceU32Be_def words_def)

lemma FoldU32Be_eq:
  "fold_sum (FoldU32Be pieces) = sum_list (concat (map words pieces))"
  "fold_xor (FoldU32Be pieces) = fold (\<lambda>w x. x XOR w) (concat (map words pieces)) 0"
proof -
  have "fold_sum (fold (\<lambda>p f. FoldPieceU32Be f p) pieces f) = fold_sum f + sum_list (concat (map words pieces))"
    "fold_xor (fold (\<lambda>p f. FoldPieceU32Be f p) pieces f) = fold (\<lambda>w x. x XOR w) (concat (map words pieces)) (fold_xor f)" for f
    by (induction pieces arbitrary: f) (simp_all add: FoldPieceU32Be_eq add.assoc)
  then show "fold_sum (FoldU32Be pieces) = sum_list (concat (map words pieces))"
    "fold_xor (FoldU32Be pieces) = fold (\<lambda>w x. x XOR w) (concat (map words pieces)) 0"
    by (simp_all add: FoldU32Be_def)
qed

lemma words_kU32Be: "words piece = kU32Be piece"
  by (simp add: words_def kU32Be_ReadU32Be)

section \<open>The one's-complement sum\<close>

lemma cks_add_nat:
  assumes "unat s < 256"
  shows "unat (cks_add b s) = (if unat s + unat b < 256 then unat s + unat b else unat s + unat b - 255)"
proof -
  have small: "unat s + unat b < 511" using assms uint8_lt [of b] by linarith
  then have sum: "unat (s + ucast b) = unat s + unat b"
    by (simp add: unat_word_ariths unat_ucast_up)
  have carry: "(s + ucast b) AND 0x100 \<noteq> 0 \<longleftrightarrow> 256 \<le> unat s + unat b"
  proof -
    have "(s + ucast b) AND 0x100 \<noteq> 0 \<longleftrightarrow> bit (unat (s + ucast b)) 8"
      using and_exp_eq_0_iff_not_bit [of "s + ucast b" 8] by (simp add: bit_unsigned_iff)
    also have "\<dots> \<longleftrightarrow> odd ((unat s + unat b) div 256)" by (simp add: sum bit_iff_odd)
    also have "\<dots> \<longleftrightarrow> 256 \<le> unat s + unat b"
    proof -
      have "(unat s + unat b) div 256 < 2" using small by linarith
      then show ?thesis by (cases "256 \<le> unat s + unat b") (auto simp: less_2_cases_iff div_eq_0_iff)
    qed
    finally show ?thesis .
  qed
  have low: "unat (ucast (ucast x :: u8) :: u16) = unat x mod 256" for x :: u16
  proof -
    have "unat (ucast (ucast x :: u8) :: u16) = unat (ucast x :: u8)" by (rule unat_ucast_up) simp
    also have "\<dots> = take_bit 8 (unat x)" by (simp add: unsigned_ucast_eq)
    finally show ?thesis by (simp add: take_bit_eq_mod)
  qed
  show ?thesis
  proof (cases "256 \<le> unat s + unat b")
    case True
    have "unat (s + ucast b + 1) = unat s + unat b + 1"
      using small by (simp add: unat_word_ariths unat_ucast_up)
    moreover have "(unat s + unat b + 1) mod 256 = unat s + unat b - 255"
      using True small by (subst le_mod_geq) auto
    ultimately show ?thesis
      using True carry low by (simp add: cks_add_def)
  next
    case False
    with carry sum low show ?thesis by (simp add: cks_add_def)
  qed
qed

definition ones_complement :: "nat \<Rightarrow> nat" where
  "ones_complement n = (if n = 0 then 0 else (n - 1) mod 255 + 1)"

lemma ones_complement_step:
  "b < 256 \<Longrightarrow> ones_complement (n + b) =
     (if ones_complement n + b < 256 then ones_complement n + b else ones_complement n + b - 255)"
proof -
  assume b: "b < 256"
  show ?thesis
  proof (cases "n = 0")
    case True
    with b show ?thesis by (cases "b = 0") (simp_all add: ones_complement_def)
  next
    case False
    define r where "r = (n - 1) mod 255"
    have r: "r < 255" by (simp add: r_def)
    have "n + b - 1 = (n - 1) + b" using False by simp
    then have "(n + b - 1) mod 255 = (r + b) mod 255" by (simp add: r_def mod_add_left_eq)
    moreover have "(r + b) mod 255 = (if r + b < 255 then r + b else r + b - 255)"
      using b r by (simp add: mod_if [of "r + b"])
    ultimately have "ones_complement (n + b) = (if r + b < 255 then r + b else r + b - 255) + 1"
      using False by (simp add: ones_complement_def)
    moreover have "ones_complement n = r + 1" using False by (simp add: ones_complement_def r_def)
    ultimately show ?thesis by auto
  qed
qed

lemma CksAdd8_ones_complement:
  "unat (CksAdd8 data) = ones_complement (sum_list (map unat data))"
proof -
  have "unat (fold cks_add bs s) = ones_complement (n + sum_list (map unat bs))"
    if "unat s = ones_complement n" for bs s n
    using that
  proof (induction bs arbitrary: s n)
    case (Cons b bs)
    have "unat s < 256" using Cons.prems by (auto simp: ones_complement_def intro: le_less_trans [of _ 255])
    then have "unat (cks_add b s) = ones_complement (n + unat b)"
      using Cons.prems by (simp add: cks_add_nat ones_complement_step)
    then show ?case using Cons.IH [of "cks_add b s" "n + unat b"] by (simp add: add.assoc)
  qed simp
  from this [of 0 0 data]
  have fold: "unat (fold cks_add data 0) = ones_complement (sum_list (map unat data))"
    by (simp add: ones_complement_def)
  have "ones_complement m < 256" for m by (simp add: ones_complement_def)
  then show ?thesis using fold by (simp add: CksAdd8_def unsigned_ucast_eq take_bit_nat_eq_self_iff)
qed

lemma NegatedSum8_cancels: "NegatedSum8 data + Sum8 data = 0"
proof -
  have "(word_of_int (0x100 - uint w) :: u8) + w = word_of_int (0x100 - uint w + uint w)" for w
    unfolding wi_hom_add [symmetric] by simp
  then have "(word_of_int (0x100 - uint w) :: u8) + w = 0" for w by simp
  then show ?thesis by (simp add: NegatedSum8_def)
qed

lemma Sum8_with_NegatedSum8: "Sum8 (data @ [NegatedSum8 data]) = 0"
  using NegatedSum8_cancels [of data] by (simp add: Sum8_sum_list add.commute)

section \<open>Rewriting one slot of a window\<close>

text \<open>A window is a list of word offsets on the codec's grid. Two offsets on the grid are equal or
  their words do not overlap, so a slot's rewrite moves the window's sum by the slot's change.\<close>

lemma grid_apart:
  assumes "(w :: nat) dvd a" and "w dvd b" and "a \<noteq> b"
  shows "a + w \<le> b \<or> b + w \<le> a"
proof -
  obtain i j where ij: "a = w * i" "b = w * j" using assms(1,2) unfolding dvd_def by blast
  have "w * i + w * 1 \<le> w * j" if "i < j"
    unfolding add_mult_distrib2 [symmetric] using that by (intro mult_le_mono) auto
  moreover have "w * j + w * 1 \<le> w * i" if "j < i"
    unfolding add_mult_distrib2 [symmetric] using that by (intro mult_le_mono) auto
  ultimately show ?thesis using ij assms(3) by (cases i j rule: linorder_cases) auto
qed

locale slot_codec = word_codec width enc dec rd wr id
  for width :: nat
    and enc :: "'w::ab_group_add \<Rightarrow> bytes"
    and dec :: "bytes \<Rightarrow> 'w"
    and rd :: "bytes \<Rightarrow> nat \<Rightarrow> 'w"
    and wr :: "bytes \<Rightarrow> nat \<Rightarrow> 'w \<Rightarrow> bytes"
begin

lemma window_wr_outside:
  assumes "\<forall>p \<in> set offs. width dvd p \<and> p \<noteq> slot" and "width dvd slot"
  shows "map (rd (wr rom slot v)) offs = map (rd rom) offs"
  using assms grid_apart [of width _ slot] by (auto intro!: rd_wr_other)

lemma window_wr_slot:
  assumes "distinct offs" and "\<forall>p \<in> set offs. width dvd p" and "slot \<in> set offs"
    and "slot + width \<le> length rom"
  shows "sum_list (map (rd (wr rom slot v)) offs) = sum_list (map (rd rom) offs) - rd rom slot + v"
proof -
  obtain as bs where offs: "offs = as @ slot # bs" using assms(3) by (meson split_list)
  then have same: "map (rd (wr rom slot v)) as = map (rd rom) as" "map (rd (wr rom slot v)) bs = map (rd rom) bs"
    using assms(1,2) by - (rule window_wr_outside; auto)+
  have "sum_list (map (rd (wr rom slot v)) offs) = sum_list (map (rd rom) as) + (v + sum_list (map (rd rom) bs))"
    unfolding offs map_append list.map same sum_list.append sum_list.Cons using assms(4) by (simp add: rd_wr_same)
  then show ?thesis by (simp add: offs algebra_simps)
qed

lemma rebalance_reaches:
  assumes "distinct offs" and "\<forall>p \<in> set offs. width dvd p" and "slot \<in> set offs"
    and "slot + width \<le> length rom"
  shows "sum_list (map (rd (wr rom slot (rd rom slot + target - sum_list (map (rd rom) offs)))) offs) = target"
  unfolding window_wr_slot [OF assms] by simp

lemma rebalance_idle:
  "sum_list (map (rd rom) offs) = target \<Longrightarrow>
   wr rom slot (rd rom slot + target - sum_list (map (rd rom) offs)) = rom"
  by (simp add: wr_rd_same)

end

interpretation s16: slot_codec 2 "AppendU16Be []" "\<lambda>bs. ReadU16Be bs 0" ReadU16Be WriteU16Be
  by unfold_locales

interpretation s32: slot_codec 4 "AppendU32Be []" "\<lambda>bs. ReadU32Be bs 0" ReadU32Be WriteU32Be
  by unfold_locales

text \<open>The words of a piece of the ROM, by their offsets.\<close>

definition grid :: "nat \<Rightarrow> nat \<Rightarrow> nat \<Rightarrow> nat list" where
  "grid w from n = map (\<lambda>i. from + w * i) [0..<n div w]"

lemma grid_set: "0 < w \<Longrightarrow> w dvd from \<Longrightarrow> w dvd n \<Longrightarrow> set (grid w from n) = {p. w dvd p \<and> from \<le> p \<and> p < from + n}"
proof -
  assume "0 < w" "w dvd from" "w dvd n"
  then obtain k m where km: "from = w * k" "n = w * m" "n div w = m" unfolding dvd_def by auto
  have "p \<in> set (grid w from n) \<longleftrightarrow> w dvd p \<and> from \<le> p \<and> p < from + n" for p
  proof
    assume "p \<in> set (grid w from n)"
    then show "w dvd p \<and> from \<le> p \<and> p < from + n" using km \<open>0 < w\<close> by (auto simp: grid_def)
  next
    assume p: "w dvd p \<and> from \<le> p \<and> p < from + n"
    then obtain q where q: "p = w * q" unfolding dvd_def by auto
    then have "k \<le> q" "q < k + m" using p km \<open>0 < w\<close> by (simp_all flip: add_mult_distrib2)
    then have "p = from + w * (q - k)" "q - k < m" using q km by (simp_all flip: add_mult_distrib2)
    then show "p \<in> set (grid w from n)" using km by (auto simp: grid_def)
  qed
  then show ?thesis by blast
qed

lemma distinct_grid: "0 < w \<Longrightarrow> distinct (grid w from n)"
  by (auto simp: grid_def distinct_map inj_on_def)

lemma halfwords_subspan:
  assumes "a + n \<le> length rom"
  shows "halfwords (subspan rom a n) = map (ReadU16Be rom) (grid 2 a n)"
proof -
  have "ReadU16Be (subspan rom a n) (2 * i) = ReadU16Be rom (a + 2 * i)" if "i < n div 2" for i
  proof -
    have "2 * i + 2 \<le> n" using that by linarith
    with assms show ?thesis by (simp add: ReadU16Be_def nth_subspan add.assoc)
  qed
  with assms show ?thesis by (auto simp: halfwords_def grid_def)
qed

lemma words_subspan:
  assumes "a + n \<le> length rom"
  shows "words (subspan rom a n) = map (ReadU32Be rom) (grid 4 a n)"
proof -
  have "ReadU32Be (subspan rom a n) (4 * i) = ReadU32Be rom (a + 4 * i)" if "i < n div 4" for i
  proof -
    have "4 * i + 4 \<le> n" using that by linarith
    with assms show ?thesis by (simp add: ReadU32Be_def nth_subspan add.assoc)
  qed
  with assms show ?thesis by (auto simp: words_def grid_def)
qed

lemma RebalanceU16Be_eq:
  "RebalanceU16Be rom off seen target = WriteU16Be rom off (ReadU16Be rom off + target - seen)"
  by (simp add: RebalanceU16Be_def wi_hom_add wi_hom_sub)

lemma length_Rebalance [simp]:
  "length (RebalanceU16Be rom off a b) = length rom"
  "length (RebalanceU32Be rom off c d) = length rom"
  by (simp_all add: RebalanceU16Be_def RebalanceU32Be_def Let_def)

section \<open>Properties\<close>

text \<open>C17: the table-driven CRC-32 is the bit-by-bit CRC of the reflected polynomial with an all-ones
  start and a final complement.\<close>

theorem crc32_is_the_bitwise_crc: "Crc32 data = crc_bitwise data"
  by (rule Crc32_bitwise)

text \<open>C25: the window folds over several pieces are the 16-bit sum, the 32-bit sum and the 32-bit XOR
  of the big-endian words of the pieces in order, a partial word at a piece's end being ignored.\<close>

theorem window_folds_are_word_folds:
  "SumU16Be pieces = sum_list (concat (map halfwords pieces)) \<and>
   fold_sum (FoldU32Be pieces) = sum_list (concat (map kU32Be pieces)) \<and>
   fold_xor (FoldU32Be pieces) = fold (\<lambda>w x. x XOR w) (concat (map kU32Be pieces)) 0"
  by (simp add: SumU16Be_eq FoldU32Be_eq words_kU32Be [abs_def])

text \<open>C26: the 8-bit checksums: \<^verbatim>\<open>CksAdd8\<close> is the one's complement sum (end-around carry) of the
  bytes, and appending \<^verbatim>\<open>NegatedSum8\<close> makes the byte sum zero.\<close>

theorem byte_checksums:
  "unat (CksAdd8 data) = ones_complement (sum_list (map unat data)) \<and>
   Sum8 (data @ [NegatedSum8 data]) = 0"
  using CksAdd8_ones_complement Sum8_with_NegatedSum8 by blast

end
