(* ===== verification/Address.thy ===== *)
theory Address
  imports FastECU_Prelude
begin

text \<open>
  \<^verbatim>\<open>algorithms/memory/address.h\<close>: byte counts, 32-bit positions tagged with the space
  they are positions in, and non-empty half-open address ranges. The tag is a
  phantom type parameter, so positions in different spaces do not mix in the model
  either. Arithmetic fails rather than wraps; an empty \<^verbatim>\<open>std::optional\<close> is \<^const>\<open>None\<close>.
\<close>

section \<open>Byte counts and positions\<close>

datatype byte_count = ByteCount (ByteCountValue: u32)

datatype 'tag tagged_position = TaggedPosition (Value: u32)

datatype flash_space = FlashSpace
datatype file_tag = FileTag
datatype definition_tag = DefinitionTag

type_synonym flash_address = "flash_space tagged_position"
type_synonym file_offset = "file_tag tagged_position"
type_synonym definition_address = "definition_tag tagged_position"

text \<open>\<^verbatim>\<open>operator<=>\<close> is defaulted for both: they compare by value.\<close>

instantiation byte_count :: linorder
begin

definition less_eq_byte_count :: "byte_count \<Rightarrow> byte_count \<Rightarrow> bool" where
  "less_eq_byte_count a b \<longleftrightarrow> ByteCountValue a \<le> ByteCountValue b"

definition less_byte_count :: "byte_count \<Rightarrow> byte_count \<Rightarrow> bool" where
  "less_byte_count a b \<longleftrightarrow> ByteCountValue a < ByteCountValue b"

instance
  by standard (auto simp: less_eq_byte_count_def less_byte_count_def byte_count.expand)

end

instantiation tagged_position :: (type) linorder
begin

definition less_eq_tagged_position :: "'a tagged_position \<Rightarrow> 'a tagged_position \<Rightarrow> bool" where
  "less_eq_tagged_position a b \<longleftrightarrow> Value a \<le> Value b"

definition less_tagged_position :: "'a tagged_position \<Rightarrow> 'a tagged_position \<Rightarrow> bool" where
  "less_tagged_position a b \<longleftrightarrow> Value a < Value b"

instance
  by standard (auto simp: less_eq_tagged_position_def less_tagged_position_def tagged_position.expand)

end

definition FromSize :: "nat \<Rightarrow> byte_count option" where
  "FromSize n = (if n > unat (- 1 :: u32) then None else Some (ByteCount (of_nat n)))"

definition Advance :: "'tag tagged_position \<Rightarrow> byte_count \<Rightarrow> 'tag tagged_position option" where
  "Advance p count =
     (if ByteCountValue count > - 1 - Value p then None
      else Some (TaggedPosition (Value p + ByteCountValue count)))"

definition DistanceFrom :: "'tag tagged_position \<Rightarrow> 'tag tagged_position \<Rightarrow> byte_count option" where
  "DistanceFrom p base =
     (if Value base > Value p then None else Some (ByteCount (Value p - Value base)))"

section \<open>Address ranges\<close>

record 'space address_range =
  Start :: "'space tagged_position"
  Size :: byte_count
  End :: "'space tagged_position"

definition MakeRange :: "'space tagged_position \<Rightarrow> byte_count \<Rightarrow> 'space address_range option" where
  "MakeRange start count =
     (if ByteCountValue count = 0 then None
      else case Advance start count of
             None \<Rightarrow> None
           | Some e \<Rightarrow> Some \<lparr>Start = start, Size = count, End = e\<rparr>)"

definition ContainsAddress :: "'space address_range \<Rightarrow> 'space tagged_position \<Rightarrow> bool" where
  "ContainsAddress r a \<longleftrightarrow> Start r \<le> a \<and> a < End r"

definition ContainsRange :: "'space address_range \<Rightarrow> 'space address_range \<Rightarrow> bool" where
  "ContainsRange r other \<longleftrightarrow> Start r \<le> Start other \<and> End other \<le> End r"

definition Overlaps :: "'space address_range \<Rightarrow> 'space address_range \<Rightarrow> bool" where
  "Overlaps r other \<longleftrightarrow> Start r < End other \<and> Start other < End r"

section \<open>Addresses as numbers\<close>

definition addr :: "'tag tagged_position \<Rightarrow> nat" where
  "addr p = unat (Value p)"

definition count_of :: "byte_count \<Rightarrow> nat" where
  "count_of c = unat (ByteCountValue c)"

lemma addr_less_iff: "a < b \<longleftrightarrow> addr a < addr b"
  by (simp add: addr_def less_tagged_position_def word_less_nat_alt)

lemma addr_le_iff: "a \<le> b \<longleftrightarrow> addr a \<le> addr b"
  by (simp add: addr_def less_eq_tagged_position_def word_le_nat_alt)

lemma addr_eq_iff: "a = b \<longleftrightarrow> addr a = addr b"
  by (auto simp: addr_def tagged_position.expand word_unat_eq_iff)

lemma addr_bound [simp]: "addr p < 2 ^ 32"
  by (simp add: addr_def)

lemma addr_min: "addr (min a b) = min (addr a) (addr b)"
  by (simp add: min_def addr_le_iff)

lemma Advance_cases:
  "Advance p c =
     (if addr p + count_of c < 2 ^ 32
      then Some (TaggedPosition (Value p + ByteCountValue c)) else None)"
proof -
  have "unat (Value p) \<le> 4294967295"
    using uint32_lt [of "Value p"] by linarith
  then have "unat (- 1 - Value p) = 2 ^ 32 - 1 - addr p"
    by (simp add: addr_def unat_sub_if' unsigned_minus_1_eq_mask mask_eq_exp_minus_1)
  then have "ByteCountValue c > - 1 - Value p \<longleftrightarrow> \<not> addr p + count_of c < 2 ^ 32"
    using addr_bound [of p] by (auto simp: word_less_nat_alt count_of_def)
  then show ?thesis by (simp add: Advance_def)
qed

lemma addr_advanced:
  "addr p + count_of c < 2 ^ 32 \<Longrightarrow>
   addr (TaggedPosition (Value p + ByteCountValue c) :: 'a tagged_position) = addr p + count_of c"
  by (simp add: addr_def count_of_def unat_word_ariths)

lemma Advance_iff: "Advance p c = Some q \<longleftrightarrow> addr q = addr p + count_of c"
  using addr_advanced [of p c] addr_bound [of q]
  by (auto simp: Advance_cases addr_eq_iff)

lemma Advance_None_iff: "Advance p c = None \<longleftrightarrow> 2 ^ 32 \<le> addr p + count_of c"
  by (auto simp: Advance_cases)

lemma DistanceFrom_iff: "DistanceFrom p base = Some c \<longleftrightarrow> addr p = addr base + count_of c"
  using addr_bound [of p] addr_bound [of base]
  by (cases c)
    (auto simp: DistanceFrom_def addr_def count_of_def word_less_nat_alt unat_sub_if' word_unat_eq_iff)

lemma DistanceFrom_None_iff: "DistanceFrom p base = None \<longleftrightarrow> addr p < addr base"
  by (auto simp: DistanceFrom_def addr_def word_less_nat_alt)

section \<open>Well-formed ranges\<close>

text \<open>What \<open>MakeRange\<close> establishes: a non-empty range whose end is representable.\<close>

definition wf_range :: "'space address_range \<Rightarrow> bool" where
  "wf_range r \<longleftrightarrow> 0 < count_of (Size r) \<and> addr (End r) = addr (Start r) + count_of (Size r)"

definition addrs_of :: "'space address_range \<Rightarrow> nat list" where
  "addrs_of r = [addr (Start r)..<addr (End r)]"

lemma wf_rangeD:
  assumes "wf_range r"
  shows "addr (Start r) < addr (End r)" and "addr (End r) = addr (Start r) + count_of (Size r)"
  using assms by (auto simp: wf_range_def)

lemma MakeRange_wf: "MakeRange s n = Some r \<Longrightarrow> wf_range r \<and> Start r = s \<and> Size r = n"
  by (auto simp: MakeRange_def wf_range_def Advance_iff count_of_def unat_gt_0 split: if_splits option.splits)

lemma MakeRange_Some_iff:
  "(\<exists>r. MakeRange s n = Some r) \<longleftrightarrow> 0 < count_of n \<and> addr s + count_of n < 2 ^ 32"
  using Advance_None_iff [of s n]
  by (auto simp: MakeRange_def count_of_def unat_gt_0 split: option.splits)

lemma length_addrs_of: "wf_range r \<Longrightarrow> length (addrs_of r) = count_of (Size r)"
  by (simp add: addrs_of_def wf_range_def)

lemma Overlaps_iff:
  assumes "wf_range r" and "wf_range s"
  shows "Overlaps r s \<longleftrightarrow> set (addrs_of r) \<inter> set (addrs_of s) \<noteq> {}"
proof -
  have "(\<exists>a. addr (Start r) \<le> a \<and> a < addr (End r) \<and> addr (Start s) \<le> a \<and> a < addr (End s))
    \<longleftrightarrow> addr (Start r) < addr (End s) \<and> addr (Start s) < addr (End r)"
    using wf_rangeD(1) [OF assms(1)] wf_rangeD(1) [OF assms(2)]
    by (auto intro: exI [of _ "max (addr (Start r)) (addr (Start s))"])
  then show ?thesis by (auto simp: Overlaps_def addr_less_iff addrs_of_def)
qed

lemma ContainsRange_iff:
  assumes "wf_range r" and "wf_range s"
  shows "ContainsRange r s \<longleftrightarrow> set (addrs_of s) \<subseteq> set (addrs_of r)"
  using wf_rangeD(1) [OF assms(1)] wf_rangeD(1) [OF assms(2)]
  by (auto simp: ContainsRange_def addr_le_iff addrs_of_def subset_iff
      intro: dest: spec [of _ "addr (Start s)"] spec [of _ "addr (End s) - 1"])

lemma FromSize_fits: "n < 2 ^ 32 \<Longrightarrow> \<exists>c. FromSize n = Some c \<and> count_of c = n"
  by (simp add: FromSize_def count_of_def unsigned_minus_1_eq_mask mask_eq_exp_minus_1 unat_of_nat)

lemma FromSize_count: "FromSize n = Some c \<Longrightarrow> count_of c = n"
  by (auto simp: FromSize_def count_of_def unsigned_minus_1_eq_mask mask_eq_exp_minus_1 unat_of_nat
      split: if_splits)

end
