(* ===== verification/Memory_Map.thy ===== *)
theory Memory_Map
  imports Address "HOL-Library.Product_Lexorder" "HOL-Library.Multiset"
begin

text \<open>
  \<^verbatim>\<open>algorithms/memory/memory_map.h/.cpp\<close>: the ordered memory blocks that place one
  ROM file layout at ECU addresses. Dereferencing an empty \<^verbatim>\<open>std::optional\<close> is
  undefined in C++; the operations that do so (\<open>Span\<close>, \<open>Slices\<close> and what uses
  them) return \<^const>\<open>None\<close> there, and the lemmas show that they never do on a map
  that \<open>MemoryMap_Create\<close> accepted. \<open>flat_slices\<close> is the address-by-address
  reading of a slice list; \<open>Slices_flat\<close> is the refinement lemma for the walk.
\<close>

section \<open>Blocks and errors\<close>

datatype MemoryErrorKind =
  kInvalidLayout | kFileSizeMismatch | kUnmapped | kFillBlock | kNotWritable

record MemoryError =
  error_kind :: MemoryErrorKind
  error_detail :: string

datatype backing = FileBacking file_offset | FillBacking u8

datatype Writability = kReadOnly | kWritable

record MemoryBlock =
  block_range :: "flash_space address_range"
  block_backing :: backing
  block_writability :: Writability

text \<open>\<^verbatim>\<open>const MemoryBlock *block\<close>: a null pointer marks a gap.\<close>

record BlockSlice =
  slice_block :: "MemoryBlock option"
  slice_range :: "flash_space address_range"

record MemoryMap =
  blocks_of :: "MemoryBlock list"
  file_size_of :: byte_count
  definition_base_of :: flash_address

section \<open>Construction\<close>

definition InvalidLayout :: "string \<Rightarrow> MemoryError + 'a" where
  "InvalidLayout detail = Inl \<lparr>error_kind = kInvalidLayout, error_detail = detail\<rparr>"

definition Between :: "flash_address \<Rightarrow> flash_address \<Rightarrow> flash_space address_range option" where
  "Between s e = (case DistanceFrom e s of None \<Rightarrow> None | Some n \<Rightarrow> MakeRange s n)"

fun file_ranges :: "MemoryBlock list \<Rightarrow> (file_offset \<times> byte_count) list" where
  "file_ranges [] = []"
| "file_ranges (b # bs) =
     (case block_backing b of
        FileBacking offset \<Rightarrow> (offset, Size (block_range b)) # file_ranges bs
      | FillBacking _ \<Rightarrow> file_ranges bs)"

text \<open>The loop of \<^verbatim>\<open>CheckFilePlacement\<close> over the sorted file ranges, from \<open>next\<close> on.\<close>

fun place_ranges :: "file_offset \<Rightarrow> (file_offset \<times> byte_count) list \<Rightarrow> MemoryError + file_offset" where
  "place_ranges next [] = Inr next"
| "place_ranges next ((offset, n) # rest) =
     (if offset < next then
        InvalidLayout (''ROM file byte 0x'' @ fmt_x (addr offset) @ '' is placed by two blocks'')
      else if next < offset then
        InvalidLayout (''ROM file bytes 0x'' @ fmt_x (addr next) @ ''-0x'' @
          fmt_x (unat (Value offset - 1)) @ '' are not placed'')
      else case Advance offset n of
             None \<Rightarrow> InvalidLayout ''a file-backed block runs past the 32-bit file range''
           | Some e \<Rightarrow> place_ranges e rest)"

definition CheckFilePlacement :: "MemoryBlock list \<Rightarrow> byte_count \<Rightarrow> MemoryError + unit" where
  "CheckFilePlacement blocks file_size =
     result_bind (place_ranges (TaggedPosition 0) (sort (file_ranges blocks)))
       (\<lambda>next.
          let file_end = TaggedPosition (ByteCountValue file_size) in
          if next < file_end then
            InvalidLayout (''ROM file bytes from 0x'' @ fmt_x (addr next) @ '' are not placed'')
          else if file_end < next then
            InvalidLayout (''file-backed blocks run past the '' @ fmt_d (count_of file_size) @
              ''-byte ROM file'')
          else Inr ())"

definition writable_fill :: "MemoryBlock \<Rightarrow> bool" where
  "writable_fill b \<longleftrightarrow>
     (case block_backing b of FillBacking _ \<Rightarrow> True | FileBacking _ \<Rightarrow> False)
     \<and> block_writability b = kWritable"

text \<open>\<^verbatim>\<open>std::ranges::adjacent_find\<close>: the second block of the first pair out of order.\<close>

fun disorder :: "MemoryBlock list \<Rightarrow> MemoryBlock option" where
  "disorder (before # after # rest) =
     (if Start (block_range after) < End (block_range before) then Some after
      else disorder (after # rest))"
| "disorder _ = None"

definition MemoryMap_Create ::
  "MemoryBlock list \<Rightarrow> byte_count \<Rightarrow> flash_address \<Rightarrow> MemoryError + MemoryMap" where
  "MemoryMap_Create blocks file_size definition_base =
     (if blocks = [] then InvalidLayout ''a memory map needs at least one block''
      else if ByteCountValue file_size = 0 then
        InvalidLayout ''a memory map needs a non-empty ROM file''
      else case find writable_fill blocks of
        Some b \<Rightarrow> InvalidLayout (''the fill block at 0x'' @ fmt_x (addr (Start (block_range b))) @
                    '' is marked writable'')
      | None \<Rightarrow>
        (case disorder blocks of
           Some after \<Rightarrow> InvalidLayout (''the block at 0x'' @ fmt_x (addr (Start (block_range after))) @
                           '' overlaps or precedes the block before it'')
         | None \<Rightarrow>
             result_bind (CheckFilePlacement blocks file_size)
               (\<lambda>_. Inr \<lparr>blocks_of = blocks, file_size_of = file_size,
                         definition_base_of = definition_base\<rparr>)))"

definition Identity :: "byte_count \<Rightarrow> MemoryError + MemoryMap" where
  "Identity file_size =
     (case MakeRange (TaggedPosition 0) file_size of
        None \<Rightarrow> InvalidLayout ''an identity memory map needs a non-empty ROM file''
      | Some rng \<Rightarrow>
          MemoryMap_Create
            [\<lparr>block_range = rng, block_backing = FileBacking (TaggedPosition 0),
              block_writability = kWritable\<rparr>] file_size (TaggedPosition 0))"

section \<open>Queries\<close>

definition Span :: "MemoryMap \<Rightarrow> flash_space address_range option" where
  "Span m =
     (case blocks_of m of
        [] \<Rightarrow> None
      | front # rest \<Rightarrow>
          (let s = Start (block_range front) in
           case DistanceFrom (End (block_range (last (front # rest)))) s of
             None \<Rightarrow> None
           | Some n \<Rightarrow> MakeRange s n))"

text \<open>\<^verbatim>\<open>std::ranges::upper_bound\<close> on a list sorted by the projection: the index of the
  first element whose projection is past the value.\<close>

definition upper_bound :: "('a \<Rightarrow> 'k::linorder) \<Rightarrow> 'a list \<Rightarrow> 'k \<Rightarrow> nat" where
  "upper_bound proj xs v = length (takeWhile (\<lambda>x. \<not> v < proj x) xs)"

definition BlockAt :: "MemoryMap \<Rightarrow> flash_address \<Rightarrow> MemoryBlock option" where
  "BlockAt m address =
     (let after = upper_bound (\<lambda>b. Start (block_range b)) (blocks_of m) address in
      if after = 0 then None
      else let candidate = blocks_of m ! (after - 1) in
           if ContainsAddress (block_range candidate) address then Some candidate else None)"

definition ToFlashAddress :: "MemoryMap \<Rightarrow> definition_address \<Rightarrow> flash_address option" where
  "ToFlashAddress m address = Advance (definition_base_of m) (ByteCount (Value address))"

text \<open>The walk of \<^verbatim>\<open>Slices\<close>: the blocks still ahead, the range's end and the cursor.\<close>

function walk_slices ::
  "MemoryBlock list \<Rightarrow> flash_address \<Rightarrow> flash_address \<Rightarrow> BlockSlice list option" where
  "walk_slices bs range_end cursor =
     (if \<not> cursor < range_end then Some []
      else if bs = [] \<or> cursor < Start (block_range (hd bs)) then
        (let gap_end = (if bs = [] then range_end else min (Start (block_range (hd bs))) range_end) in
         case Between cursor gap_end of
           None \<Rightarrow> None
         | Some r \<Rightarrow> map_option (Cons \<lparr>slice_block = None, slice_range = r\<rparr>)
                       (walk_slices bs range_end gap_end))
      else
        (let e = min (End (block_range (hd bs))) range_end in
         case Between cursor e of
           None \<Rightarrow> None
         | Some r \<Rightarrow> map_option (Cons \<lparr>slice_block = Some (hd bs), slice_range = r\<rparr>)
                       (walk_slices (tl bs) range_end e)))"
  by pat_completeness auto
termination
  by (relation "measures [\<lambda>(bs, e, c). length bs, \<lambda>(bs, e, c). addr e - addr c]")
    (auto simp: addr_less_iff addr_min)

declare walk_slices.simps [simp del]

definition Slices :: "MemoryMap \<Rightarrow> flash_space address_range \<Rightarrow> BlockSlice list option" where
  "Slices m rng =
     walk_slices
       (drop (upper_bound (\<lambda>b. End (block_range b)) (blocks_of m) (Start rng)) (blocks_of m))
       (End rng) (Start rng)"

text \<open>The outer option is the undefined dereference, the inner one the result.\<close>

definition FileStart :: "BlockSlice \<Rightarrow> file_offset option option" where
  "FileStart s =
     (case slice_block s of
        None \<Rightarrow> Some None
      | Some b \<Rightarrow>
          (case block_backing b of
             FillBacking _ \<Rightarrow> Some None
           | FileBacking offset \<Rightarrow>
               (case DistanceFrom (Start (slice_range s)) (Start (block_range b)) of
                  None \<Rightarrow> None
                | Some n \<Rightarrow> Some (Advance offset n))))"

definition FileOffsetOf :: "MemoryMap \<Rightarrow> flash_space address_range \<Rightarrow> file_offset option option" where
  "FileOffsetOf m rng =
     (case Slices m rng of
        None \<Rightarrow> None
      | Some [s] \<Rightarrow> FileStart s
      | Some _ \<Rightarrow> Some None)"

section \<open>The invariant of a memory map\<close>

text \<open>\<open>block_in\<close> is the specification of block lookup: the block whose range holds an
  address. \<open>file_bytes\<close> lists the ROM file positions a block places, in address order.\<close>

definition holds :: "MemoryBlock \<Rightarrow> nat \<Rightarrow> bool" where
  "holds b a \<longleftrightarrow> addr (Start (block_range b)) \<le> a \<and> a < addr (End (block_range b))"

definition block_in :: "MemoryBlock list \<Rightarrow> nat \<Rightarrow> MemoryBlock option" where
  "block_in bs a = find (\<lambda>b. holds b a) bs"

definition file_bytes :: "MemoryBlock \<Rightarrow> nat list" where
  "file_bytes b =
     (case block_backing b of
        FillBacking _ \<Rightarrow> []
      | FileBacking off \<Rightarrow> [addr off..<addr off + count_of (Size (block_range b))])"

text \<open>Every block's range was built by \<open>MakeRange\<close>: the class has no other constructor.\<close>

definition ranges_made :: "MemoryBlock list \<Rightarrow> bool" where
  "ranges_made bs \<longleftrightarrow> (\<forall>b \<in> set bs. wf_range (block_range b))"

definition ordered_blocks :: "MemoryBlock list \<Rightarrow> bool" where
  "ordered_blocks bs \<longleftrightarrow>
     sorted_wrt (\<lambda>a b. addr (End (block_range a)) \<le> addr (Start (block_range b))) bs"

definition places_file :: "MemoryBlock list \<Rightarrow> nat \<Rightarrow> bool" where
  "places_file bs n \<longleftrightarrow>
     distinct (concat (map file_bytes bs)) \<and> set (concat (map file_bytes bs)) = {..<n}"

definition wf_map :: "MemoryMap \<Rightarrow> bool" where
  "wf_map m \<longleftrightarrow>
     blocks_of m \<noteq> [] \<and> ByteCountValue (file_size_of m) \<noteq> 0 \<and>
     ranges_made (blocks_of m) \<and> ordered_blocks (blocks_of m) \<and>
     (\<forall>b \<in> set (blocks_of m). \<not> writable_fill b) \<and>
     places_file (blocks_of m) (count_of (file_size_of m))"

lemma ranges_made_Cons [simp]: "ranges_made (b # bs) \<longleftrightarrow> wf_range (block_range b) \<and> ranges_made bs"
  by (auto simp: ranges_made_def)

lemma ordered_blocks_Cons [simp]:
  "ordered_blocks (b # bs) \<longleftrightarrow>
     (\<forall>c \<in> set bs. addr (End (block_range b)) \<le> addr (Start (block_range c))) \<and> ordered_blocks bs"
  by (simp add: ordered_blocks_def)

lemma ranges_made_drop: "ranges_made bs \<Longrightarrow> ranges_made (drop n bs)"
  by (auto simp: ranges_made_def dest: in_set_dropD)

lemma ordered_blocks_drop: "ordered_blocks bs \<Longrightarrow> ordered_blocks (drop n bs)"
  by (simp add: ordered_blocks_def sorted_wrt_drop)

lemma ordered_blocks_iff_disorder:
  "ranges_made bs \<Longrightarrow> ordered_blocks bs \<longleftrightarrow> disorder bs = None"
proof (induction bs rule: disorder.induct)
  case (1 b c rest)
  have "addr (End (block_range b)) \<le> addr (Start (block_range c)) \<Longrightarrow> ordered_blocks (c # rest) \<Longrightarrow>
      \<forall>d \<in> set rest. addr (End (block_range b)) \<le> addr (Start (block_range d))"
    using 1(2) wf_rangeD(1) [of "block_range c"] by fastforce
  with 1 show ?case by (auto simp: addr_less_iff)
qed (auto simp: ordered_blocks_def)

subsection \<open>The file placement check\<close>

fun contiguous :: "nat \<Rightarrow> (file_offset \<times> byte_count) list \<Rightarrow> nat \<Rightarrow> bool" where
  "contiguous s [] e \<longleftrightarrow> s = e"
| "contiguous s ((off, n) # rest) e \<longleftrightarrow> addr off = s \<and> contiguous (s + count_of n) rest e"

definition interval_of :: "file_offset \<times> byte_count \<Rightarrow> nat list" where
  "interval_of r = [addr (fst r)..<addr (fst r) + count_of (snd r)]"

lemma contiguous_le: "contiguous s rs e \<Longrightarrow> s \<le> e"
  by (induction s rs e rule: contiguous.induct) auto

lemma place_ranges_contiguous:
  "e < 2 ^ 32 \<Longrightarrow>
   (\<exists>q. place_ranges p rs = Inr q \<and> addr q = e) \<longleftrightarrow> contiguous (addr p) rs e"
proof (induction p rs rule: place_ranges.induct)
  case (2 p off n rest)
  show ?case
  proof (cases "off = p")
    case True
    show ?thesis
    proof (cases "Advance off n")
      case None
      then have "2 ^ 32 \<le> addr off + count_of n" by (simp add: Advance_None_iff)
      then have "\<not> contiguous (addr off + count_of n) rest e"
        using contiguous_le 2(2) by fastforce
      with None True show ?thesis by (simp add: InvalidLayout_def)
    next
      case (Some q)
      moreover from Some have "addr q = addr off + count_of n" by (simp add: Advance_iff)
      ultimately show ?thesis using 2 True by simp
    qed
  next
    case False
    then show ?thesis by (auto simp: InvalidLayout_def addr_eq_iff)
  qed
qed auto

lemma contiguous_flat:
  "contiguous s rs e \<Longrightarrow> concat (map interval_of rs) = [s..<e]"
proof (induction s rs e rule: contiguous.induct)
  case (2 s off n rest e)
  then have "s + count_of n \<le> e" by (auto dest: contiguous_le)
  then have "[s..<e] = [s..<s + count_of n] @ [s + count_of n..<e]"
    by (metis le_add1 upt_add_eq_append le_iff_add)
  with 2 show ?case by (simp add: interval_of_def)
qed simp

lemma sorted_flat_contiguous:
  "sorted rs \<Longrightarrow> \<forall>r \<in> set rs. 0 < count_of (snd r) \<Longrightarrow> s \<le> e \<Longrightarrow>
   distinct (concat (map interval_of rs)) \<Longrightarrow> set (concat (map interval_of rs)) = {s..<e} \<Longrightarrow>
   contiguous s rs e"
proof (induction rs arbitrary: s)
  case Nil
  then show ?case by simp
next
  case (Cons r rs)
  obtain off n where r: "r = (off, n)" by (cases r)
  let ?rest = "concat (map interval_of rs)"
  have union: "{addr off..<addr off + count_of n} \<union> set ?rest = {s..<e}"
    using Cons.prems(5) by (simp add: r interval_of_def)
  have pos: "0 < count_of n" using Cons.prems(2) r by simp
  have first: "\<forall>x \<in> set ?rest. addr off \<le> x"
    using Cons.prems(1) by (fastforce simp: r interval_of_def addr_le_iff less_eq_prod_def addr_less_iff)
  have "addr off \<in> {s..<e}" and last: "addr off + count_of n - 1 \<in> {s..<e}"
    using union pos by auto
  moreover from this have "s \<in> {addr off..<addr off + count_of n} \<union> set ?rest"
    using union by auto
  ultimately have off: "addr off = s" using first by fastforce
  have "set ?rest = {s + count_of n..<e}"
  proof -
    have "set ?rest \<inter> {addr off..<addr off + count_of n} = {}"
      using Cons.prems(4) by (auto simp: r interval_of_def)
    then have "set ?rest = {s..<e} - {addr off..<addr off + count_of n}"
      using union by blast
    then show ?thesis using off last by auto
  qed
  then have "contiguous (s + count_of n) rs e"
    using Cons.prems off last pos by (intro Cons.IH) (auto simp: r)
  then show ?case by (simp add: r off)
qed

lemma file_bytes_ranges: "concat (map interval_of (file_ranges bs)) = concat (map file_bytes bs)"
  by (induction bs) (auto simp: file_bytes_def interval_of_def split: backing.splits)

lemma file_ranges_pos: "ranges_made bs \<Longrightarrow> \<forall>r \<in> set (file_ranges bs). 0 < count_of (snd r)"
  by (induction bs) (auto simp: wf_range_def split: backing.splits)

lemma mset_concat_map: "mset xs = mset ys \<Longrightarrow> mset (concat (map f xs)) = mset (concat (map f ys))"
  by (metis mset_concat mset_map sum_mset_sum_list)

lemma sorted_ranges_flat:
  "mset (concat (map interval_of (sort (file_ranges bs)))) = mset (concat (map file_bytes bs))"
  using mset_concat_map [of "sort (file_ranges bs)" "file_ranges bs" interval_of]
  by (simp add: file_bytes_ranges)

lemma CheckFilePlacement_iff:
  assumes "ranges_made bs"
  shows "CheckFilePlacement bs n = Inr () \<longleftrightarrow> places_file bs (count_of n)"
proof -
  let ?rs = "sort (file_ranges bs)"
  have flat: "distinct (concat (map interval_of ?rs)) = distinct (concat (map file_bytes bs))"
    "set (concat (map interval_of ?rs)) = set (concat (map file_bytes bs))"
    using sorted_ranges_flat [of bs] mset_eq_setD mset_eq_imp_distinct_iff by blast+
  have bound: "count_of n < 2 ^ 32" by (simp add: count_of_def)
  have "CheckFilePlacement bs n = Inr () \<longleftrightarrow>
      (\<exists>q. place_ranges (TaggedPosition 0) ?rs = Inr q \<and> addr q = count_of n)"
    by (cases "place_ranges (TaggedPosition 0) ?rs")
      (auto simp: CheckFilePlacement_def InvalidLayout_def addr_less_iff addr_def count_of_def)
  also have "\<dots> \<longleftrightarrow> contiguous 0 ?rs (count_of n)"
    using place_ranges_contiguous [OF bound] by (simp add: addr_def)
  also have "\<dots> \<longleftrightarrow> places_file bs (count_of n)"
  proof
    assume "contiguous 0 ?rs (count_of n)"
    then show "places_file bs (count_of n)"
      unfolding places_file_def flat [symmetric]
      by (simp only: contiguous_flat) (simp add: lessThan_atLeast0)
  next
    assume "places_file bs (count_of n)"
    then show "contiguous 0 ?rs (count_of n)"
      using file_ranges_pos [OF assms] flat
      by (intro sorted_flat_contiguous) (auto simp: places_file_def lessThan_atLeast0)
  qed
  finally show ?thesis .
qed

text \<open>\<open>MemoryMap_Create\<close> accepts exactly the layouts its header describes.\<close>

lemma find_None_all: "find P xs = None \<longleftrightarrow> (\<forall>x \<in> set xs. \<not> P x)"
  by (auto simp: find_None_iff)

lemma MemoryMap_Create_Inr_iff:
  assumes "ranges_made bs"
  shows "MemoryMap_Create bs n base = Inr m \<longleftrightarrow>
    m = \<lparr>blocks_of = bs, file_size_of = n, definition_base_of = base\<rparr> \<and> wf_map m"
proof -
  have "MemoryMap_Create bs n base = Inr m \<longleftrightarrow>
      bs \<noteq> [] \<and> ByteCountValue n \<noteq> 0 \<and> find writable_fill bs = None \<and> disorder bs = None \<and>
      CheckFilePlacement bs n = Inr () \<and>
      m = \<lparr>blocks_of = bs, file_size_of = n, definition_base_of = base\<rparr>"
    by (auto simp: MemoryMap_Create_def InvalidLayout_def result_bind_Inr_conv split: option.splits)
  then show ?thesis
    using assms ordered_blocks_iff_disorder CheckFilePlacement_iff [OF assms]
    by (auto simp: wf_map_def find_None_all)
qed

lemma MemoryMap_Create_error:
  "MemoryMap_Create bs n base = Inl e \<Longrightarrow> error_kind e = kInvalidLayout"
proof -
  have place: "place_ranges p rs = Inl e \<Longrightarrow> error_kind e = kInvalidLayout" for p rs
    by (induction p rs rule: place_ranges.induct)
      (auto simp: InvalidLayout_def split: if_splits option.splits)
  show "MemoryMap_Create bs n base = Inl e \<Longrightarrow> error_kind e = kInvalidLayout"
    by (auto simp: MemoryMap_Create_def CheckFilePlacement_def InvalidLayout_def result_bind_def Let_def
        dest: place split: if_splits option.splits sum.splits)
qed

section \<open>Lookup\<close>

lemma holds_unique:
  assumes "ordered_blocks bs" and "b \<in> set bs" and "c \<in> set bs" and "holds b a" and "holds c a"
  shows "b = c"
  using assms by (induction bs) (fastforce simp: holds_def)+

lemma block_in_eq:
  assumes "ordered_blocks bs" and "b \<in> set bs" and "holds b a"
  shows "block_in bs a = Some b"
proof -
  obtain c where c: "block_in bs a = Some c"
    using assms(2,3) by (cases "block_in bs a") (auto simp: block_in_def find_None_iff)
  then have "c \<in> set bs" and "holds c a"
    by (auto simp: block_in_def find_Some_iff)
  with assms c show ?thesis using holds_unique by blast
qed

lemma block_in_SomeD: "block_in bs a = Some b \<Longrightarrow> b \<in> set bs \<and> holds b a"
  by (auto simp: block_in_def find_Some_iff)

lemma block_in_NoneD: "block_in bs a = None \<Longrightarrow> b \<in> set bs \<Longrightarrow> \<not> holds b a"
  by (auto simp: block_in_def find_None_iff)

lemma block_in_dropWhile:
  "\<forall>b \<in> set (takeWhile P bs). \<not> holds b a \<Longrightarrow> block_in (dropWhile P bs) a = block_in bs a"
  by (induction bs) (auto simp: block_in_def split: if_splits)

lemma drop_upper_bound:
  "drop (upper_bound proj xs v) xs = dropWhile (\<lambda>x. \<not> v < proj x) xs"
  by (simp add: upper_bound_def dropWhile_eq_drop)

text \<open>The binary search on block starts finds the block holding the address.\<close>

lemma block_in_last:
  "ordered_blocks bs \<Longrightarrow> ranges_made bs \<Longrightarrow>
   block_in bs a =
     (let tw = takeWhile (\<lambda>b. addr (Start (block_range b)) \<le> a) bs in
      if tw \<noteq> [] \<and> holds (last tw) a then Some (last tw) else None)"
proof (induction bs)
  case Nil
  then show ?case by (simp add: block_in_def)
next
  case (Cons b bs)
  show ?case
  proof (cases "addr (Start (block_range b)) \<le> a")
    case False
    then have "\<not> holds c a" if "c \<in> set (b # bs)" for c
      using that Cons.prems wf_rangeD(1) [of "block_range b"] by (fastforce simp: holds_def)
    then have "block_in (b # bs) a = None" by (auto simp: block_in_def find_None_iff)
    with False show ?thesis by simp
  next
    case True
    have "\<not> holds b a" if "takeWhile (\<lambda>b. addr (Start (block_range b)) \<le> a) bs \<noteq> []"
      using that Cons.prems by (cases bs) (auto simp: holds_def split: if_splits)
    moreover have "block_in (b # bs) a = (if holds b a then Some b else block_in bs a)"
      by (simp add: block_in_def)
    ultimately show ?thesis using True Cons by (auto simp: Let_def)
  qed
qed

lemma BlockAt_correct:
  assumes "wf_map m"
  shows "BlockAt m a = block_in (blocks_of m) (addr a)"
proof -
  let ?tw = "takeWhile (\<lambda>b. addr (Start (block_range b)) \<le> addr a) (blocks_of m)"
  have idx: "blocks_of m ! (length ?tw - 1) = last ?tw" if "?tw \<noteq> []"
    using that by (metis last_conv_nth takeWhile_nth diff_less length_greater_0_conv zero_less_one)
  have "ContainsAddress (block_range b) a \<longleftrightarrow> holds b (addr a)" for b
    by (simp add: ContainsAddress_def holds_def addr_le_iff addr_less_iff)
  then show ?thesis
    using assms idx block_in_last [of "blocks_of m" "addr a"]
    by (auto simp: BlockAt_def upper_bound_def Let_def addr_less_iff not_less wf_map_def)
qed

section \<open>Slices\<close>

definition flat_slices :: "BlockSlice list \<Rightarrow> (MemoryBlock option \<times> nat) list" where
  "flat_slices sl = concat (map (\<lambda>s. map (\<lambda>a. (slice_block s, a)) (addrs_of (slice_range s))) sl)"

lemma flat_slices_simps [simp]:
  "flat_slices [] = []"
  "flat_slices (s # sl) = map (\<lambda>a. (slice_block s, a)) (addrs_of (slice_range s)) @ flat_slices sl"
  by (simp_all add: flat_slices_def)

lemma Between_Some:
  assumes "addr s < addr e"
  obtains r where "Between s e = Some r" and "Start r = s" and "End r = e" and "wf_range r"
proof -
  from assms obtain n where n: "DistanceFrom e s = Some n"
    using DistanceFrom_None_iff [of e s] by (cases "DistanceFrom e s") auto
  then have e: "addr e = addr s + count_of n" by (simp add: DistanceFrom_iff)
  with assms addr_bound [of e] obtain r where r: "MakeRange s n = Some r"
    using MakeRange_Some_iff [of s n] by auto
  then have "wf_range r" "Start r = s" "Size r = n" using MakeRange_wf by auto
  with n r e show ?thesis
    by (intro that [of r]) (auto simp: Between_def addr_eq_iff wf_range_def)
qed

text \<open>The precondition of the walk: no block ahead ends at or before the cursor.\<close>

definition ahead :: "MemoryBlock list \<Rightarrow> nat \<Rightarrow> bool" where
  "ahead bs c \<longleftrightarrow> bs \<noteq> [] \<longrightarrow> c < addr (End (block_range (hd bs)))"

lemma ahead_tl:
  assumes "ordered_blocks bs" and "ranges_made bs" and "bs \<noteq> []"
    and "c \<le> addr (End (block_range (hd bs)))"
  shows "ahead (tl bs) c"
  using assms wf_rangeD(1) by (cases bs; cases "tl bs") (fastforce simp: ahead_def)+

lemma block_in_gap:
  assumes "ordered_blocks bs" and "ranges_made bs" and "bs = [] \<or> a < addr (Start (block_range (hd bs)))"
  shows "block_in bs a = None"
  unfolding block_in_last [OF assms(1,2)] using assms(3) by (cases bs) auto

lemma block_in_tl:
  "bs \<noteq> [] \<Longrightarrow> addr (End (block_range (hd bs))) \<le> a \<Longrightarrow> block_in bs a = block_in (tl bs) a"
  by (cases bs) (auto simp: block_in_def holds_def)

lemma upt_split: "a \<le> b \<Longrightarrow> b \<le> c \<Longrightarrow> [a..<c] = [a..<b] @ [b..<c]"
  by (metis le_iff_add upt_add_eq_append)

lemma walk_slices_flat:
  "ordered_blocks bs \<Longrightarrow> ranges_made bs \<Longrightarrow> ahead bs (addr c) \<Longrightarrow>
   \<exists>sl. walk_slices bs e c = Some sl \<and> (\<forall>s \<in> set sl. wf_range (slice_range s)) \<and>
     flat_slices sl = map (\<lambda>a. (block_in bs a, a)) [addr c..<addr e]"
proof (induction bs e c rule: walk_slices.induct)
  case (1 bs e c)
  let ?front = "block_range (hd bs)"
  consider (past) "\<not> c < e"
    | (gap) "c < e" "bs = [] \<or> c < Start ?front"
    | (block) "c < e" "bs \<noteq> []" "\<not> c < Start ?front" by blast
  then show ?case
  proof cases
    case past
    then show ?thesis by (subst walk_slices.simps) (simp add: addr_less_iff)
  next
    case gap
    define g where "g = (if bs = [] then e else min (Start ?front) e)"
    have c: "addr c < addr g" "addr g \<le> addr e"
      using gap by (auto simp: g_def addr_less_iff addr_min)
    then obtain r where r: "Between c g = Some r" "Start r = c" "End r = g" "wf_range r"
      by (blast elim: Between_Some)
    have "ahead bs (addr g)"
      using "1.prems"(2) wf_rangeD(1) [of ?front]
      by (cases bs) (auto simp: ahead_def g_def addr_min)
    then obtain sl where sl: "walk_slices bs e g = Some sl" "\<forall>s \<in> set sl. wf_range (slice_range s)"
        "flat_slices sl = map (\<lambda>a. (block_in bs a, a)) [addr g..<addr e]"
      using "1.IH"(1) [OF _ gap(2) g_def r(1)] gap(1) "1.prems" by blast
    have "block_in bs a = None" if "a \<in> set [addr c..<addr g]" for a
      using that "1.prems" by (intro block_in_gap) (auto simp: g_def addr_min split: if_splits)
    then have "flat_slices (\<lparr>slice_block = None, slice_range = r\<rparr> # sl)
        = map (\<lambda>a. (block_in bs a, a)) [addr c..<addr e]"
      using c r sl(3) upt_split [of "addr c" "addr g" "addr e"] by (simp add: addrs_of_def)
    moreover have "walk_slices bs e c = Some (\<lparr>slice_block = None, slice_range = r\<rparr> # sl)"
      using gap r sl(1) by (subst walk_slices.simps) (simp add: g_def [symmetric])
    ultimately show ?thesis using sl(2) r(4) by auto
  next
    case block
    define g where "g = min (End ?front) e"
    have c: "addr c < addr g" "addr g \<le> addr e" "addr g \<le> addr (End ?front)"
      using block "1.prems"(3) by (auto simp: g_def addr_less_iff addr_min ahead_def)
    then obtain r where r: "Between c g = Some r" "Start r = c" "End r = g" "wf_range r"
      by (blast elim: Between_Some)
    have tl: "ordered_blocks (tl bs)" "ranges_made (tl bs)"
      using "1.prems" ordered_blocks_drop [of bs 1] ranges_made_drop [of bs 1] by (simp_all add: drop_Suc)
    obtain sl where sl: "walk_slices (tl bs) e g = Some sl" "\<forall>s \<in> set sl. wf_range (slice_range s)"
        "flat_slices sl = map (\<lambda>a. (block_in (tl bs) a, a)) [addr g..<addr e]"
      using "1.IH"(2) [OF _ _ g_def r(1)] block tl ahead_tl [OF "1.prems"(1,2) block(2) c(3)] by auto
    have "block_in bs a = Some (hd bs)" if "a \<in> set [addr c..<addr g]" for a
      using that c block "1.prems" by (intro block_in_eq) (auto simp: holds_def addr_less_iff)
    moreover have "block_in bs a = block_in (tl bs) a" if "a \<in> set [addr g..<addr e]" for a
      using that block(2) by (intro block_in_tl) (auto simp: g_def addr_min min_def split: if_splits)
    ultimately have "flat_slices (\<lparr>slice_block = Some (hd bs), slice_range = r\<rparr> # sl)
        = map (\<lambda>a. (block_in bs a, a)) [addr c..<addr e]"
      using c r sl(3) upt_split [of "addr c" "addr g" "addr e"] by (simp add: addrs_of_def)
    moreover have "walk_slices bs e c = Some (\<lparr>slice_block = Some (hd bs), slice_range = r\<rparr> # sl)"
      using block r sl(1) by (subst walk_slices.simps) (simp add: g_def [symmetric])
    ultimately show ?thesis using sl(2) r(4) by auto
  qed
qed

lemma Slices_flat:
  assumes "wf_map m"
  shows "\<exists>sl. Slices m r = Some sl \<and> (\<forall>s \<in> set sl. wf_range (slice_range s)) \<and>
    flat_slices sl = map (\<lambda>a. (block_in (blocks_of m) a, a)) (addrs_of r)"
proof -
  let ?bs = "blocks_of m" and ?P = "\<lambda>b. \<not> Start r < End (block_range b)"
  let ?rest = "dropWhile ?P ?bs"
  have ok: "ordered_blocks ?rest" "ranges_made ?rest"
    using assms by (simp_all add: wf_map_def ordered_blocks_drop ranges_made_drop dropWhile_eq_drop)
  have "ahead ?rest (addr (Start r))"
    using hd_dropWhile [of ?P ?bs] by (auto simp: ahead_def addr_less_iff)
  moreover have "block_in ?rest a = block_in ?bs a" if "a \<in> set (addrs_of r)" for a
    using that by (intro block_in_dropWhile)
      (auto dest!: set_takeWhileD simp: holds_def addrs_of_def addr_less_iff)
  ultimately show ?thesis
    using walk_slices_flat [OF ok, of "Start r" "End r"]
    by (auto simp: Slices_def drop_upper_bound addrs_of_def)
qed

section \<open>File positions\<close>

text \<open>The ROM file byte an address stands for, if a file-backed block holds it.\<close>

definition file_pos :: "MemoryMap \<Rightarrow> nat \<Rightarrow> nat option" where
  "file_pos m a =
     (case block_in (blocks_of m) a of
        None \<Rightarrow> None
      | Some b \<Rightarrow>
          (case block_backing b of
             FillBacking _ \<Rightarrow> None
           | FileBacking off \<Rightarrow> Some (addr off + (a - addr (Start (block_range b))))))"

lemma shared_file_byte:
  "distinct (concat (map file_bytes bs)) \<Longrightarrow> b \<in> set bs \<Longrightarrow> c \<in> set bs \<Longrightarrow>
   i \<in> set (file_bytes b) \<Longrightarrow> i \<in> set (file_bytes c) \<Longrightarrow> b = c"
  by (induction bs) auto

lemma file_pos_SomeE:
  assumes "wf_map m" and "file_pos m a = Some i"
  obtains b off where "block_in (blocks_of m) a = Some b" and "b \<in> set (blocks_of m)" and "holds b a"
    and "block_backing b = FileBacking off" and "i = addr off + (a - addr (Start (block_range b)))"
    and "i \<in> set (file_bytes b)"
proof -
  obtain b off where b: "block_in (blocks_of m) a = Some b" "block_backing b = FileBacking off"
      "i = addr off + (a - addr (Start (block_range b)))"
    using assms(2) by (auto simp: file_pos_def split: option.splits backing.splits)
  then have mem: "b \<in> set (blocks_of m)" "holds b a" using block_in_SomeD by auto
  moreover have "wf_range (block_range b)" using assms(1) mem by (auto simp: wf_map_def ranges_made_def)
  ultimately have "i \<in> set (file_bytes b)"
    using b by (auto simp: file_bytes_def holds_def wf_range_def)
  with b mem show ?thesis by (intro that)
qed

lemma file_pos_bound:
  assumes "wf_map m" and "file_pos m a = Some i"
  shows "i < count_of (file_size_of m)"
proof -
  obtain b where "b \<in> set (blocks_of m)" "i \<in> set (file_bytes b)"
    using file_pos_SomeE [OF assms] by blast
  then have "i \<in> set (concat (map file_bytes (blocks_of m)))" by auto
  then show ?thesis using assms(1) by (simp only: wf_map_def places_file_def) simp
qed

lemma file_pos_inj:
  assumes "wf_map m" and "file_pos m a = Some i" and "file_pos m a' = Some i"
  shows "a = a'"
proof -
  obtain b off where b: "b \<in> set (blocks_of m)" "holds b a" "block_backing b = FileBacking off"
      "i = addr off + (a - addr (Start (block_range b)))" "i \<in> set (file_bytes b)"
    using file_pos_SomeE [OF assms(1,2)] by blast
  obtain c off' where c: "c \<in> set (blocks_of m)" "holds c a'" "block_backing c = FileBacking off'"
      "i = addr off' + (a' - addr (Start (block_range c)))" "i \<in> set (file_bytes c)"
    using file_pos_SomeE [OF assms(1,3)] by blast
  have "b = c"
    using assms(1) b(1,5) c(1,5) shared_file_byte by (auto simp: wf_map_def places_file_def)
  with b c show ?thesis by (auto simp: holds_def)
qed

lemma file_pos_surj:
  assumes "wf_map m" and "i < count_of (file_size_of m)"
  shows "\<exists>a. file_pos m a = Some i"
proof -
  have "i \<in> set (concat (map file_bytes (blocks_of m)))"
    using assms by (simp only: wf_map_def places_file_def lessThan_iff)
  then obtain b where b: "b \<in> set (blocks_of m)" "i \<in> set (file_bytes b)" by auto
  then obtain off where off: "block_backing b = FileBacking off"
    by (cases "block_backing b") (auto simp: file_bytes_def)
  let ?a = "addr (Start (block_range b)) + (i - addr off)"
  have "holds b ?a" "addr off \<le> i"
    using b off assms(1) by (auto simp: file_bytes_def holds_def wf_map_def ranges_made_def wf_range_def)
  then have "block_in (blocks_of m) ?a = Some b"
    using assms(1) b(1) by (auto intro: block_in_eq simp: wf_map_def)
  with off \<open>addr off \<le> i\<close> show ?thesis by (intro exI [of _ ?a]) (simp add: file_pos_def)
qed

subsection \<open>The slices of a well-formed map\<close>

definition slice_of :: "MemoryMap \<Rightarrow> BlockSlice \<Rightarrow> bool" where
  "slice_of m s \<longleftrightarrow> wf_range (slice_range s) \<and>
     (\<forall>a \<in> set (addrs_of (slice_range s)). block_in (blocks_of m) a = slice_block s)"

lemma slices_of_flat:
  assumes "flat_slices sl = map (\<lambda>a. (block_in bs a, a)) xs" and "s \<in> set sl"
    and "a \<in> set (addrs_of (slice_range s))"
  shows "block_in bs a = slice_block s"
proof -
  have "(slice_block s, a) \<in> set (flat_slices sl)"
    using assms(2,3) by (auto simp: flat_slices_def)
  then show ?thesis unfolding assms(1) by auto
qed

lemma Slices_slice_of:
  assumes "wf_map m" and "Slices m r = Some sl" and "s \<in> set sl"
  shows "slice_of m s"
proof -
  have "\<forall>s \<in> set sl. wf_range (slice_range s)"
    and flat: "flat_slices sl = map (\<lambda>a. (block_in (blocks_of m) a, a)) (addrs_of r)"
    using Slices_flat [OF assms(1), of r] assms(2) by auto
  then show ?thesis
    using assms(3) slices_of_flat [OF flat assms(3)] by (simp add: slice_of_def)
qed

lemma slice_in_block:
  assumes "wf_map m" and "slice_of m s" and "slice_block s = Some b"
  shows "b \<in> set (blocks_of m)"
    and "addr (Start (block_range b)) \<le> addr (Start (slice_range s))"
    and "addr (End (slice_range s)) \<le> addr (End (block_range b))"
proof -
  have "addr (Start (slice_range s)) < addr (End (slice_range s))"
    using assms(2) wf_rangeD(1) by (auto simp: slice_of_def)
  then have ends: "addr (Start (slice_range s)) \<in> set (addrs_of (slice_range s))"
    "addr (End (slice_range s)) - 1 \<in> set (addrs_of (slice_range s))"
    by (auto simp: addrs_of_def)
  then have "block_in (blocks_of m) (addr (Start (slice_range s))) = Some b"
    "block_in (blocks_of m) (addr (End (slice_range s)) - 1) = Some b"
    using assms(2,3) by (auto simp: slice_of_def)
  then show "b \<in> set (blocks_of m)"
    and "addr (Start (block_range b)) \<le> addr (Start (slice_range s))"
    and "addr (End (slice_range s)) \<le> addr (End (block_range b))"
    by (auto dest!: block_in_SomeD simp: holds_def)
qed

lemma slice_file_pos:
  assumes "slice_of m s" and "slice_block s = Some b" and "a \<in> set (addrs_of (slice_range s))"
  shows "file_pos m a = (case block_backing b of FillBacking _ \<Rightarrow> None
    | FileBacking off \<Rightarrow> Some (addr off + (a - addr (Start (block_range b)))))"
  using assms by (simp add: file_pos_def slice_of_def)

text \<open>\<open>FileStart\<close> of a slice is the file position of its first address, and the slice's
  addresses run through consecutive file positions from there.\<close>

lemma FileStart_correct:
  assumes "wf_map m" and "slice_of m s"
  shows "\<exists>fo. FileStart s = Some fo \<and>
    map_option addr fo = file_pos m (addr (Start (slice_range s)))"
proof (cases "slice_block s")
  case None
  have "addr (Start (slice_range s)) \<in> set (addrs_of (slice_range s))"
    using assms(2) wf_rangeD(1) by (fastforce simp: slice_of_def addrs_of_def)
  with None assms(2) have "file_pos m (addr (Start (slice_range s))) = None"
    by (simp add: file_pos_def slice_of_def)
  with None show ?thesis by (simp add: FileStart_def)
next
  case (Some b)
  have first: "addr (Start (slice_range s)) \<in> set (addrs_of (slice_range s))"
    using assms(2) wf_rangeD(1) by (fastforce simp: slice_of_def addrs_of_def)
  note pos = slice_file_pos [OF assms(2) Some first]
  note inside = slice_in_block [OF assms Some]
  show ?thesis
  proof (cases "block_backing b")
    case (FillBacking v)
    with Some pos show ?thesis by (simp add: FileStart_def)
  next
    case (FileBacking off)
    obtain n where n: "DistanceFrom (Start (slice_range s)) (Start (block_range b)) = Some n"
      using inside(2) DistanceFrom_None_iff not_less by (metis option.exhaust)
    then have "addr (Start (slice_range s)) = addr (Start (block_range b)) + count_of n"
      by (simp add: DistanceFrom_iff)
    with pos FileBacking have at: "file_pos m (addr (Start (slice_range s))) = Some (addr off + count_of n)"
      by simp
    then have "addr off + count_of n < 2 ^ 32"
      using file_pos_bound [OF assms(1) at] by (simp add: count_of_def)
        (use uint32_lt less_trans in blast)
    then obtain q where "Advance off n = Some q"
      using Advance_None_iff [of off n] by (cases "Advance off n") auto
    with Some FileBacking n at show ?thesis by (auto simp: FileStart_def Advance_iff)
  qed
qed

subsection \<open>Span, Identity and FileOffsetOf\<close>

lemma Span_covers:
  assumes "wf_map m"
  shows "\<exists>r. Span m = Some r \<and> wf_range r \<and>
    (\<forall>b \<in> set (blocks_of m). ContainsRange r (block_range b))"
proof -
  obtain front rest where bs: "blocks_of m = front # rest"
    using assms by (cases "blocks_of m") (auto simp: wf_map_def)
  let ?last = "last (front # rest)"
  have made: "wf_range (block_range b)" if "b \<in> set (front # rest)" for b
    using assms that bs by (auto simp: wf_map_def ranges_made_def)
  have ord: "ordered_blocks (front # rest)" using assms bs by (simp add: wf_map_def)
  have low: "addr (Start (block_range front)) \<le> addr (Start (block_range b))" if "b \<in> set (front # rest)" for b
    using that ord wf_rangeD(1) [OF made [of front]] by fastforce
  have "\<forall>b \<in> set bs. addr (End (block_range b)) \<le> addr (End (block_range (last bs)))"
    if "ordered_blocks bs" "\<forall>b \<in> set bs. wf_range (block_range b)" for bs
    using that
  proof (induction bs)
    case (Cons c cs)
    have "addr (Start (block_range (last cs))) < addr (End (block_range (last cs)))" if "cs \<noteq> []"
      using Cons.prems that by (intro wf_rangeD(1)) simp
    moreover have "addr (End (block_range c)) \<le> addr (Start (block_range (last cs)))" if "cs \<noteq> []"
      using Cons.prems(1) that by simp
    ultimately have "addr (End (block_range c)) \<le> addr (End (block_range (last cs)))" if "cs \<noteq> []"
      using that less_imp_le order_trans by blast
    with Cons show ?case by (cases "cs = []") auto
  qed simp
  then have high: "\<forall>b \<in> set (front # rest). addr (End (block_range b)) \<le> addr (End (block_range ?last))"
    using ord made by blast
  have "addr (Start (block_range front)) < addr (End (block_range ?last))"
    using low [OF last_in_set] wf_rangeD(1) [OF made [OF last_in_set]] by (blast intro: order_le_less_trans)
  then obtain r where "Between (Start (block_range front)) (End (block_range ?last)) = Some r"
      "Start r = Start (block_range front)" "End r = End (block_range ?last)" "wf_range r"
    by (blast elim: Between_Some)
  then show ?thesis
    using low high bs by (auto simp: Span_def Between_def ContainsRange_def addr_le_iff split: option.splits)
qed

lemma Identity_correct:
  assumes "0 < count_of n"
  shows "\<exists>m. Identity n = Inr m \<and> wf_map m \<and> file_size_of m = n \<and>
    (\<forall>a. file_pos m a = (if a < count_of n then Some a else None)) \<and>
    (\<forall>a < count_of n. \<exists>b. block_in (blocks_of m) a = Some b \<and> block_writability b = kWritable)"
proof -
  have n: "count_of n < 2 ^ 32" "addr (TaggedPosition 0 :: 'a tagged_position) = 0"
    by (simp_all add: count_of_def addr_def)
  then obtain r where r: "MakeRange (TaggedPosition 0 :: flash_address) n = Some r"
    using assms MakeRange_Some_iff [of "TaggedPosition 0 :: flash_address" n]
    by (auto simp: addr_def)
  note wf = MakeRange_wf [OF r]
  let ?b = "\<lparr>block_range = r, block_backing = FileBacking (TaggedPosition 0), block_writability = kWritable\<rparr>"
  let ?m = "\<lparr>blocks_of = [?b], file_size_of = n, definition_base_of = TaggedPosition 0\<rparr>"
  have ends: "addr (Start r) = 0" "addr (End r) = count_of n"
    using wf by (auto simp: wf_range_def addr_def)
  have "wf_map ?m"
    using wf assms by (auto simp: wf_map_def ranges_made_def ordered_blocks_def writable_fill_def
        places_file_def file_bytes_def addr_def count_of_def)
  then have "Identity n = Inr ?m"
    using r wf MemoryMap_Create_Inr_iff [of "[?b]"] by (simp add: Identity_def ranges_made_def)
  then show ?thesis
    using \<open>wf_map ?m\<close> ends
    by (auto simp: file_pos_def block_in_def holds_def addr_def)
qed

text \<open>The file offset of a range: defined exactly when one file-backed block holds all of it.\<close>

lemma one_block_one_slice:
  assumes "wf_map m" and "wf_range r"
    and all: "\<forall>a \<in> set (addrs_of r). block_in (blocks_of m) a = Some b"
  shows "\<exists>s. Slices m r = Some [s]"
proof -
  let ?bs = "blocks_of m" and ?P = "\<lambda>b. \<not> Start r < End (block_range b)"
  let ?rest = "dropWhile ?P ?bs"
  have len: "addr (Start r) < addr (End r)" using wf_rangeD(1) [OF assms(2)] .
  have inb: "holds b a" if "a \<in> set (addrs_of r)" for a using all that block_in_SomeD by blast
  have "b \<notin> set (takeWhile ?P ?bs)"
    using inb [of "addr (Start r)"] len by (auto dest!: set_takeWhileD simp: holds_def addrs_of_def addr_less_iff)
  moreover have "b \<in> set ?bs" using all len block_in_SomeD by (fastforce simp: addrs_of_def)
  ultimately have mem: "b \<in> set ?rest" by (metis Un_iff set_append takeWhile_dropWhile_id)
  then obtain h t where ht: "?rest = h # t" by (cases ?rest) auto
  have ok: "ordered_blocks (h # t)" "ranges_made (h # t)"
    using assms by (simp_all add: wf_map_def ordered_blocks_drop ranges_made_drop dropWhile_eq_drop flip: ht)
  have "addr (Start r) < addr (End (block_range h))"
    using hd_dropWhile [of ?P ?bs] ht by (simp del: dropWhile_eq_Nil_conv) (simp add: addr_less_iff)
  then have "b = h"
    using mem ok inb [of "addr (Start r)"] len by (auto simp: ht holds_def addrs_of_def)
  then have ends: "addr (Start (block_range h)) \<le> addr (Start r)" "addr (End r) \<le> addr (End (block_range h))"
    using inb [of "addr (Start r)"] inb [of "addr (End r) - 1"] len
    by (simp_all add: holds_def addrs_of_def) linarith
  then have "min (End (block_range h)) (End r) = End r" by (simp add: addr_eq_iff addr_min)
  moreover obtain q where "Between (Start r) (End r) = Some q" using len by (blast elim: Between_Some)
  moreover have "walk_slices t (End r) (End r) = Some []" by (subst walk_slices.simps) simp
  ultimately have "\<exists>s. walk_slices (h # t) (End r) (Start r) = Some [s]"
    using len ends by (subst walk_slices.simps) (simp add: addr_less_iff)
  then show ?thesis by (simp add: Slices_def drop_upper_bound ht)
qed

lemma FileOffsetOf_correct:
  assumes "wf_map m" and "wf_range r"
  shows "\<exists>fo. FileOffsetOf m r = Some fo \<and>
    (\<forall>off. fo = Some off \<longleftrightarrow>
      (\<exists>b. \<forall>a \<in> set (addrs_of r). block_in (blocks_of m) a = Some b) \<and>
      file_pos m (addr (Start r)) = Some (addr off))"
proof -
  obtain sl where sl: "Slices m r = Some sl" "\<forall>s \<in> set sl. wf_range (slice_range s)"
      and flat: "flat_slices sl = map (\<lambda>a. (block_in (blocks_of m) a, a)) (addrs_of r)"
    using Slices_flat [OF assms(1)] by blast
  have first: "addr (Start r) \<in> set (addrs_of r)" using wf_rangeD(1) [OF assms(2)] by (simp add: addrs_of_def)
  show ?thesis
  proof (cases "\<exists>s. sl = [s]")
    case True
    then obtain s where s: "sl = [s]" by blast
    have "addrs_of (slice_range s) = addrs_of r"
      using arg_cong [OF flat, of "map snd"] s by (simp add: comp_def)
    moreover have "slice_of m s" using Slices_slice_of assms(1) sl(1) s by auto
    moreover from this have "wf_range (slice_range s)" by (simp add: slice_of_def)
    ultimately have eq: "hd (addrs_of (slice_range s)) = hd (addrs_of r)" "wf_range (slice_range s)"
        "\<forall>a \<in> set (addrs_of r). block_in (blocks_of m) a = slice_block s"
      by (auto simp: slice_of_def)
    from eq(1) have start: "Start (slice_range s) = Start r"
      using wf_rangeD(1) [OF eq(2)] wf_rangeD(1) [OF assms(2)]
      by (simp add: addrs_of_def addr_eq_iff)
    obtain fo where fo: "FileStart s = Some fo" "map_option addr fo = file_pos m (addr (Start r))"
      using FileStart_correct [OF assms(1) \<open>slice_of m s\<close>] start by auto
    have "\<exists>b. slice_block s = Some b" if "file_pos m (addr (Start r)) = Some i" for i
      using that eq(3) first by (cases "slice_block s") (auto simp: file_pos_def)
    moreover have "FileOffsetOf m r = Some fo" using s sl(1) fo(1) by (simp add: FileOffsetOf_def)
    moreover have "fo = Some off \<longleftrightarrow> file_pos m (addr (Start r)) = Some (addr off)" for off
      using fo(2) by (cases fo) (auto simp: addr_eq_iff dest: sym)
    ultimately show ?thesis using eq(3) by auto
  next
    case False
    have "\<not> (\<forall>a \<in> set (addrs_of r). block_in (blocks_of m) a = Some b)" for b
      using one_block_one_slice [OF assms] False sl(1) by auto
    moreover have "FileOffsetOf m r = Some None"
      using False sl(1) by (auto simp: FileOffsetOf_def split: list.splits)
    ultimately show ?thesis by auto
  qed
qed

section \<open>Properties\<close>

text \<open>C3: \<^verbatim>\<open>MemoryMap::Create\<close> accepts exactly the layouts its header describes: at least one
  block, a non-empty file, no writable fill block, blocks in address order and disjoint, and every
  ROM file byte placed exactly once. The map it returns is the one asked for; every refusal is
  \<open>kInvalidLayout\<close>.\<close>

theorem memory_map_create_accepts:
  assumes "ranges_made bs"
  shows "case MemoryMap_Create bs n base of
      Inr m \<Rightarrow> m = \<lparr>blocks_of = bs, file_size_of = n, definition_base_of = base\<rparr> \<and> wf_map m
    | Inl e \<Rightarrow> error_kind e = kInvalidLayout \<and>
        \<not> wf_map \<lparr>blocks_of = bs, file_size_of = n, definition_base_of = base\<rparr>"
  using MemoryMap_Create_Inr_iff [OF assms, of n base] MemoryMap_Create_error [of bs n base]
  by (cases "MemoryMap_Create bs n base") auto

definition sample_range :: "u32 \<Rightarrow> u32 \<Rightarrow> flash_space address_range" where
  "sample_range s n = the (MakeRange (TaggedPosition s) (ByteCount n))"

definition sample_block :: "u32 \<Rightarrow> u32 \<Rightarrow> backing \<Rightarrow> Writability \<Rightarrow> MemoryBlock" where
  "sample_block s n b w = \<lparr>block_range = sample_range s n, block_backing = b, block_writability = w\<rparr>"

text \<open>A boot block, a gap, a fill block and a writable block, as the witnesses use them.\<close>

definition sample_blocks :: "MemoryBlock list" where
  "sample_blocks =
     [sample_block 0 4 (FileBacking (TaggedPosition 0)) kReadOnly,
      sample_block 6 2 (FillBacking 0xFF) kReadOnly,
      sample_block 8 4 (FileBacking (TaggedPosition 4)) kWritable]"

definition sample_map :: MemoryMap where
  "sample_map = \<lparr>blocks_of = sample_blocks, file_size_of = ByteCount 8, definition_base_of = TaggedPosition 0\<rparr>"

lemma sample_blocks_eval:
  "sample_blocks =
     [\<lparr>block_range = \<lparr>Start = TaggedPosition 0, Size = ByteCount 4, End = TaggedPosition 4\<rparr>,
       block_backing = FileBacking (TaggedPosition 0), block_writability = kReadOnly\<rparr>,
      \<lparr>block_range = \<lparr>Start = TaggedPosition 6, Size = ByteCount 2, End = TaggedPosition 8\<rparr>,
       block_backing = FillBacking 0xFF, block_writability = kReadOnly\<rparr>,
      \<lparr>block_range = \<lparr>Start = TaggedPosition 8, Size = ByteCount 4, End = TaggedPosition 12\<rparr>,
       block_backing = FileBacking (TaggedPosition 4), block_writability = kWritable\<rparr>]"
  by (simp add: sample_blocks_def sample_block_def sample_range_def MakeRange_def Advance_def)

lemma sample_ranges_made: "ranges_made sample_blocks"
  by (simp add: sample_blocks_eval ranges_made_def wf_range_def addr_def count_of_def)

lemma sample_map_created: "MemoryMap_Create sample_blocks (ByteCount 8) (TaggedPosition 0) = Inr sample_map"
  by (simp add: MemoryMap_Create_def sample_map_def sample_blocks_eval writable_fill_def CheckFilePlacement_def
      less_tagged_position_def Advance_def less_eq_tagged_position_def less_eq_prod_def)

lemma sample_map_wf: "wf_map sample_map"
  using MemoryMap_Create_Inr_iff [OF sample_ranges_made] sample_map_created by blast

theorem memory_map_create_accepts_witness:
  "ranges_made sample_blocks \<and>
   MemoryMap_Create sample_blocks (ByteCount 8) (TaggedPosition 0) = Inr sample_map \<and> wf_map sample_map"
  using memory_map_create_accepts [OF sample_ranges_made, of "ByteCount 8" "TaggedPosition 0"]
    sample_ranges_made sample_map_created by simp

text \<open>C7: \<^verbatim>\<open>MemoryMap::Slices\<close> returns on every range of an accepted map, and its slices read left
  to right are the range's addresses in order, each tagged with the block that holds it (or with
  none in a gap); no slice is empty. \<^verbatim>\<open>MemoryMap::Span\<close> covers every block.\<close>

theorem slices_tile_the_range:
  assumes "wf_map m"
  shows "\<exists>sl s. Slices m r = Some sl \<and> Span m = Some s \<and>
    flat_slices sl = map (\<lambda>a. (block_in (blocks_of m) a, a)) (addrs_of r) \<and>
    list_all (\<lambda>q. wf_range (slice_range q)) sl \<and>
    list_all (\<lambda>b. ContainsRange s (block_range b)) (blocks_of m)"
  using Slices_flat [OF assms, of r] Span_covers [OF assms] by (auto simp: list_all_iff)

text \<open>A range over the end of the boot block, the gap and the fill block.\<close>

theorem slices_tile_the_range_witness:
  "wf_map sample_map \<and>
   (\<exists>sl s. Slices sample_map (sample_range 3 4) = Some sl \<and> Span sample_map = Some s \<and>
      flat_slices sl = [(Some (sample_blocks ! 0), 3), (None, 4), (None, 5), (Some (sample_blocks ! 1), 6)] \<and>
      list_all (\<lambda>q. wf_range (slice_range q)) sl \<and>
      list_all (\<lambda>b. ContainsRange s (block_range b)) (blocks_of sample_map))"
proof -
  have "map (\<lambda>a. (block_in (blocks_of sample_map) a, a)) (addrs_of (sample_range 3 4)) =
      [(Some (sample_blocks ! 0), 3), (None, 4), (None, 5), (Some (sample_blocks ! 1), 6)]"
    by (simp add: sample_map_def sample_blocks_eval sample_range_def MakeRange_def Advance_def addrs_of_def
        block_in_def holds_def addr_def upt_rec)
  then show ?thesis using slices_tile_the_range [OF sample_map_wf, of "sample_range 3 4"] sample_map_wf by simp
qed

text \<open>C16: on an accepted map the binary search of \<^verbatim>\<open>MemoryMap::BlockAt\<close> returns the one block that
  holds the address, and \<^verbatim>\<open>FileOffsetOf\<close> is defined exactly when a single file-backed block holds
  the whole range; its value is then the file position of the range's first byte. Every file byte
  has exactly one address.\<close>

theorem lookups_agree_with_the_layout:
  assumes "wf_map m" and "wf_range r"
  shows "BlockAt m a = block_in (blocks_of m) (addr a) \<and>
    (\<exists>fo. FileOffsetOf m r = Some fo \<and>
      (\<forall>off. fo = Some off \<longleftrightarrow>
        (\<exists>b. list_all (\<lambda>a. block_in (blocks_of m) a = Some b) (addrs_of r)) \<and>
        file_pos m (addr (Start r)) = Some (addr off))) \<and>
    (\<exists>!a. file_pos m a = Some i) = (i < count_of (file_size_of m))"
  using BlockAt_correct [OF assms(1), of a] FileOffsetOf_correct [OF assms] file_pos_bound [OF assms(1), of _ i]
    file_pos_inj [OF assms(1), of _ i] file_pos_surj [OF assms(1), of i]
  unfolding list_all_iff by blast

theorem lookups_agree_with_the_layout_witness:
  "wf_map sample_map \<and> wf_range (sample_range 9 2) \<and>
   BlockAt sample_map (TaggedPosition 9) = Some (sample_blocks ! 2) \<and>
   (\<exists>fo. FileOffsetOf sample_map (sample_range 9 2) = Some fo \<and>
      (\<forall>off. fo = Some off \<longleftrightarrow>
        (\<exists>b. list_all (\<lambda>a. block_in (blocks_of sample_map) a = Some b) (addrs_of (sample_range 9 2))) \<and>
        file_pos sample_map (addr (Start (sample_range 9 2))) = Some (addr off)))"
proof -
  have r: "wf_range (sample_range 9 2)"
    by (simp add: sample_range_def MakeRange_def Advance_def wf_range_def addr_def count_of_def)
  have "block_in (blocks_of sample_map) (addr (TaggedPosition 9 :: flash_address)) = Some (sample_blocks ! 2)"
    by (simp add: sample_map_def sample_blocks_eval block_in_def holds_def addr_def)
  then show ?thesis
    using lookups_agree_with_the_layout [OF sample_map_wf r, of "TaggedPosition 9" 0] r sample_map_wf by simp
qed

end
