(* ===== verification/Memory_Image.thy ===== *)
theory Memory_Image
  imports Memory_Map
begin

text \<open>
  \<^verbatim>\<open>algorithms/memory/memory_image.h/.cpp\<close>: a ROM file's bytes read and written by ECU
  address through a memory map. The outer \<^typ>\<open>'a option\<close> of \<open>Render\<close> and \<open>Write\<close> is
  \<^const>\<open>None\<close> where the C++ would be undefined (an empty optional dereferenced, an
  iterator past a buffer); the refinement lemmas show it is always \<^const>\<open>Some\<close> on an image
  that \<open>MemoryImage_Create\<close> made. The abstraction of an image is \<open>abs_read\<close>, a partial
  function from addresses to bytes; the locale \<open>byte_store\<close> states what a client of such
  a store relies on, and its lemmas are used through the interpretation \<open>image\<close>.
\<close>

section \<open>The operations\<close>

record MemoryView =
  view_range :: "flash_space address_range"
  view_data :: bytes

record MemoryImage =
  image_map :: MemoryMap
  image_file :: bytes

definition Fail :: "MemoryErrorKind \<Rightarrow> string \<Rightarrow> MemoryError + 'a" where
  "Fail kind detail = Inl \<lparr>error_kind = kind, error_detail = detail\<rparr>"

definition HeldByABlock :: "BlockSlice \<Rightarrow> MemoryError + unit" where
  "HeldByABlock sl =
     (case slice_block sl of
        None \<Rightarrow> Fail kUnmapped (''no memory block holds address 0x'' @
                  fmt_x (addr (Start (slice_range sl))))
      | Some _ \<Rightarrow> Inr ())"

definition WritableFileBlock :: "BlockSlice \<Rightarrow> MemoryError + unit" where
  "WritableFileBlock sl =
     result_bind (HeldByABlock sl) (\<lambda>_.
       case slice_block sl of
         None \<Rightarrow> Inr ()
       | Some b \<Rightarrow>
           (case block_backing b of
              FillBacking _ \<Rightarrow> Fail kFillBlock (''address 0x'' @
                fmt_x (addr (Start (slice_range sl))) @ '' is in a fill block'')
            | FileBacking _ \<Rightarrow>
                if block_writability b \<noteq> kWritable then
                  Fail kNotWritable (''address 0x'' @ fmt_x (addr (Start (slice_range sl))) @
                    '' is in a block that is not writable'')
                else Inr ()))"

fun check_all :: "(BlockSlice \<Rightarrow> MemoryError + unit) \<Rightarrow> BlockSlice list \<Rightarrow> MemoryError + unit" where
  "check_all check [] = Inr ()"
| "check_all check (s # rest) = result_bind (check s) (\<lambda>_. check_all check rest)"

definition CheckedSlices ::
  "MemoryMap \<Rightarrow> flash_space address_range \<Rightarrow> (BlockSlice \<Rightarrow> MemoryError + unit) \<Rightarrow>
   (MemoryError + BlockSlice list) option" where
  "CheckedSlices m rng check =
     map_option (\<lambda>slices. result_bind (check_all check slices) (\<lambda>_. Inr slices)) (Slices m rng)"

text \<open>The subtraction is of 32-bit values before the widening cast.\<close>

definition OffsetIn :: "flash_space address_range \<Rightarrow> BlockSlice \<Rightarrow> nat" where
  "OffsetIn rng sl = unat (Value (Start (slice_range sl)) - Value (Start rng))"

definition MemoryImage_Create :: "MemoryMap \<Rightarrow> bytes \<Rightarrow> MemoryError + MemoryImage" where
  "MemoryImage_Create m file =
     (if length file \<noteq> count_of (file_size_of m) then
        Fail kFileSizeMismatch (''the ROM file is '' @ fmt_d (length file) @
          '' bytes; its memory map places '' @ fmt_d (count_of (file_size_of m)))
      else Inr \<lparr>image_map = m, image_file = file\<rparr>)"

text \<open>\<^verbatim>\<open>std::ranges::copy_n\<close>/\<^verbatim>\<open>fill_n\<close> into a buffer: \<^const>\<open>None\<close> past either end.\<close>

definition copy_into :: "'a list \<Rightarrow> nat \<Rightarrow> 'a list \<Rightarrow> 'a list option" where
  "copy_into out off src =
     (if off + length src \<le> length out then Some (overwrite out off src) else None)"

definition span_at :: "'a list \<Rightarrow> nat \<Rightarrow> nat \<Rightarrow> 'a list option" where
  "span_at xs off n = (if off + n \<le> length xs then Some (subspan xs off n) else None)"

fun render_slices ::
  "flash_space address_range \<Rightarrow> bytes \<Rightarrow> BlockSlice list \<Rightarrow> bytes \<Rightarrow> bytes option" where
  "render_slices rng file [] data = Some data"
| "render_slices rng file (s # rest) data =
     (let n = count_of (Size (slice_range s)) in
      Option.bind
        (case FileStart s of
           None \<Rightarrow> None
         | Some (Some file_start) \<Rightarrow> span_at file (addr file_start) n
         | Some None \<Rightarrow>
             (case map_option block_backing (slice_block s) of
                Some (FillBacking v) \<Rightarrow> Some (replicate n v)
              | _ \<Rightarrow> None))
        (\<lambda>src. Option.bind (copy_into data (OffsetIn rng s) src) (render_slices rng file rest)))"

definition Render ::
  "MemoryImage \<Rightarrow> flash_space address_range \<Rightarrow> (MemoryError + MemoryView) option" where
  "Render img rng =
     (case CheckedSlices (image_map img) rng HeldByABlock of
        None \<Rightarrow> None
      | Some (Inl e) \<Rightarrow> Some (Inl e)
      | Some (Inr slices) \<Rightarrow>
          map_option (\<lambda>data. Inr \<lparr>view_range = rng, view_data = data\<rparr>)
            (render_slices rng (image_file img) slices (replicate (count_of (Size rng)) 0)))"

definition CheckWrite ::
  "MemoryImage \<Rightarrow> flash_address \<Rightarrow> byte_count \<Rightarrow> (MemoryError + unit) option" where
  "CheckWrite img start n =
     (if ByteCountValue n = 0 then Some (Inr ())
      else case MakeRange start n of
        None \<Rightarrow> Some (Fail kUnmapped (''a '' @ fmt_d (count_of n) @ ''-byte write at 0x'' @
                  fmt_x (addr start) @ '' runs past the address space''))
      | Some rng \<Rightarrow>
          map_option (\<lambda>slices. result_bind slices (\<lambda>_. Inr ()))
            (CheckedSlices (image_map img) rng WritableFileBlock))"

fun write_slices ::
  "flash_space address_range \<Rightarrow> bytes \<Rightarrow> BlockSlice list \<Rightarrow> bytes \<Rightarrow> bytes option" where
  "write_slices rng data [] file = Some file"
| "write_slices rng data (s # rest) file =
     (case FileStart s of
        Some (Some file_start) \<Rightarrow>
          Option.bind (span_at data (OffsetIn rng s) (count_of (Size (slice_range s))))
            (\<lambda>src. Option.bind (copy_into file (addr file_start) src) (write_slices rng data rest))
      | _ \<Rightarrow> None)"

definition Write ::
  "MemoryImage \<Rightarrow> flash_address \<Rightarrow> bytes \<Rightarrow> ((MemoryError + unit) \<times> MemoryImage) option" where
  "Write img start data =
     (if data = [] then Some (Inr (), img)
      else case Option.bind (FromSize (length data)) (MakeRange start) of
        None \<Rightarrow> Some (Fail kUnmapped (''a '' @ fmt_d (length data) @ ''-byte write at 0x'' @
                  fmt_x (addr start) @ '' runs past the address space''), img)
      | Some rng \<Rightarrow>
          (case CheckedSlices (image_map img) rng WritableFileBlock of
             None \<Rightarrow> None
           | Some (Inl e) \<Rightarrow> Some (Inl e, img)
           | Some (Inr slices) \<Rightarrow>
               map_option (\<lambda>file. (Inr (), img\<lparr>image_file := file\<rparr>))
                 (write_slices rng data slices (image_file img))))"

section \<open>The abstract store\<close>

definition wf_image :: "MemoryImage \<Rightarrow> bool" where
  "wf_image img \<longleftrightarrow> wf_map (image_map img) \<and>
     length (image_file img) = count_of (file_size_of (image_map img))"

definition abs_read :: "MemoryImage \<Rightarrow> nat \<Rightarrow> u8 option" where
  "abs_read img a =
     (case block_in (blocks_of (image_map img)) a of
        None \<Rightarrow> None
      | Some b \<Rightarrow>
          (case block_backing b of
             FillBacking v \<Rightarrow> Some v
           | FileBacking _ \<Rightarrow> map_option (nth (image_file img)) (file_pos (image_map img) a)))"

definition can_write :: "MemoryImage \<Rightarrow> nat \<Rightarrow> bool" where
  "can_write img a \<longleftrightarrow>
     (\<exists>b. block_in (blocks_of (image_map img)) a = Some b \<and> block_writability b = kWritable)"

text \<open>The error of one address, as \<open>WritableFileBlock\<close> and \<open>HeldByABlock\<close> give it.\<close>

definition read_error :: "MemoryBlock option \<Rightarrow> MemoryErrorKind option" where
  "read_error b = (if b = None then Some kUnmapped else None)"

definition write_error :: "MemoryBlock option \<Rightarrow> MemoryErrorKind option" where
  "write_error bo =
     (case bo of
        None \<Rightarrow> Some kUnmapped
      | Some b \<Rightarrow>
          (case block_backing b of
             FillBacking _ \<Rightarrow> Some kFillBlock
           | FileBacking _ \<Rightarrow> if block_writability b = kWritable then None else Some kNotWritable))"

definition first_error :: "(MemoryBlock option \<Rightarrow> MemoryErrorKind option) \<Rightarrow> MemoryMap \<Rightarrow> nat list \<Rightarrow>
    (MemoryErrorKind \<times> nat) option" where
  "first_error err m as =
     map_option (\<lambda>a. (the (err (block_in (blocks_of m) a)), a))
       (find (\<lambda>a. err (block_in (blocks_of m) a) \<noteq> None) as)"

text \<open>The error an address gives, with the text that names it.\<close>

definition error_at :: "MemoryErrorKind \<Rightarrow> nat \<Rightarrow> MemoryError" where
  "error_at k a =
     \<lparr>error_kind = k,
      error_detail =
        (case k of
           kFillBlock \<Rightarrow> ''address 0x'' @ fmt_x a @ '' is in a fill block''
         | kNotWritable \<Rightarrow> ''address 0x'' @ fmt_x a @ '' is in a block that is not writable''
         | _ \<Rightarrow> ''no memory block holds address 0x'' @ fmt_x a)\<rparr>"

lemma MemoryImage_Create_wf:
  "wf_map m \<Longrightarrow> MemoryImage_Create m file = Inr img \<Longrightarrow> wf_image img"
  by (auto simp: MemoryImage_Create_def Fail_def wf_image_def split: if_splits)

section \<open>Checking the slices\<close>

definition checks :: "(BlockSlice \<Rightarrow> MemoryError + unit) \<Rightarrow>
    (MemoryBlock option \<Rightarrow> MemoryErrorKind option) \<Rightarrow> bool" where
  "checks check err \<longleftrightarrow>
     (\<forall>s. check s = (case err (slice_block s) of
             None \<Rightarrow> Inr ()
           | Some k \<Rightarrow> Inl (error_at k (addr (Start (slice_range s))))))"

lemma checks_HeldByABlock: "checks HeldByABlock read_error"
  by (auto simp: checks_def HeldByABlock_def read_error_def error_at_def Fail_def split: option.splits)

lemma checks_WritableFileBlock: "checks WritableFileBlock write_error"
  by (auto simp: checks_def WritableFileBlock_def HeldByABlock_def write_error_def error_at_def Fail_def
      split: option.splits backing.splits)

lemma check_all_flat:
  assumes "checks check err"
  shows "\<forall>s \<in> set sl. wf_range (slice_range s) \<Longrightarrow>
    check_all check sl =
      (case find (\<lambda>(b, a). err b \<noteq> None) (flat_slices sl) of
         None \<Rightarrow> Inr ()
       | Some (b, a) \<Rightarrow> Inl (error_at (the (err b)) a))"
proof (induction sl)
  case (Cons s sl)
  have "addr (Start (slice_range s)) < addr (End (slice_range s))"
    using Cons.prems by (intro wf_rangeD(1)) simp
  then have as: "addrs_of (slice_range s) =
      addr (Start (slice_range s)) # [Suc (addr (Start (slice_range s)))..<addr (End (slice_range s))]"
    by (simp add: addrs_of_def upt_conv_Cons)
  have skip: "find P (map f xs @ ys) = find P ys" if "\<forall>x. \<not> P (f x)" for P f xs and ys :: "'a list"
    using that by (induction xs) auto
  show ?case
  proof (cases "err (slice_block s)")
    case None
    then have "find (\<lambda>(b, a). err b \<noteq> None) (flat_slices (s # sl)) =
        find (\<lambda>(b, a). err b \<noteq> None) (flat_slices sl)"
      by (simp add: skip)
    moreover have "check s = Inr ()" using None assms by (simp add: checks_def)
    ultimately show ?thesis using Cons by simp
  next
    case (Some k)
    then show ?thesis using assms as by (simp add: checks_def)
  qed
qed simp

text \<open>The error a check gives is that of the first address it rejects.\<close>

lemma CheckedSlices_correct:
  assumes "wf_map m" and "checks check err"
  shows "\<exists>sl. Slices m r = Some sl \<and>
    CheckedSlices m r check =
      Some (case first_error err m (addrs_of r) of
              None \<Rightarrow> Inr sl
            | Some (k, a) \<Rightarrow> Inl (error_at k a))"
proof -
  obtain sl where sl: "Slices m r = Some sl" "\<forall>s \<in> set sl. wf_range (slice_range s)"
      "flat_slices sl = map (\<lambda>a. (block_in (blocks_of m) a, a)) (addrs_of r)"
    using Slices_flat [OF assms(1)] by blast
  have "find (\<lambda>(b, a). err b \<noteq> None) (map (\<lambda>a. (block_in (blocks_of m) a, a)) as) =
      map_option (\<lambda>a. (block_in (blocks_of m) a, a)) (find (\<lambda>a. err (block_in (blocks_of m) a) \<noteq> None) as)" for as
    by (induction as) auto
  then show ?thesis
    using sl check_all_flat [OF assms(2) sl(2)]
    by (auto simp: CheckedSlices_def first_error_def split: option.splits)
qed

section \<open>Rendering\<close>

text \<open>The slices of a run of addresses: peeling the first slice off.\<close>

definition run :: "MemoryMap \<Rightarrow> BlockSlice list \<Rightarrow> nat \<Rightarrow> nat \<Rightarrow> bool" where
  "run m sl c e \<longleftrightarrow> (\<forall>s \<in> set sl. slice_of m s) \<and>
     flat_slices sl = map (\<lambda>a. (block_in (blocks_of m) a, a)) [c..<e]"

lemma Slices_run:
  "wf_map m \<Longrightarrow> Slices m r = Some sl \<Longrightarrow> run m sl (addr (Start r)) (addr (End r))"
  using Slices_flat [of m r] Slices_slice_of [of m r sl] by (auto simp: run_def addrs_of_def)

lemma run_Nil: "run m [] c e \<Longrightarrow> e \<le> c"
  by (auto simp: run_def)

lemma run_Cons:
  assumes "run m (s # sl) c e"
  shows "slice_of m s" and "addr (Start (slice_range s)) = c" and "c < addr (End (slice_range s))"
    and "addr (End (slice_range s)) \<le> e" and "run m sl (addr (End (slice_range s))) e"
    and "addr (End (slice_range s)) = c + count_of (Size (slice_range s))"
proof -
  let ?s = "addr (Start (slice_range s))" and ?e = "addr (End (slice_range s))"
  show s: "slice_of m s" using assms by (simp add: run_def)
  then have wf: "wf_range (slice_range s)" by (simp add: slice_of_def)
  have len: "?s < ?e" using wf by (rule wf_rangeD(1))
  have flat: "map (Pair (slice_block s)) [?s..<?e] @ flat_slices sl =
      map (\<lambda>a. (block_in (blocks_of m) a, a)) [c..<e]"
    using assms by (simp add: run_def addrs_of_def)
  have addrs: "[?s..<?e] @ map snd (flat_slices sl) = [c..<e]"
    using arg_cong [OF flat, of "map snd"] by (simp add: comp_def)
  then have ce: "c < e" using len by (cases "c < e") auto
  from arg_cong [OF addrs, of hd] show start: "?s = c" using len ce by simp
  with len show "c < ?e" by simp
  show stop: "?e \<le> e" using arg_cong [OF addrs, of length] len start by simp
  have "map (Pair (slice_block s)) [?s..<?e] @ flat_slices sl =
      map (\<lambda>a. (block_in (blocks_of m) a, a)) [c..<?e] @ map (\<lambda>a. (block_in (blocks_of m) a, a)) [?e..<e]"
    using flat upt_split [of c ?e e] start len stop by simp
  then have "flat_slices sl = map (\<lambda>a. (block_in (blocks_of m) a, a)) [?e..<e]"
    using start by simp
  then show "run m sl ?e e" using assms by (simp add: run_def)
  show "?e = c + count_of (Size (slice_range s))" using wf start by (simp add: wf_range_def)
qed

lemma OffsetIn_eq:
  "addr (Start r) \<le> addr (Start (slice_range s)) \<Longrightarrow>
   OffsetIn r s = addr (Start (slice_range s)) - addr (Start r)"
  by (simp add: OffsetIn_def addr_def unat_sub_if')

text \<open>What one slice contributes: the bytes its addresses read as.\<close>

lemma slice_source:
  assumes "wf_image img" and "slice_of (image_map img) s" and "slice_block s \<noteq> None"
  shows "\<exists>src. (case FileStart s of
           None \<Rightarrow> None
         | Some (Some fs) \<Rightarrow> span_at (image_file img) (addr fs) (count_of (Size (slice_range s)))
         | Some None \<Rightarrow>
             (case map_option block_backing (slice_block s) of
                Some (FillBacking v) \<Rightarrow> Some (replicate (count_of (Size (slice_range s))) v)
              | _ \<Rightarrow> None)) = Some src \<and>
    map Some src = map (abs_read img) (addrs_of (slice_range s))"
proof -
  let ?m = "image_map img" and ?n = "count_of (Size (slice_range s))"
  let ?s = "addr (Start (slice_range s))"
  have wf: "wf_map ?m" and flen: "length (image_file img) = count_of (file_size_of ?m)"
    using assms(1) by (simp_all add: wf_image_def)
  have r: "0 < ?n" "addr (End (slice_range s)) = ?s + ?n"
    using assms(2) by (auto simp: slice_of_def wf_range_def)
  obtain b where b: "slice_block s = Some b" using assms(3) by blast
  have here: "block_in (blocks_of ?m) a = Some b" if "a \<in> set (addrs_of (slice_range s))" for a
    using assms(2) b that by (simp add: slice_of_def)
  show ?thesis
  proof (cases "block_backing b")
    case (FillBacking v)
    then have "map (abs_read img) (addrs_of (slice_range s)) = map (\<lambda>_. Some v) (addrs_of (slice_range s))"
      using here by (simp add: abs_read_def)
    also have "\<dots> = map Some (replicate ?n v)"
      using r by (simp add: addrs_of_def map_replicate_const)
    finally show ?thesis using b FillBacking by (simp add: FileStart_def)
  next
    case (FileBacking off)
    have start: "addr (Start (block_range b)) \<le> ?s"
      using slice_in_block(2) [OF wf assms(2) b] .
    have pos: "file_pos ?m a = Some (addr off + (a - addr (Start (block_range b))))"
      if "a \<in> set (addrs_of (slice_range s))" for a
      using slice_file_pos [OF assms(2) b that] FileBacking by simp
    then have "file_pos ?m ?s = Some (addr off + (?s - addr (Start (block_range b))))"
      using r by (simp add: addrs_of_def)
    then obtain fs where fs: "FileStart s = Some (Some fs)"
        "addr fs = addr off + (?s - addr (Start (block_range b)))"
      using FileStart_correct [OF wf assms(2)] by auto
    have each: "file_pos ?m (?s + i) = Some (addr fs + i)" if "i < ?n" for i
      using pos [of "?s + i"] that r start fs(2) by (simp add: addrs_of_def)
    then have "addr fs + (?n - 1) < length (image_file img)"
      unfolding flen using r(1) by (intro file_pos_bound [OF wf, of "?s + (?n - 1)"]) (metis diff_less zero_less_one)
    then have fits: "addr fs + ?n \<le> length (image_file img)" using r by linarith
    have "map Some (subspan (image_file img) (addr fs) ?n) = map (abs_read img) (addrs_of (slice_range s))"
      using fits r here FileBacking each
      by (intro nth_equalityI) (auto simp: addrs_of_def nth_subspan abs_read_def)
    with fs fits show ?thesis by (simp add: span_at_def)
  qed
qed

lemma slice_positions:
  assumes "wf_map m" and "slice_of m s" and "a \<in> set (addrs_of (slice_range s))"
    and "file_pos m (addr (Start (slice_range s))) = Some i"
  shows "file_pos m a = Some (i + (a - addr (Start (slice_range s))))"
proof -
  have first: "addr (Start (slice_range s)) \<in> set (addrs_of (slice_range s))"
    using assms(3) by (auto simp: addrs_of_def)
  then obtain b off where b: "slice_block s = Some b" "block_backing b = FileBacking off"
    using assms(2,4) by (auto simp: file_pos_def slice_of_def split: option.splits backing.splits)
  then show ?thesis
    using slice_file_pos [OF assms(2) b(1)] first assms(3,4) slice_in_block(2) [OF assms(1,2) b(1)]
    by (auto simp: addrs_of_def)
qed

lemma render_slices_correct:
  assumes "wf_image img"
  shows "run (image_map img) sl c e \<Longrightarrow> addr (Start r) \<le> c \<Longrightarrow> c \<le> e \<Longrightarrow>
    \<forall>a \<in> {c..<e}. block_in (blocks_of (image_map img)) a \<noteq> None \<Longrightarrow>
    e = addr (Start r) + length data \<Longrightarrow>
    \<exists>out. render_slices r (image_file img) sl data = Some out \<and>
      map Some out = map Some (take (c - addr (Start r)) data) @ map (abs_read img) [c..<e]"
proof (induction sl arbitrary: c data)
  case Nil
  then have "c = e" using run_Nil by fastforce
  with Nil show ?case by simp
next
  case (Cons s sl)
  note rc = run_Cons [OF Cons.prems(1)]
  let ?S = "addr (Start r)" and ?e = "addr (End (slice_range s))"
  have first: "c \<in> set (addrs_of (slice_range s))" using rc by (simp add: addrs_of_def)
  then have "block_in (blocks_of (image_map img)) c = slice_block s"
    using rc(1) by (simp add: slice_of_def)
  then have "slice_block s \<noteq> None" using Cons.prems(4) rc(3,4) by (metis atLeastLessThan_iff le_refl less_le_trans)
  then obtain src where src: "(case FileStart s of
           None \<Rightarrow> None
         | Some (Some fs) \<Rightarrow> span_at (image_file img) (addr fs) (count_of (Size (slice_range s)))
         | Some None \<Rightarrow>
             (case map_option block_backing (slice_block s) of
                Some (FillBacking v) \<Rightarrow> Some (replicate (count_of (Size (slice_range s))) v)
              | _ \<Rightarrow> None)) = Some src" "map Some src = map (abs_read img) [c..<?e]"
    using slice_source [OF assms(1) rc(1)] rc(2) by (auto simp: addrs_of_def)
  have len: "length src = ?e - c" using arg_cong [OF src(2), of length] by simp
  have off: "OffsetIn r s = c - ?S" using OffsetIn_eq [of r s] rc(2) Cons.prems(2) by simp
  let ?data = "overwrite data (c - ?S) src"
  have fits: "c - ?S + length src \<le> length data" using len rc Cons.prems by simp
  then have step: "render_slices r (image_file img) (s # sl) data = render_slices r (image_file img) sl ?data"
    using src(1) off by (simp add: Let_def copy_into_def)
  have "length ?data = length data" using fits by (rule length_overwrite)
  then obtain out where out: "render_slices r (image_file img) sl ?data = Some out"
      "map Some out = map Some (take (?e - ?S) ?data) @ map (abs_read img) [?e..<e]"
    using Cons.IH [OF rc(5), of ?data] Cons.prems rc by auto
  have "take (?e - ?S) ?data = take (c - ?S) data @ src"
    using fits len rc Cons.prems by (simp add: overwrite_def)
  then have "map Some out = map Some (take (c - ?S) data) @ map (abs_read img) [c..<e]"
    using out(2) src(2) upt_split [of c ?e e] rc by simp
  with out(1) step show ?case by auto
qed

text \<open>\<open>Render\<close> reads every address of the range, or names the first one no block holds.\<close>

lemma first_error_None_iff:
  "first_error err m as = None \<longleftrightarrow> (\<forall>a \<in> set as. err (block_in (blocks_of m) a) = None)"
  by (auto simp: first_error_def find_None_iff)

lemma Render_refines:
  assumes "wf_image img" and "wf_range r"
  shows "\<exists>res. Render img r = Some res \<and>
    (case first_error read_error (image_map img) (addrs_of r) of
       Some (k, a) \<Rightarrow> res = Inl (error_at k a)
     | None \<Rightarrow> \<exists>view. res = Inr view \<and> view_range view = r \<and>
         map Some (view_data view) = map (abs_read img) (addrs_of r))"
proof -
  have wf: "wf_map (image_map img)" using assms(1) by (simp add: wf_image_def)
  obtain sl where sl: "Slices (image_map img) r = Some sl" and
    checked: "CheckedSlices (image_map img) r HeldByABlock =
      Some (case first_error read_error (image_map img) (addrs_of r) of
              None \<Rightarrow> Inr sl | Some (k, a) \<Rightarrow> Inl (error_at k a))"
    using CheckedSlices_correct [OF wf checks_HeldByABlock] by blast
  show ?thesis
  proof (cases "first_error read_error (image_map img) (addrs_of r)")
    case (Some ka)
    then show ?thesis using checked by (cases ka) (simp add: Render_def)
  next
    case None
    then have "\<forall>a \<in> {addr (Start r)..<addr (End r)}. block_in (blocks_of (image_map img)) a \<noteq> None"
      by (auto simp: first_error_None_iff read_error_def addrs_of_def split: if_splits)
    then obtain out where
      "render_slices r (image_file img) sl (replicate (count_of (Size r)) 0) = Some out"
      "map Some out = map (abs_read img) (addrs_of r)"
      using render_slices_correct [OF assms(1) Slices_run [OF wf sl], of r "replicate (count_of (Size r)) 0"]
        wf_rangeD [OF assms(2)] by (auto simp: addrs_of_def)
    with None checked show ?thesis by (simp add: Render_def)
  qed
qed

section \<open>Writing\<close>

lemma write_slices_correct:
  assumes "wf_map m"
  shows "run m sl c e \<Longrightarrow> addr (Start r) \<le> c \<Longrightarrow> c \<le> e \<Longrightarrow> e = addr (Start r) + length data \<Longrightarrow>
    length fb = count_of (file_size_of m) \<Longrightarrow> \<forall>a \<in> {c..<e}. file_pos m a \<noteq> None \<Longrightarrow>
    \<exists>out. write_slices r data sl fb = Some out \<and> length out = length fb \<and>
      (\<forall>a \<in> {c..<e}. \<forall>i. file_pos m a = Some i \<longrightarrow> out ! i = data ! (a - addr (Start r))) \<and>
      (\<forall>i < length fb. (\<forall>a \<in> {c..<e}. file_pos m a \<noteq> Some i) \<longrightarrow> out ! i = fb ! i)"
proof (induction sl arbitrary: c fb)
  case Nil
  then have "c = e" using run_Nil by fastforce
  with Nil show ?case by simp
next
  case (Cons s sl)
  note rc = run_Cons [OF Cons.prems(1)]
  let ?S = "addr (Start r)" and ?e = "addr (End (slice_range s))" and ?n = "count_of (Size (slice_range s))"
  have "file_pos m c \<noteq> None" using rc(3,4) Cons.prems(6) by simp
  then obtain fs where fs: "FileStart s = Some (Some fs)" "file_pos m c = Some (addr fs)"
    using FileStart_correct [OF assms rc(1)] rc(2) by auto
  have pos: "file_pos m a = Some (addr fs + (a - c))" if "a \<in> {c..<?e}" for a
    using slice_positions [OF assms rc(1)] fs(2) that rc(2) by (simp add: addrs_of_def)
  have "addr fs + (?n - 1) < length fb"
    using file_pos_bound [OF assms pos [of "?e - 1"]] rc Cons.prems(5) by simp
  then have fits: "addr fs + ?n \<le> length fb" using rc(3,6) by linarith
  define src where "src = subspan data (c - ?S) ?n"
  have dfit: "c - ?S + ?n \<le> length data" using rc Cons.prems by linarith
  then have len: "length src = ?n" by (simp add: src_def)
  define file1 where "file1 = overwrite fb (addr fs) src"
  have len1: "length file1 = length fb" using fits len by (simp add: file1_def length_overwrite)
  have off: "OffsetIn r s = c - ?S" using OffsetIn_eq [of r s] rc(2) Cons.prems(2) by simp
  have step: "write_slices r data (s # sl) fb = write_slices r data sl file1"
    using fs(1) off dfit fits len by (simp add: span_at_def copy_into_def src_def file1_def)
  obtain out where out: "write_slices r data sl file1 = Some out" "length out = length fb"
      "\<And>a i. a \<in> {?e..<e} \<Longrightarrow> file_pos m a = Some i \<Longrightarrow> out ! i = data ! (a - ?S)"
      "\<And>i. i < length fb \<Longrightarrow> \<forall>a \<in> {?e..<e}. file_pos m a \<noteq> Some i \<Longrightarrow> out ! i = file1 ! i"
    using Cons.IH [OF rc(5), of file1] Cons.prems rc len1 by (auto simp: len1)
  have new: "out ! i = data ! (a - ?S)" if a: "a \<in> {c..<e}" and i: "file_pos m a = Some i" for a i
  proof (cases "a < ?e")
    case True
    then have ac: "i = addr fs + (a - c)" "a - c < ?n" using pos [of a] a i rc by auto
    have "\<forall>a' \<in> {?e..<e}. file_pos m a' \<noteq> Some i"
      using file_pos_inj [OF assms i] True by fastforce
    then have "out ! i = file1 ! i" using out(4) ac fits by simp
    also have "\<dots> = src ! (a - c)" using ac fits len by (simp add: file1_def nth_overwrite)
    also have "\<dots> = data ! (a - ?S)" using ac dfit a Cons.prems(2) by (simp add: src_def nth_subspan)
    finally show ?thesis .
  next
    case False
    with out(3) a i show ?thesis by simp
  qed
  have "out ! i = fb ! i" if i: "i < length fb" "\<forall>a \<in> {c..<e}. file_pos m a \<noteq> Some i" for i
  proof -
    have "\<not> (addr fs \<le> i \<and> i < addr fs + ?n)"
      using i(2) pos [of "c + (i - addr fs)"] rc(3,4,6) by fastforce
    then have "file1 ! i = fb ! i" using fits len i(1) by (auto simp: file1_def nth_overwrite)
    with out(4) [OF i(1)] i(2) rc(3) show ?thesis by simp
  qed
  with out new step show ?case by auto
qed

lemma write_error_None_iff:
  "write_error bo = None \<longleftrightarrow>
     (\<exists>b off. bo = Some b \<and> block_backing b = FileBacking off \<and> block_writability b = kWritable)"
  by (auto simp: write_error_def split: option.splits backing.splits)

lemma can_write_iff:
  assumes "wf_image img"
  shows "can_write img a \<longleftrightarrow> write_error (block_in (blocks_of (image_map img)) a) = None"
proof -
  have "\<exists>off. block_backing b = FileBacking off"
    if "block_in (blocks_of (image_map img)) a = Some b" "block_writability b = kWritable" for b
  proof -
    have "b \<in> set (blocks_of (image_map img))" using that(1) block_in_SomeD by blast
    then have "\<not> writable_fill b" using assms by (simp add: wf_image_def wf_map_def)
    with that(2) show ?thesis by (cases "block_backing b") (auto simp: writable_fill_def)
  qed
  then show ?thesis by (auto simp: can_write_def write_error_None_iff)
qed

lemma abs_read_file:
  assumes "file_pos (image_map img) a = Some i"
  shows "abs_read img a = Some (image_file img ! i)"
  using assms by (auto simp: abs_read_def file_pos_def split: option.splits backing.splits)

lemma abs_read_not_file:
  assumes "file_pos (image_map img) a = None"
  shows "abs_read (img\<lparr>image_file := f\<rparr>) a = abs_read img a"
  using assms by (auto simp: abs_read_def file_pos_def split: option.splits backing.splits)

text \<open>Every branch of \<open>Write\<close> as an effect on the abstract store.\<close>

definition wrote :: "MemoryImage \<Rightarrow> nat \<Rightarrow> bytes \<Rightarrow> MemoryImage \<Rightarrow> bool" where
  "wrote img s data img' \<longleftrightarrow> wf_image img' \<and> image_map img' = image_map img \<and>
     (\<forall>a. abs_read img' a =
        (if s \<le> a \<and> a < s + length data then Some (data ! (a - s)) else abs_read img a))"

lemma Write_refines:
  assumes "wf_image img"
  shows "\<exists>res img'. Write img s data = Some (res, img') \<and>
    (if data \<noteq> [] \<and> 2 ^ 32 \<le> addr s + length data then
       img' = img \<and> (\<exists>e. res = Inl e \<and> error_kind e = kUnmapped)
     else case first_error write_error (image_map img) [addr s..<addr s + length data] of
       Some (k, a) \<Rightarrow> res = Inl (error_at k a) \<and> img' = img
     | None \<Rightarrow> res = Inr () \<and> wrote img (addr s) data img')"
proof -
  let ?m = "image_map img"
  have wf: "wf_map ?m" and flen: "length (image_file img) = count_of (file_size_of ?m)"
    using assms by (simp_all add: wf_image_def)
  consider (empty) "data = []" | (past) "data \<noteq> []" "2 ^ 32 \<le> addr s + length data"
    | (inside) "data \<noteq> []" "addr s + length data < 2 ^ 32" by fastforce
  then show ?thesis
  proof cases
    case empty
    then show ?thesis using assms by (auto simp: Write_def first_error_def wrote_def)
  next
    case past
    have "Option.bind (FromSize (length data)) (MakeRange s) = None"
    proof (cases "FromSize (length data)")
      case (Some n)
      then have "MakeRange s n = None"
        using past(2) MakeRange_Some_iff [of s n] FromSize_count [OF Some] by (cases "MakeRange s n") auto
      with Some show ?thesis by simp
    qed simp
    with past show ?thesis by (simp add: Write_def Fail_def)
  next
    case inside
    then obtain n where n: "FromSize (length data) = Some n" "count_of n = length data"
      using FromSize_fits [of "length data"] by auto
    then obtain r where r: "MakeRange s n = Some r" "wf_range r" "Start r = s" "Size r = n"
      using inside MakeRange_Some_iff [of s n] MakeRange_wf [of s n] by auto
    have as: "addrs_of r = [addr s..<addr s + length data]"
      using r n by (auto simp: addrs_of_def wf_range_def)
    obtain sl where sl: "Slices ?m r = Some sl" and
      checked: "CheckedSlices ?m r WritableFileBlock =
        Some (case first_error write_error ?m (addrs_of r) of
                None \<Rightarrow> Inr sl | Some (k, a) \<Rightarrow> Inl (error_at k a))"
      using CheckedSlices_correct [OF wf checks_WritableFileBlock] by blast
    show ?thesis
    proof (cases "first_error write_error ?m (addrs_of r)")
      case (Some ka)
      then show ?thesis using inside n r checked as by (cases ka) (simp add: Write_def)
    next
      case None
      have fp: "\<forall>a \<in> {addr s..<addr s + length data}. file_pos ?m a \<noteq> None"
        using None as by (auto simp: first_error_None_iff write_error_None_iff file_pos_def split: option.splits backing.splits)
      have "run ?m sl (addr s) (addr s + length data)"
        using Slices_run [OF wf sl] r n by (simp add: wf_range_def)
      then have "\<exists>out. write_slices r data sl (image_file img) = Some out \<and>
          length out = length (image_file img) \<and>
          (\<forall>a \<in> {addr s..<addr s + length data}. \<forall>i. file_pos ?m a = Some i \<longrightarrow> out ! i = data ! (a - addr s)) \<and>
          (\<forall>i < length (image_file img). (\<forall>a \<in> {addr s..<addr s + length data}. file_pos ?m a \<noteq> Some i) \<longrightarrow>
            out ! i = image_file img ! i)"
        using write_slices_correct [OF wf, of sl "addr s" "addr s + length data" r data "image_file img"] fp flen
        unfolding r(3) by (simp only: le_add1 le_refl simp_thms)
      then obtain out where out: "write_slices r data sl (image_file img) = Some out"
          "length out = length (image_file img)"
          "\<And>a i. a \<in> {addr s..<addr s + length data} \<Longrightarrow> file_pos ?m a = Some i \<Longrightarrow> out ! i = data ! (a - addr s)"
          "\<And>i. i < length (image_file img) \<Longrightarrow>
            \<forall>a \<in> {addr s..<addr s + length data}. file_pos ?m a \<noteq> Some i \<Longrightarrow> out ! i = image_file img ! i"
        by blast
      have "wrote img (addr s) data (img\<lparr>image_file := out\<rparr>)"
        unfolding wrote_def
      proof (intro conjI allI)
        show "wf_image (img\<lparr>image_file := out\<rparr>)" using wf flen out(2) by (simp add: wf_image_def)
        fix a
        show "abs_read (img\<lparr>image_file := out\<rparr>) a =
          (if addr s \<le> a \<and> a < addr s + length data then Some (data ! (a - addr s)) else abs_read img a)"
        proof (cases "file_pos ?m a")
          case None
          with fp have "\<not> (addr s \<le> a \<and> a < addr s + length data)" by (metis atLeastLessThan_iff)
          with None show ?thesis using abs_read_not_file by (simp only: if_False)
        next
          case (Some i)
          have "i < length (image_file img)" using file_pos_bound [OF wf Some] flen by simp
          then have "out ! i = image_file img ! i" if "\<not> (addr s \<le> a \<and> a < addr s + length data)"
            using out(4) file_pos_inj [OF wf Some] that by fastforce
          then show ?thesis using out(3) [OF _ Some] Some
            by (auto simp: abs_read_file [of img] abs_read_file [of "img\<lparr>image_file := out\<rparr>"])
        qed
      qed simp
      then show ?thesis using None inside n r checked out(1) as by (simp add: Write_def)
    qed
  qed
qed

text \<open>\<open>CheckWrite\<close> gives the result \<open>Write\<close> would give.\<close>

lemma CheckWrite_agrees:
  assumes "FromSize (length data) = Some n"
  shows "Write img s data = Some (res, img') \<Longrightarrow> CheckWrite img s n = Some res"
proof -
  have n: "count_of n = length data" "ByteCountValue n = 0 \<longleftrightarrow> data = []"
    using FromSize_count [OF assms] by (auto simp: count_of_def unat_eq_zero)
  assume "Write img s data = Some (res, img')"
  then show ?thesis
    using assms n by (auto simp: Write_def CheckWrite_def Fail_def split: if_splits option.splits sum.splits)
qed

section \<open>The store as an interface\<close>

text \<open>What users of an addressed byte store rely on: a store of writable bytes succeeds, keeps
  the invariant and the frame (the layout), and changes exactly the addresses it names; two
  stores with the same frame and the same contents are equal.\<close>

locale byte_store =
  fixes inv :: "'s \<Rightarrow> bool"
    and frame :: "'s \<Rightarrow> 'f"
    and rd :: "'s \<Rightarrow> nat \<Rightarrow> u8 option"
    and writable :: "'s \<Rightarrow> nat \<Rightarrow> bool"
    and store :: "'s \<Rightarrow> nat \<Rightarrow> bytes \<Rightarrow> 's option"
  assumes store_ok: "inv s \<Longrightarrow> (\<exists>s'. store s a d = Some s') \<longleftrightarrow> (\<forall>x \<in> {a..<a + length d}. writable s x)"
    and store_inv: "inv s \<Longrightarrow> store s a d = Some s' \<Longrightarrow> inv s'"
    and store_frame: "inv s \<Longrightarrow> store s a d = Some s' \<Longrightarrow> frame s' = frame s"
    and store_rd: "inv s \<Longrightarrow> store s a d = Some s' \<Longrightarrow>
      rd s' x = (if a \<le> x \<and> x < a + length d then Some (d ! (x - a)) else rd s x)"
    and frame_writable: "inv s \<Longrightarrow> inv s' \<Longrightarrow> frame s' = frame s \<Longrightarrow> writable s' x = writable s x"
    and store_ext: "inv s \<Longrightarrow> inv s' \<Longrightarrow> frame s' = frame s \<Longrightarrow> rd s' = rd s \<Longrightarrow> s' = s"
begin

lemma read_back: "inv s \<Longrightarrow> store s a d = Some s' \<Longrightarrow> map (rd s') [a..<a + length d] = map Some d"
  by (rule nth_equalityI) (simp_all add: store_rd)

lemma store_same:
  assumes "inv s" and "map (rd s) [a..<a + length d] = map Some d" and "store s a d = Some s'"
  shows "s' = s"
proof (rule store_ext)
  have "rd s (a + i) = Some (d ! i)" if "i < length d" for i
    using arg_cong [OF assms(2), of "\<lambda>xs. xs ! i"] that by simp
  then have "rd s x = Some (d ! (x - a))" if "a \<le> x" "x < a + length d" for x
    using that by (metis add_less_cancel_left le_add_diff_inverse)
  then show "rd s' = rd s" using store_rd [OF assms(1,3)] by auto
qed (use assms store_inv store_frame in auto)

lemma store_again:
  assumes "inv s" and "store s a d = Some s1" and "length d' = length d"
  shows "store s1 a d' = store s a d'"
proof -
  have w: "inv s1" "writable s1 x = writable s x" for x
    using assms store_inv store_frame frame_writable by blast+
  show ?thesis
  proof (cases "store s a d'")
    case None
    with assms w store_ok [of s a d'] store_ok [of s1 a d'] show ?thesis by (cases "store s1 a d'") auto
  next
    case (Some t)
    then obtain u where u: "store s1 a d' = Some u"
      using assms w store_ok [of s a d'] store_ok [of s1 a d'] by auto
    have "rd u = rd t"
      using store_rd [OF w(1) u] store_rd [OF assms(1) Some] store_rd [OF assms(1,2)] assms(3) by auto
    then have "u = t"
      using store_ext [of t u] store_inv store_frame assms w Some u by metis
    with Some u show ?thesis by simp
  qed
qed

lemma store_commute:
  assumes "inv s" and "store s a d = Some s1" and "store s1 b e = Some s2"
    and "a + length d \<le> b \<or> b + length e \<le> a"
  shows "\<exists>t. store s b e = Some t \<and> store t a d = Some s2"
proof -
  have w1: "inv s1" "frame s1 = frame s" "\<And>x. writable s1 x = writable s x"
    using assms store_inv store_frame frame_writable by blast+
  obtain t where t: "store s b e = Some t"
    using assms(1,3) w1 store_ok [of s1 b e] store_ok [of s b e] by auto
  then have wt: "inv t" "frame t = frame s" "\<And>x. writable t x = writable s x"
    using assms store_inv store_frame frame_writable by blast+
  obtain u where u: "store t a d = Some u"
    using assms(1,2) wt store_ok [of s a d] store_ok [of t a d] by auto
  have "rd u = rd s2"
    using store_rd [OF wt(1) u] store_rd [OF assms(1) t] store_rd [OF w1(1) assms(3)]
      store_rd [OF assms(1,2)] assms(4) by auto
  then have "u = s2"
    using store_ext [of s2 u] store_inv store_frame wt w1 u assms(3) by metis
  with t u show ?thesis by blast
qed

end

definition image_store :: "MemoryImage \<Rightarrow> nat \<Rightarrow> bytes \<Rightarrow> MemoryImage option" where
  "image_store img a data =
     (if data \<noteq> [] \<and> 2 ^ 32 \<le> a + length data then None
      else case Write img (TaggedPosition (of_nat a)) data of
             Some (Inr _, img') \<Rightarrow> Some img'
           | _ \<Rightarrow> None)"

lemma image_store_iff:
  assumes "wf_image img"
  shows "(\<exists>img'. image_store img a d = Some img') \<longleftrightarrow> (\<forall>x \<in> {a..<a + length d}. can_write img x)"
    and "image_store img a d = Some img' \<Longrightarrow> wrote img a d img'"
proof -
  let ?s = "TaggedPosition (of_nat a) :: flash_address"
  have top: "a < 2 ^ 32 - 1" if w: "can_write img a" for a
  proof -
    obtain b where "block_in (blocks_of (image_map img)) a = Some b" using w by (auto simp: can_write_def)
    then have "holds b a" using block_in_SomeD by blast
    then show ?thesis using addr_bound [of "End (block_range b)"] by (simp add: holds_def)
  qed
  consider (empty) "d = []" | (past) "d \<noteq> []" "2 ^ 32 \<le> a + length d"
    | (inside) "d \<noteq> []" "a + length d < 2 ^ 32" by fastforce
  then have "((\<exists>img'. image_store img a d = Some img') \<longleftrightarrow> (\<forall>x \<in> {a..<a + length d}. can_write img x)) \<and>
    (\<forall>img'. image_store img a d = Some img' \<longrightarrow> wrote img a d img')"
  proof cases
    case empty
    then show ?thesis using assms by (auto simp: image_store_def Write_def wrote_def)
  next
    case past
    then have "a + length d - 1 \<in> {a..<a + length d}" "\<not> can_write img (a + length d - 1)"
      using top [of "a + length d - 1"] by (cases d; auto)+
    with past show ?thesis by (auto simp: image_store_def)
  next
    case inside
    then have a: "addr ?s = a" by (simp add: addr_def unat_of_nat)
    have "first_error write_error (image_map img) [a..<a + length d] = None \<longleftrightarrow>
        (\<forall>x \<in> {a..<a + length d}. can_write img x)"
      by (simp add: first_error_None_iff can_write_iff [OF assms])
    then show ?thesis
      using inside a Write_refines [OF assms, of ?s d]
      by (auto simp: image_store_def split: option.splits)
  qed
  then show "(\<exists>img'. image_store img a d = Some img') \<longleftrightarrow> (\<forall>x \<in> {a..<a + length d}. can_write img x)"
    and "image_store img a d = Some img' \<Longrightarrow> wrote img a d img'" by blast+
qed

lemma image_ext:
  assumes "wf_image img" and "wf_image img'" and "image_map img' = image_map img"
    and "abs_read img' = abs_read img"
  shows "img' = img"
proof -
  have "image_file img' = image_file img"
  proof (rule nth_equalityI)
    fix i assume "i < length (image_file img')"
    then obtain a where "file_pos (image_map img) a = Some i"
      using file_pos_surj [of "image_map img" i] assms by (auto simp: wf_image_def)
    then show "image_file img' ! i = image_file img ! i"
      using fun_cong [OF assms(4), of a] abs_read_file [of img a i] abs_read_file [of img' a i] assms(3) by simp
  qed (use assms in \<open>simp add: wf_image_def\<close>)
  with assms(3) show ?thesis by simp
qed

interpretation image: byte_store wf_image image_map abs_read can_write image_store
proof
  fix s s' a d x
  assume inv: "wf_image s"
  show "(\<exists>s'. image_store s a d = Some s') \<longleftrightarrow> (\<forall>x \<in> {a..<a + length d}. can_write s x)"
    using image_store_iff(1) [OF inv] .
  show "image_store s a d = Some s' \<Longrightarrow> wf_image s'"
    and "image_store s a d = Some s' \<Longrightarrow> image_map s' = image_map s"
    and "image_store s a d = Some s' \<Longrightarrow>
      abs_read s' x = (if a \<le> x \<and> x < a + length d then Some (d ! (x - a)) else abs_read s x)"
    using image_store_iff(2) [OF inv] by (auto simp: wrote_def)
  assume "wf_image s'" "image_map s' = image_map s"
  then show "can_write s' x = can_write s x" and "abs_read s' = abs_read s \<Longrightarrow> s' = s"
    using image_ext [OF inv] by (auto simp: can_write_def)
qed

section \<open>Properties\<close>

text \<open>C1: on an image of an accepted map, \<^verbatim>\<open>MemoryImage::Write\<close> always returns and implements a
  write to the address-to-byte store: it fails with the first unwritable address's error and leaves
  the image untouched, or every byte of the range reads back as written and every other address
  keeps its byte. \<^verbatim>\<open>CheckWrite\<close> gives the same verdict without writing.\<close>

theorem write_refines_the_store:
  assumes "wf_image img"
  shows "\<exists>res img'. Write img s data = Some (res, img') \<and>
    (if data \<noteq> [] \<and> 2 ^ 32 \<le> addr s + length data then
       img' = img \<and> (\<exists>e. res = Inl e \<and> error_kind e = kUnmapped)
     else case first_error write_error (image_map img) [addr s..<addr s + length data] of
       Some (k, a) \<Rightarrow> res = Inl (error_at k a) \<and> img' = img
     | None \<Rightarrow> res = Inr () \<and> wrote img (addr s) data img') \<and>
    (case FromSize (length data) of None \<Rightarrow> True | Some n \<Rightarrow> CheckWrite img s n = Some res)"
proof -
  obtain res img' where "Write img s data = Some (res, img')"
    "if data \<noteq> [] \<and> 2 ^ 32 \<le> addr s + length data then
       img' = img \<and> (\<exists>e. res = Inl e \<and> error_kind e = kUnmapped)
     else case first_error write_error (image_map img) [addr s..<addr s + length data] of
       Some (k, a) \<Rightarrow> res = Inl (error_at k a) \<and> img' = img
     | None \<Rightarrow> res = Inr () \<and> wrote img (addr s) data img'"
    using Write_refines [OF assms] by blast
  then show ?thesis
    using CheckWrite_agrees [of data _ img s res img']
    by (intro exI [of _ res] exI [of _ img']) (auto split: option.splits)
qed

definition sample_image :: MemoryImage where
  "sample_image = \<lparr>image_map = sample_map, image_file = [1, 2, 3, 4, 5, 6, 7, 8]\<rparr>"

lemma sample_image_wf: "wf_image sample_image"
  by (simp add: wf_image_def sample_image_def sample_map_wf) (simp add: sample_map_def count_of_def)

theorem write_refines_the_store_witness:
  "wf_image sample_image \<and>
   (\<exists>res img'. Write sample_image (TaggedPosition 9) [0xAA, 0xBB] = Some (res, img') \<and>
      res = Inr () \<and> wrote sample_image 9 [0xAA, 0xBB] img' \<and>
      CheckWrite sample_image (TaggedPosition 9) (ByteCount 2) = Some res)"
proof -
  have "first_error write_error (image_map sample_image) [9..<11] = None"
    by (simp add: first_error_def sample_image_def sample_map_def sample_blocks_eval block_in_def holds_def
        addr_def upt_rec write_error_def)
  moreover have "FromSize (length [0xAA, 0xBB :: u8]) = Some (ByteCount 2)"
    by (simp add: FromSize_def unsigned_minus_1_eq_mask mask_eq_exp_minus_1)
  ultimately show ?thesis
    using write_refines_the_store [OF sample_image_wf, of "TaggedPosition 9" "[0xAA, 0xBB]"] sample_image_wf
    by (simp add: addr_def)
qed

text \<open>C5: \<^verbatim>\<open>MemoryImage::Render\<close> always returns on such an image: it fails with the first address no
  block holds, and otherwise returns the store's bytes of the range, fill blocks included.\<close>

theorem render_refines_the_store:
  assumes "wf_image img" and "wf_range r"
  shows "\<exists>res. Render img r = Some res \<and>
    (case first_error read_error (image_map img) (addrs_of r) of
       Some (k, a) \<Rightarrow> res = Inl (error_at k a)
     | None \<Rightarrow> \<exists>view. res = Inr view \<and> view_range view = r \<and>
         map Some (view_data view) = map (abs_read img) (addrs_of r))"
  using assms by (rule Render_refines)

theorem render_refines_the_store_witness:
  "wf_image sample_image \<and> wf_range (sample_range 6 3) \<and>
   (\<exists>res view. Render sample_image (sample_range 6 3) = Some res \<and> res = Inr view \<and>
      view_range view = sample_range 6 3 \<and> view_data view = [0xFF, 0xFF, 5])"
proof -
  have r: "wf_range (sample_range 6 3)"
    by (simp add: sample_range_def MakeRange_def Advance_def wf_range_def addr_def count_of_def)
  have as: "addrs_of (sample_range 6 3) = [6, 7, 8]"
    by (simp add: sample_range_def MakeRange_def Advance_def addrs_of_def addr_def upt_rec)
  have none: "first_error read_error (image_map sample_image) [6, 7, 8] = None"
    by (simp add: first_error_def sample_image_def sample_map_def sample_blocks_eval block_in_def holds_def
        addr_def read_error_def)
  have "map (abs_read sample_image) [6, 7, 8] = map Some [0xFF, 0xFF, 5]"
    by (simp add: abs_read_def sample_image_def sample_map_def sample_blocks_eval block_in_def holds_def
        addr_def file_pos_def)
  then show ?thesis
    using render_refines_the_store [OF sample_image_wf r] r sample_image_wf unfolding as none
    by (auto simp del: list.map dest!: map_injective)
qed

text \<open>C15: writes through the image behave as writes to one flat store: what was written reads back,
  rewriting what is already there changes nothing, a second write to the same range replaces the
  first, and writes to disjoint ranges may be exchanged.\<close>

theorem writes_are_store_updates:
  assumes "wf_image img" and "image_store img a d = Some img1"
  shows "map (abs_read img1) [a..<a + length d] = map Some d \<and>
    image_store img1 a d = Some img1 \<and>
    (\<forall>d'. length d' = length d \<longrightarrow> image_store img1 a d' = image_store img a d') \<and>
    (\<forall>b e img2. image_store img1 b e = Some img2 \<and> (a + length d \<le> b \<or> b + length e \<le> a) \<longrightarrow>
       Option.bind (image_store img b e) (\<lambda>t. image_store t a d) = Some img2)"
proof -
  have again: "\<forall>d'. length d' = length d \<longrightarrow> image_store img1 a d' = image_store img a d'"
    using image.store_again [OF assms] by blast
  then have "image_store img1 a d = Some img1" using assms(2) by simp
  moreover have "Option.bind (image_store img b e) (\<lambda>t. image_store t a d) = Some img2"
    if "image_store img1 b e = Some img2" "a + length d \<le> b \<or> b + length e \<le> a" for b e img2
    using image.store_commute [OF assms that] by auto
  ultimately show ?thesis using image.read_back [OF assms] again by blast
qed

theorem writes_are_store_updates_witness:
  "wf_image sample_image \<and>
   (\<exists>img1. image_store sample_image 9 [0xAA, 0xBB] = Some img1 \<and>
      map (abs_read img1) [9, 10] = map Some [0xAA, 0xBB] \<and>
      image_store img1 9 [0xAA, 0xBB] = Some img1 \<and>
      image_store img1 9 [6, 7] = image_store sample_image 9 [6, 7])"
proof -
  have "\<forall>x \<in> {9..<11}. can_write sample_image x"
    by (auto simp: can_write_def sample_image_def sample_map_def sample_blocks_eval block_in_def holds_def addr_def)
  then obtain img1 where s: "image_store sample_image 9 [0xAA, 0xBB] = Some img1"
    using image.store_ok [OF sample_image_wf, of 9 "[0xAA, 0xBB]"] by auto
  have "[9..<9 + length [0xAA, 0xBB :: u8]] = [9, 10]" by (simp add: upt_rec)
  with writes_are_store_updates [OF sample_image_wf s] s sample_image_wf
  show ?thesis by (metis length_Cons list.size(3))
qed

end
