(* ===== verification/Checksum_Denso.thy ===== *)
theory Checksum_Denso
  imports Checksum_Primitives Memory_Image
begin

text \<open>
  \<^verbatim>\<open>algorithms/checksum/checksum_result.h\<close>, \<^verbatim>\<open>denso_checksum_table.h/.cpp\<close> and the two
  families that use the table, \<^verbatim>\<open>checksum_ecu_subaru_denso_sh7xxx.cpp\<close> and
  \<^verbatim>\<open>checksum_ecu_subaru_denso_sh705x_diesel.cpp\<close>. A Denso table is a list of 12-byte records
  (start, end, value); the value brings the 32-bit sum of the block's words to a fixed target.
\<close>

section \<open>Results\<close>

datatype Status =
  kUnchanged | kCorrected | kDisabled | kInvalidSize | kUnsupportedRom | kParseError

record ChecksumResult =
  status :: Status
  rom_data :: bytes
  message :: string

definition Changed :: "ChecksumResult \<Rightarrow> bool" where
  "Changed r \<longleftrightarrow> status r = kCorrected"

definition Ok :: "ChecksumResult \<Rightarrow> bool" where
  "Ok r \<longleftrightarrow> status r = kUnchanged \<or> status r = kCorrected \<or> status r = kDisabled"

section \<open>The table\<close>

record DensoWordOverride =
  ov_address :: u32
  ov_value :: u32

record DensoTableSpec =
  table_address :: flash_address
  table_length :: u32
  overrides :: "DensoWordOverride list"
  detect_disabled :: bool

datatype DensoTableOutcome =
    DensoUnchanged | DensoCorrected | DensoDisabled
  | kInvalidTableRange | kInvalidBlockRange | kMalformedBlockRange | kInvalidRecordLength

definition kRecordLength :: nat where
  "kRecordLength = 12"

definition kChecksumTarget :: u32 where
  "kChecksumTarget = 0x5AA5A55A"

definition WordAt :: "bytes \<Rightarrow> nat \<Rightarrow> u32 \<Rightarrow> DensoWordOverride list \<Rightarrow> u32" where
  "WordAt block offset block_address ovs =
     (let ecu_address = block_address + of_nat offset in
      case find (\<lambda>item. ov_address item = ecu_address) ovs of
        None \<Rightarrow> ReadU32Be block offset
      | Some item \<Rightarrow> ov_value item)"

definition EcuAcceptsBlock :: "u32 \<Rightarrow> u32 \<Rightarrow> bool" where
  "EcuAcceptsBlock start e \<longleftrightarrow> start mod 4 = 0 \<and> start \<le> e \<and> (start = e \<or> e mod 4 = 3)"

text \<open>The summing loop, from an offset on.\<close>

function sum_words :: "bytes \<Rightarrow> u32 \<Rightarrow> DensoWordOverride list \<Rightarrow> nat \<Rightarrow> u32 \<Rightarrow> u32" where
  "sum_words block start ovs offset s =
     (if offset < length block then
        sum_words block start ovs (offset + 4) (s + WordAt block offset start ovs)
      else s)"
  by pat_completeness auto
termination
  by (relation "measure (\<lambda>(block, _, _, offset, _). length block - offset)") auto

declare sum_words.simps [simp del]

definition SumBlock ::
  "bytes \<Rightarrow> u32 \<Rightarrow> u32 \<Rightarrow> u32 \<Rightarrow> DensoWordOverride list \<Rightarrow> DensoTableOutcome + u32" where
  "SumBlock rom base start e ovs =
     (if \<not> EcuAcceptsBlock start e then Inl kMalformedBlockRange
      else if start = e then Inr 0
      else if start < base \<or> unat (e - base) \<ge> length rom then Inl kInvalidBlockRange
      else let block = subspan rom (unat (start - base)) (unat (e - start + 1)) in
           Inr (sum_words block start ovs 0 0))"

text \<open>The record loop: the outcome of an early return on the left, else the corrected table and
  whether it differs.\<close>

function correct_records ::
  "flash_address \<Rightarrow> bytes \<Rightarrow> DensoTableSpec \<Rightarrow> nat \<Rightarrow> nat \<Rightarrow> bytes \<Rightarrow> bool \<Rightarrow>
   DensoTableOutcome + bytes \<times> bool" where
  "correct_records base rom spec table_position record corrected changed =
     (if record < unat (table_length spec) then
        let position = table_position + record;
            start = ReadU32Be rom position;
            e = ReadU32Be rom (position + 4);
            stored = ReadU32Be rom (position + 8)
        in
        if record = 0 \<and> detect_disabled spec \<and> start = 0 \<and> e = 0 \<and> stored = kChecksumTarget then
          Inl DensoDisabled
        else
          (case SumBlock rom (Value base) start e (overrides spec) of
             Inl err \<Rightarrow> Inl err
           | Inr s \<Rightarrow>
               let expected = kChecksumTarget - s in
               correct_records base rom spec table_position (record + kRecordLength)
                 (AppendU32Be (AppendU32Be (AppendU32Be corrected start) e) expected)
                 (changed \<or> stored \<noteq> expected))
      else Inr (corrected, changed))"
  by pat_completeness auto
termination
  by (relation "measure (\<lambda>(_, _, spec, _, record, _, _). unat (table_length spec) - record)")
    (auto simp: kRecordLength_def)

declare correct_records.simps [simp del]

definition CorrectDensoTable ::
  "flash_address \<Rightarrow> bytes \<Rightarrow> DensoTableSpec \<Rightarrow> DensoTableOutcome \<times> bytes" where
  "CorrectDensoTable base rom spec =
     (if unat (table_length spec) mod kRecordLength \<noteq> 0 then (kInvalidRecordLength, rom)
      else case DistanceFrom (table_address spec) base of
        None \<Rightarrow> (kInvalidTableRange, rom)
      | Some table_position \<Rightarrow>
          if count_of table_position > length rom
             \<or> unat (table_length spec) > length rom - count_of table_position
          then (kInvalidTableRange, rom)
          else
            (case correct_records base rom spec (count_of table_position) 0 [] False of
               Inl err \<Rightarrow> (err, rom)
             | Inr (corrected, changed) \<Rightarrow>
                 if \<not> changed then (DensoUnchanged, rom)
                 else (DensoCorrected, OverwriteAt rom (count_of table_position) corrected)))"

record DensoTableFailure =
  failure_status :: Status
  failure_message :: string

fun FailureOf :: "DensoTableOutcome \<Rightarrow> DensoTableFailure option" where
  "FailureOf DensoUnchanged = None"
| "FailureOf DensoCorrected = None"
| "FailureOf DensoDisabled = None"
| "FailureOf kInvalidTableRange =
     Some \<lparr>failure_status = kInvalidSize,
           failure_message = ''ROM is too small for the configured checksum area''\<rparr>"
| "FailureOf kInvalidBlockRange =
     Some \<lparr>failure_status = kInvalidSize,
           failure_message = ''ROM is too small for a checksum block range''\<rparr>"
| "FailureOf kMalformedBlockRange =
     Some \<lparr>failure_status = kParseError,
           failure_message = ''A checksum block must start on a word and end at or after it, on a word's last byte''\<rparr>"
| "FailureOf kInvalidRecordLength =
     Some \<lparr>failure_status = kParseError,
           failure_message = ''Checksum area length must be a multiple of 12 bytes''\<rparr>"

section \<open>The SH7xxx family\<close>

definition SH7xxx_CalculateChecksumResult :: "MemoryView \<Rightarrow> flash_address \<Rightarrow> u32 \<Rightarrow> ChecksumResult" where
  "SH7xxx_CalculateChecksumResult rom address len =
     (let spec = \<lparr>table_address = address, table_length = len, overrides = [], detect_disabled = True\<rparr>;
          (outcome, out) = CorrectDensoTable (Start (view_range rom)) (view_data rom) spec
      in case FailureOf outcome of
           Some failure \<Rightarrow>
             \<lparr>status = failure_status failure, rom_data = out, message = failure_message failure\<rparr>
         | None \<Rightarrow>
             (case outcome of
                DensoCorrected \<Rightarrow>
                  \<lparr>status = kCorrected, rom_data = out, message = ''Checksums corrected''\<rparr>
              | DensoDisabled \<Rightarrow>
                  \<lparr>status = kDisabled, rom_data = out, message = ''ROM has all checksums disabled''\<rparr>
              | _ \<Rightarrow> \<lparr>status = kUnchanged, rom_data = out, message = ''Checksums OK''\<rparr>))"

section \<open>The SH705x diesel family\<close>

definition diesel_overrides :: "u32 \<Rightarrow> DensoWordOverride list" where
  "diesel_overrides checksum_area_start =
     (if checksum_area_start = 0x0FFB80 then [\<lparr>ov_address = 0x0FFAFC, ov_value = 0xFFFFFFFF\<rparr>]
      else if checksum_area_start = 0x17FB80 then [\<lparr>ov_address = 0x17FAFC, ov_value = 0xFFFFFFFF\<rparr>]
      else [])"

definition SH705xDiesel_CalculateChecksumResult ::
  "MemoryView \<Rightarrow> flash_address \<Rightarrow> u32 \<Rightarrow> ChecksumResult" where
  "SH705xDiesel_CalculateChecksumResult rom address len =
     (let rom_view = view_data rom;
          base = Start (view_range rom);
          checksum_area_start = Value address;
          primary = \<lparr>table_address = address, table_length = len,
                     overrides = diesel_overrides checksum_area_start, detect_disabled = True\<rparr>;
          (primary_outcome, data1) = CorrectDensoTable base rom_view primary
      in if primary_outcome = DensoDisabled then
           \<lparr>status = kDisabled, rom_data = data1, message = ''ROM has all checksums disabled''\<rparr>
         else case FailureOf primary_outcome of
           Some failure \<Rightarrow>
             \<lparr>status = failure_status failure, rom_data = data1, message = failure_message failure\<rparr>
         | None \<Rightarrow>
             let secondary = \<lparr>table_address = TaggedPosition 0x1FF8E8, table_length = 24,
                              overrides = [], detect_disabled = False\<rparr>;
                 (secondary_outcome, data2) =
                   (if checksum_area_start = 0x1FF800 then CorrectDensoTable base data1 secondary
                    else (DensoUnchanged, data1))
             in case (if checksum_area_start = 0x1FF800 then FailureOf secondary_outcome else None) of
                  Some failure \<Rightarrow>
                    \<lparr>status = failure_status failure, rom_data = rom_view,
                     message = failure_message failure\<rparr>
                | None \<Rightarrow>
                    if primary_outcome = DensoCorrected \<or> secondary_outcome = DensoCorrected then
                      \<lparr>status = kCorrected, rom_data = data2, message = ''Subaru Denso SH705x Checksum''\<rparr>
                    else \<lparr>status = kUnchanged, rom_data = data2, message = ''''\<rparr>)"

section \<open>What the record loop computes\<close>

definition record_word :: "bytes \<Rightarrow> nat \<Rightarrow> nat \<Rightarrow> nat \<Rightarrow> u32" where
  "record_word rom p j k = ReadU32Be rom (p + 12 * j + 4 * k)"

definition record_sum :: "flash_address \<Rightarrow> bytes \<Rightarrow> DensoTableSpec \<Rightarrow> nat \<Rightarrow> nat \<Rightarrow> DensoTableOutcome + u32" where
  "record_sum base rom spec p j =
     SumBlock rom (Value base) (record_word rom p j 0) (record_word rom p j 1) (overrides spec)"

definition expected_value :: "flash_address \<Rightarrow> bytes \<Rightarrow> DensoTableSpec \<Rightarrow> nat \<Rightarrow> nat \<Rightarrow> u32" where
  "expected_value base rom spec p j = kChecksumTarget - projr (record_sum base rom spec p j)"

definition expected_record :: "flash_address \<Rightarrow> bytes \<Rightarrow> DensoTableSpec \<Rightarrow> nat \<Rightarrow> nat \<Rightarrow> bytes" where
  "expected_record base rom spec p j =
     AppendU32Be (AppendU32Be (AppendU32Be [] (record_word rom p j 0)) (record_word rom p j 1))
       (expected_value base rom spec p j)"

definition table_disabled :: "bytes \<Rightarrow> DensoTableSpec \<Rightarrow> nat \<Rightarrow> bool" where
  "table_disabled rom spec p \<longleftrightarrow> detect_disabled spec \<and>
     record_word rom p 0 0 = 0 \<and> record_word rom p 0 1 = 0 \<and> record_word rom p 0 2 = kChecksumTarget"

lemma length_expected_record [simp]: "length (expected_record base rom spec p j) = 12"
  by (simp add: expected_record_def AppendU32Be_def)

lemma correct_records_step:
  assumes "12 * i < unat (table_length spec)"
  shows "correct_records base rom spec p (12 * i) acc ch =
    (if i = 0 \<and> table_disabled rom spec p then Inl DensoDisabled
     else case record_sum base rom spec p i of
       Inl err \<Rightarrow> Inl err
     | Inr s \<Rightarrow> correct_records base rom spec p (12 * Suc i) (acc @ expected_record base rom spec p i)
                   (ch \<or> record_word rom p i 2 \<noteq> expected_value base rom spec p i))"
  using assms
  by (subst correct_records.simps)
    (auto simp: Let_def table_disabled_def record_word_def record_sum_def expected_record_def
      expected_value_def kRecordLength_def AppendU32Be_def add.commute split: sum.splits)

lemma correct_records_Inr_iff:
  assumes "unat (table_length spec) = 12 * n"
  shows "i \<le> n \<Longrightarrow> correct_records base rom spec p (12 * i) acc ch = Inr r \<longleftrightarrow>
    (\<forall>j \<in> {i..<n}. \<exists>s. record_sum base rom spec p j = Inr s) \<and>
    \<not> (i = 0 \<and> 0 < n \<and> table_disabled rom spec p) \<and>
    r = (acc @ concat (map (expected_record base rom spec p) [i..<n]),
         ch \<or> (\<exists>j \<in> {i..<n}. record_word rom p j 2 \<noteq> expected_value base rom spec p j))"
proof (induction "n - i" arbitrary: i acc ch)
  case 0
  then show ?case using assms by (subst correct_records.simps) auto
next
  case (Suc d)
  then have i: "i < n" "d = n - Suc i" by linarith+
  have set: "{i..<n} = insert i {Suc i..<n}" and lst: "[i..<n] = i # [Suc i..<n]"
    using i by (auto simp: upt_conv_Cons)
  show ?case
    using i assms Suc.hyps(1) [OF i(2)] unfolding set lst
    by (subst correct_records_step) (auto split: sum.splits)
qed

lemma correct_records_Inl:
  assumes "unat (table_length spec) = 12 * n"
  shows "i \<le> n \<Longrightarrow> correct_records base rom spec p (12 * i) acc ch = Inl e \<Longrightarrow>
    e = DensoDisabled \<and> i = 0 \<and> table_disabled rom spec p \<or>
    (\<exists>j \<in> {i..<n}. record_sum base rom spec p j = Inl e)"
proof (induction "n - i" arbitrary: i acc ch)
  case 0
  then show ?case using assms by (subst (asm) correct_records.simps) auto
next
  case (Suc d)
  then have i: "i < n" "d = n - Suc i" by linarith+
  show ?case
    using i assms Suc.hyps(1) [OF i(2)] Suc.prems
    by (subst (asm) correct_records_step) (fastforce split: sum.splits if_splits)+
qed

section \<open>The corrected table\<close>

lemma subspan_concat_blocks:
  assumes "\<And>j. length (f j) = w" and "j < n"
  shows "subspan (concat (map f [0..<n])) (w * j) w = f j"
proof -
  have len: "length (concat (map f xs)) = w * length xs" for xs
    using assms(1) by (induction xs) simp_all
  have "[0..<n] = [0..<j] @ j # [Suc j..<n]"
    using assms(2) upt_split [of 0 j n] by (simp add: upt_conv_Cons)
  then have "concat (map f [0..<n]) = concat (map f [0..<j]) @ f j @ concat (map f [Suc j..<n])" by simp
  then show ?thesis
    using subspan_append_prefix [of "concat (map f [0..<j])" "f j"] by (simp add: len assms(1) mult.commute)
qed

lemma expected_record_parts:
  "expected_record base rom spec p j =
     AppendU32Be [] (record_word rom p j 0) @ AppendU32Be [] (record_word rom p j 1) @
     AppendU32Be [] (expected_value base rom spec p j)"
  by (simp add: expected_record_def AppendU32Be_def)

lemma subspan_record:
  assumes "p + 12 * j + 12 \<le> length rom"
  shows "subspan rom (p + 12 * j) 12 =
    AppendU32Be [] (record_word rom p j 0) @ AppendU32Be [] (record_word rom p j 1) @
    AppendU32Be [] (record_word rom p j 2)"
proof -
  have "subspan rom (p + 12 * j) 12 =
      subspan rom (p + 12 * j) 4 @ subspan rom (p + 12 * j + 4) 4 @ subspan rom (p + 12 * j + 8) 4"
    using subspan_split [of rom "p + 12 * j" 4 8] subspan_split [of rom "p + 12 * j + 4" 4 4]
    by (simp add: add.assoc)
  then show ?thesis using assms by (simp add: record_word_def u32be.enc_rd)
qed

definition new_table :: "flash_address \<Rightarrow> bytes \<Rightarrow> DensoTableSpec \<Rightarrow> nat \<Rightarrow> nat \<Rightarrow> bytes" where
  "new_table base rom spec p n = concat (map (expected_record base rom spec p) [0..<n])"

lemma length_new_table [simp]: "length (new_table base rom spec p n) = 12 * n"
  by (induction n) (simp_all add: new_table_def)

lemma new_table_0 [simp]: "new_table base rom spec p 0 = []"
  by (simp add: new_table_def)

lemma new_table_reads:
  assumes "p + 12 * n \<le> length rom" and "j < n"
  shows "record_word (overwrite rom p (new_table base rom spec p n)) p j 0 = record_word rom p j 0"
    and "record_word (overwrite rom p (new_table base rom spec p n)) p j 1 = record_word rom p j 1"
    and "record_word (overwrite rom p (new_table base rom spec p n)) p j 2 = expected_value base rom spec p j"
proof -
  let ?out = "overwrite rom p (new_table base rom spec p n)"
  have fits: "p + 12 * j + 12 \<le> length rom" using assms by linarith
  have len: "length ?out = length rom" using assms(1) by (simp add: length_overwrite)
  have "subspan ?out p (12 * n) = new_table base rom spec p n"
    using assms(1) by (simp add: subspan_overwrite_same)
  then have "subspan ?out (p + 12 * j) 12 = subspan (new_table base rom spec p n) (12 * j) 12"
    using assms(2) subspan_subspan [of "12 * j" 12 "12 * n" ?out p] by simp
  then have "subspan ?out (p + 12 * j) 12 = expected_record base rom spec p j"
    using subspan_concat_blocks [of "expected_record base rom spec p" 12 j n] assms(2)
    by (simp add: new_table_def)
  then have "AppendU32Be [] (record_word ?out p j 0) @ AppendU32Be [] (record_word ?out p j 1) @
      AppendU32Be [] (record_word ?out p j 2) = expected_record base rom spec p j"
    using subspan_record [of p j ?out] fits len by simp
  then have "AppendU32Be [] (record_word ?out p j 0) = AppendU32Be [] (record_word rom p j 0)"
    "AppendU32Be [] (record_word ?out p j 1) = AppendU32Be [] (record_word rom p j 1)"
    "AppendU32Be [] (record_word ?out p j 2) = AppendU32Be [] (expected_value base rom spec p j)"
    unfolding expected_record_parts by (auto simp: append_eq_append_conv u32be.length_enc)
  then show "record_word ?out p j 0 = record_word rom p j 0"
    and "record_word ?out p j 1 = record_word rom p j 1"
    and "record_word ?out p j 2 = expected_value base rom spec p j"
    using u32be.dec_enc by (metis id_apply)+
qed

lemma new_table_same:
  assumes "p + 12 * n \<le> length rom" and "\<forall>j < n. record_word rom p j 2 = expected_value base rom spec p j"
  shows "overwrite rom p (new_table base rom spec p n) = rom"
proof -
  have "new_table base rom spec p n = subspan rom p (12 * n)"
    using assms
  proof (induction n)
    case (Suc n)
    have "expected_record base rom spec p n = subspan rom (p + 12 * n) 12"
      using subspan_record [of p n rom] Suc.prems by (simp add: expected_record_parts)
    then show ?case
      using Suc subspan_split [of rom p "12 * n" 12] by (simp add: new_table_def add.commute)
  qed (simp add: new_table_def subspan_def)
  then show ?thesis using assms(1) by (simp add: overwrite_subspan_same)
qed

text \<open>Every run of the table correction is one of two: a failure (or a disabled table) that leaves
  the ROM as it was, or a success that rewrites the table with the expected values.\<close>

definition denso_success :: "flash_address \<Rightarrow> bytes \<Rightarrow> DensoTableSpec \<Rightarrow> nat \<Rightarrow> nat \<Rightarrow> bool" where
  "denso_success base rom spec p n \<longleftrightarrow>
     map_option count_of (DistanceFrom (table_address spec) base) = Some p \<and>
     unat (table_length spec) = 12 * n \<and> p + 12 * n \<le> length rom \<and>
     (\<forall>j < n. \<exists>s. record_sum base rom spec p j = Inr s) \<and>
     \<not> (0 < n \<and> table_disabled rom spec p)"

lemma CorrectDensoTable_success:
  assumes "denso_success base rom spec p n"
  shows "CorrectDensoTable base rom spec =
    (if \<forall>j < n. record_word rom p j 2 = expected_value base rom spec p j then DensoUnchanged else DensoCorrected,
     overwrite rom p (new_table base rom spec p n))"
proof -
  let ?ch = "\<exists>j \<in> {0..<n}. record_word rom p j 2 \<noteq> expected_value base rom spec p j"
  have len: "unat (table_length spec) = 12 * n" and fits: "p + 12 * n \<le> length rom"
    using assms by (simp_all add: denso_success_def)
  obtain d where d: "DistanceFrom (table_address spec) base = Some d" "count_of d = p"
    using assms by (auto simp: denso_success_def)
  have "correct_records base rom spec p (12 * 0) [] False = Inr (new_table base rom spec p n, ?ch)"
    using assms by (subst correct_records_Inr_iff [OF len]) (auto simp: denso_success_def new_table_def)
  then have "CorrectDensoTable base rom spec =
      (if \<not> ?ch then (DensoUnchanged, rom) else (DensoCorrected, OverwriteAt rom p (new_table base rom spec p n)))"
    using len fits d by (simp add: CorrectDensoTable_def kRecordLength_def)
  moreover have "OverwriteAt rom p (new_table base rom spec p n) = overwrite rom p (new_table base rom spec p n)"
    using fits by (cases "n = 0") (auto simp: OverwriteAt_def)
  ultimately show ?thesis using new_table_same [OF fits] by (auto simp: Ball_def)
qed

lemma CorrectDensoTable_failure:
  assumes "\<nexists>p n. denso_success base rom spec p n"
  shows "snd (CorrectDensoTable base rom spec) = rom"
    and "fst (CorrectDensoTable base rom spec) \<notin> {DensoUnchanged, DensoCorrected}"
proof -
  have "\<exists>e. CorrectDensoTable base rom spec = (e, rom) \<and> e \<notin> {DensoUnchanged, DensoCorrected}"
  proof (cases "unat (table_length spec) mod 12 = 0")
    case True
    then obtain n where len: "unat (table_length spec) = 12 * n" by auto
    show ?thesis
    proof (cases "DistanceFrom (table_address spec) base")
      case None
      then show ?thesis using True by (simp add: CorrectDensoTable_def kRecordLength_def)
    next
      case (Some d)
      show ?thesis
      proof (cases "count_of d + 12 * n \<le> length rom")
        case False
        then show ?thesis using True len Some by (auto simp: CorrectDensoTable_def kRecordLength_def)
      next
        case fits: True
        have sums: "record_sum base rom spec (count_of d) j = Inl e \<Longrightarrow> e \<in> {kMalformedBlockRange, kInvalidBlockRange}" for j e
          by (auto simp: record_sum_def SumBlock_def split: if_splits)
        obtain e where e: "correct_records base rom spec (count_of d) (12 * 0) [] False = Inl e"
          using assms Some len fits correct_records_Inr_iff [OF len, of 0 base rom "count_of d" "[]" False]
          by (cases "correct_records base rom spec (count_of d) (12 * 0) [] False") (auto simp: denso_success_def)
        have "e \<notin> {DensoUnchanged, DensoCorrected}"
          using correct_records_Inl [OF len _ e] sums by fastforce
        then show ?thesis
          using e True len Some fits by (auto simp: CorrectDensoTable_def kRecordLength_def)
      qed
    qed
  qed (auto simp: CorrectDensoTable_def kRecordLength_def)
  then show "snd (CorrectDensoTable base rom spec) = rom"
    and "fst (CorrectDensoTable base rom spec) \<notin> {DensoUnchanged, DensoCorrected}" by auto
qed

section \<open>What a corrected table guarantees\<close>

lemma CorrectDensoTable_length [simp]: "length (snd (CorrectDensoTable base rom spec)) = length rom"
proof (cases "\<exists>p n. denso_success base rom spec p n")
  case True
  then obtain p n where s: "denso_success base rom spec p n" by blast
  then show ?thesis using CorrectDensoTable_success [OF s] by (auto simp: denso_success_def length_overwrite)
next
  case False
  then show ?thesis using CorrectDensoTable_failure by simp
qed

lemma denso_success_if:
  "fst (CorrectDensoTable base rom spec) \<in> {DensoUnchanged, DensoCorrected} \<longleftrightarrow>
   (\<exists>p n. denso_success base rom spec p n)"
  using CorrectDensoTable_failure(2) CorrectDensoTable_success by (auto split: if_splits) metis+

text \<open>A block the table does not overlap; an empty block reads nothing.\<close>

definition block_clear :: "flash_address \<Rightarrow> bytes \<Rightarrow> nat \<Rightarrow> nat \<Rightarrow> nat \<Rightarrow> bool" where
  "block_clear base rom p n j \<longleftrightarrow>
     (let s = record_word rom p j 0; e = record_word rom p j 1 in
      s = e \<or> unat (s - Value base) + unat (e - s + 1) \<le> p \<or> p + 12 * n \<le> unat (s - Value base))"

lemma record_sum_new_table:
  assumes "p + 12 * n \<le> length rom" and "j < n" and "block_clear base rom p n j"
  shows "record_sum base (overwrite rom p (new_table base rom spec p n)) spec p j = record_sum base rom spec p j"
proof -
  let ?out = "overwrite rom p (new_table base rom spec p n)"
  have len: "length ?out = length rom" using assms(1) by (simp add: length_overwrite)
  show ?thesis
    using assms(3) len subspan_overwrite_disjoint [of p "new_table base rom spec p n" rom] assms(1)
    unfolding record_sum_def new_table_reads [OF assms(1,2)] SumBlock_def block_clear_def Let_def by auto
qed

lemma denso_valid:
  assumes "denso_success base rom spec p n" and "j < n" and "block_clear base rom p n j"
    and "rom' = snd (CorrectDensoTable base rom spec)"
  shows "\<exists>s. SumBlock rom' (Value base) (record_word rom' p j 0) (record_word rom' p j 1) (overrides spec) = Inr s \<and>
    record_word rom' p j 2 + s = kChecksumTarget"
proof -
  have fits: "p + 12 * n \<le> length rom" and ok: "\<exists>s. record_sum base rom spec p j = Inr s"
    using assms(1,2) by (auto simp: denso_success_def)
  have rom': "rom' = overwrite rom p (new_table base rom spec p n)"
    using assms(4) CorrectDensoTable_success [OF assms(1)] by simp
  have "record_sum base rom' spec p j = record_sum base rom spec p j"
    unfolding rom' by (rule record_sum_new_table [OF fits assms(2,3)])
  with ok new_table_reads(3) [OF fits assms(2)] show ?thesis
    by (auto simp: record_sum_def expected_value_def rom')
qed

lemma denso_idempotent:
  assumes "denso_success base rom spec p n" and "\<forall>j < n. block_clear base rom p n j"
    and "\<not> (n \<noteq> 0 \<and> detect_disabled spec \<and> record_word rom p 0 0 = 0 \<and> record_word rom p 0 1 = 0)"
    and "rom' = snd (CorrectDensoTable base rom spec)"
  shows "CorrectDensoTable base rom' spec = (DensoUnchanged, rom')"
proof -
  have fits: "p + 12 * n \<le> length rom" using assms(1) by (simp add: denso_success_def)
  have rom': "rom' = overwrite rom p (new_table base rom spec p n)"
    using assms(4) CorrectDensoTable_success [OF assms(1)] by simp
  have len: "length rom' = length rom" using fits by (simp add: rom' length_overwrite)
  have sums: "record_sum base rom' spec p j = record_sum base rom spec p j" if "j < n" for j
    unfolding rom' using assms(2) that by (intro record_sum_new_table fits) auto
  have "\<not> (0 < n \<and> table_disabled rom' spec p)"
    using assms(3) new_table_reads(1,2) [OF fits, of 0 base spec] by (auto simp: table_disabled_def rom')
  with assms(1) sums len have again: "denso_success base rom' spec p n" by (simp add: denso_success_def)
  have same: "\<forall>j < n. record_word rom' p j 2 = expected_value base rom' spec p j"
    using sums new_table_reads(3) [OF fits] by (simp add: expected_value_def) (simp add: rom' expected_value_def)
  have "overwrite rom' p (new_table base rom' spec p n) = rom'"
    using new_table_same [OF _ same] fits len by simp
  with CorrectDensoTable_success [OF again] same show ?thesis by simp
qed

text \<open>An empty first record has sum 0, so correcting it stores the target: the disabled pattern.\<close>

lemma denso_turns_disabled:
  assumes "denso_success base rom spec p n" and "n \<noteq> 0" and "detect_disabled spec"
    and "record_word rom p 0 0 = 0" and "record_word rom p 0 1 = 0"
    and "rom' = snd (CorrectDensoTable base rom spec)"
  shows "CorrectDensoTable base rom' spec = (DensoDisabled, rom')"
proof -
  have fits: "p + 12 * n \<le> length rom" and len: "unat (table_length spec) = 12 * n"
    using assms(1) by (simp_all add: denso_success_def)
  obtain d where d: "DistanceFrom (table_address spec) base = Some d" "count_of d = p"
    using assms(1) by (auto simp: denso_success_def)
  have rom': "rom' = overwrite rom p (new_table base rom spec p n)"
    using assms(6) CorrectDensoTable_success [OF assms(1)] by simp
  have "record_sum base rom spec p 0 = Inr 0"
    using assms(4,5) by (simp add: record_sum_def SumBlock_def EcuAcceptsBlock_def)
  then have "table_disabled rom' spec p"
    using new_table_reads [OF fits, of 0 base spec] assms(2-5)
    by (simp add: table_disabled_def rom' expected_value_def)
  then have "correct_records base rom' spec p (12 * 0) [] False = Inl DensoDisabled"
    using assms(2) len by (subst correct_records_step) auto
  then show ?thesis
    using d fits len by (simp add: CorrectDensoTable_def kRecordLength_def rom' length_overwrite)
qed

text \<open>Without overrides, the sum is the 32-bit sum of the block's words.\<close>

lemma sum_words_plain:
  "sum_words block start [] (4 * k) s =
     s + sum_list (map (\<lambda>i. ReadU32Be block (4 * i)) [k..<(length block + 3) div 4])"
proof (induction "(length block + 3) div 4 - k" arbitrary: k s)
  case 0
  then have "\<not> 4 * k < length block" by linarith
  with 0 show ?case by (subst sum_words.simps) simp
next
  case (Suc n)
  then have k: "4 * k < length block" "k < (length block + 3) div 4" by linarith+
  have "sum_words block start [] (4 * k) s = sum_words block start [] (4 * Suc k) (s + ReadU32Be block (4 * k))"
    using k by (subst sum_words.simps) (simp add: WordAt_def add.commute)
  also have "\<dots> = s + ReadU32Be block (4 * k) + sum_list (map (\<lambda>i. ReadU32Be block (4 * i)) [Suc k..<(length block + 3) div 4])"
    by (rule Suc(1)) (use Suc(2) in linarith)
  finally show ?case using k by (simp add: upt_conv_Cons add.assoc)
qed

lemma SumBlock_words:
  assumes "EcuAcceptsBlock start e" and "start \<noteq> e" and "base \<le> start"
    and "unat e - unat base < length rom" and "unat e - unat start < 2 ^ 32 - 1"
  shows "SumBlock rom base start e [] =
    Inr (sum_list (words (subspan rom (unat start - unat base) (unat e - unat start + 1))))"
proof -
  have se: "unat start \<le> unat e" "unat base \<le> unat start" "unat base \<le> unat e"
    using assms(1,3) by (auto simp: EcuAcceptsBlock_def word_le_nat_alt)
  have "e mod 4 = 3" "start mod 4 = 0" using assms(1,2) by (auto simp: EcuAcceptsBlock_def)
  then have "unat e mod unat (4 :: u32) = unat (3 :: u32)" "unat start mod unat (4 :: u32) = unat (0 :: u32)"
    by (simp_all only: unat_mod [symmetric])
  then have "unat e mod 4 = 3" "unat start mod 4 = 0" by simp_all
  then have dvd: "(unat e - unat start + 1) mod 4 = 0" using se by presburger
  have n: "unat (e - start + 1) = unat e - unat start + 1"
    using assms(5) se by (simp add: unat_word_ariths unat_sub_if')
  have offs: "unat (e - base) = unat e - unat base" "unat (start - base) = unat start - unat base"
    using se by (simp_all add: unat_sub_if')
  let ?block = "subspan rom (unat start - unat base) (unat e - unat start + 1)"
  have "length ?block = unat e - unat start + 1"
    using assms(4) se by simp
  then have len: "(length ?block + 3) div 4 = length ?block div 4" using dvd by presburger
  have "sum_words ?block start [] 0 0 = sum_list (words ?block)"
    using sum_words_plain [of ?block start 0 0] by (simp only: len) (simp add: words_def)
  then show ?thesis using assms n offs by (simp add: SumBlock_def Let_def not_le not_less)
qed

section \<open>Properties\<close>

text \<open>C8: the outcome of \<^verbatim>\<open>CorrectDensoTable\<close> on every ROM: when the table lies in the ROM, every
  record's block is accepted and the table is not the disabled pattern, exactly the table's stored
  values are replaced by the expected ones and the outcome says whether any differed; otherwise the
  ROM is untouched and the outcome is a failure or \<open>kDisabled\<close>.\<close>

theorem denso_table_outcome:
  "if \<exists>p n. denso_success base rom spec p n
   then \<exists>p n. denso_success base rom spec p n \<and>
     CorrectDensoTable base rom spec =
       (if list_all (\<lambda>j. record_word rom p j 2 = expected_value base rom spec p j) [0..<n]
        then DensoUnchanged else DensoCorrected,
        overwrite rom p (new_table base rom spec p n))
   else snd (CorrectDensoTable base rom spec) = rom \<and>
     fst (CorrectDensoTable base rom spec) \<notin> {DensoUnchanged, DensoCorrected}"
proof (cases "\<exists>p n. denso_success base rom spec p n")
  case True
  then obtain p n where "denso_success base rom spec p n" by blast
  moreover have "list_all (\<lambda>j. record_word rom p j 2 = expected_value base rom spec p j) [0..<n] \<longleftrightarrow>
      (\<forall>j < n. record_word rom p j 2 = expected_value base rom spec p j)" for p n
    by (auto simp: list_all_iff)
  ultimately show ?thesis using True CorrectDensoTable_success by auto
next
  case False
  then show ?thesis using CorrectDensoTable_failure [OF False] by simp
qed


text \<open>One record at address 0 for the word at 12.\<close>

definition sample_denso_rom :: bytes where
  "sample_denso_rom = [0, 0, 0, 12, 0, 0, 0, 15, 0, 0, 0, 0, 0x10, 0x20, 0x30, 0x40]"

definition sample_denso_spec :: DensoTableSpec where
  "sample_denso_spec = \<lparr>table_address = TaggedPosition 0, table_length = 12, overrides = [], detect_disabled = True\<rparr>"

lemma sample_denso_eval:
  "record_word sample_denso_rom 0 0 0 = 12" "record_word sample_denso_rom 0 0 1 = 15" "record_word sample_denso_rom 0 0 (Suc 0) = 15"
  by (simp_all add: record_word_def sample_denso_rom_def ReadU32Be_def)


end
