(* ===== verification/Checksum_Families.thy ===== *)
theory Checksum_Families
  imports Checksum_Denso
begin

text \<open>
  The checksum families with a fixed layout, one \<^verbatim>\<open>CalculateChecksumResult\<close> per source file of
  \<^verbatim>\<open>algorithms/checksum\<close>. Every constant is an offset into the ROM, which the fixed-size
  families take as a \<^verbatim>\<open>std::span<const std::uint8_t, kRomSize>\<close>. The locale \<open>checksum_family\<close>
  is what the dispatcher relies on: the corrected ROM has the input's length, and applying the
  correction to its own output leaves the bytes alone.
\<close>

section \<open>Mitsubishi M32R CAN ECU\<close>

definition kTargetChecksum :: u32 where "kTargetChecksum = 0x5AA55AA5"
definition kCorrectionWords :: nat where "kCorrectionWords = 0x3FFCE"
definition kCorrectionWordCount :: nat where "kCorrectionWordCount = 5"
definition kBalanceSlot :: nat where "kBalanceSlot = 0x3FFC0"
definition kAreaCodeOffset :: nat where "kAreaCodeOffset = 0x3FFCB"

definition kAreaCodes :: "(u8 \<times> nat) list" where
  "kAreaCodes =
     [(0x40, 0x040000), (0x50, 0x080000), (0x60, 0x100000), (0x80, 0x140000),
      (0xC0, 0x050000), (0xC2, 0x060000), (0xC3, 0x0C0000)]"

definition AreaEndFor :: "u8 \<Rightarrow> nat option" where
  "AreaEndFor code = map_option snd (find (\<lambda>a. fst a = code) kAreaCodes)"

definition kLayoutEnd :: nat where
  "kLayoutEnd = kCorrectionWords + 2 + kCorrectionWordCount * 4"

definition UnchangedWith :: "Status \<Rightarrow> bytes \<Rightarrow> string \<Rightarrow> ChecksumResult" where
  "UnchangedWith st rom_view msg = \<lparr>status = st, rom_data = rom_view, message = msg\<rparr>"

text \<open>The value compared with the target, for a checked area.\<close>

definition mitsu_m32r_checksum :: "bytes \<Rightarrow> nat \<Rightarrow> u32" where
  "mitsu_m32r_checksum rom_view area_end =
     (let c0 = fold_sum (FoldU32Be [take area_end rom_view]);
          c1 = c0 - ucast (ReadU16Be rom_view kCorrectionWords);
          c2 = fold (\<lambda>index c. c - ReadU32Be rom_view (kCorrectionWords + 2 + index * 4))
                 [0..<kCorrectionWordCount] c1
      in c2 + 0xFFFF - 5)"

definition MitsuM32rCan_CalculateChecksumResult :: "bytes \<Rightarrow> ChecksumResult" where
  "MitsuM32rCan_CalculateChecksumResult rom_view =
     (if length rom_view < kLayoutEnd then
        UnchangedWith kInvalidSize rom_view
          ''ROM is too small to carry the Mitsubishi M32R checksum layout''
      else case AreaEndFor (rom_view ! kAreaCodeOffset) of
        None \<Rightarrow> UnchangedWith kDisabled rom_view
                  ''Unrecognised checksum area code; checksums disabled''
      | Some area_end \<Rightarrow>
          if area_end > length rom_view then
            UnchangedWith kDisabled rom_view
              ''Checksum area extends past the end of the ROM; checksums disabled''
          else
            let checksum = mitsu_m32r_checksum rom_view area_end in
            if checksum = kTargetChecksum then
              \<lparr>status = kUnchanged, rom_data = rom_view, message = ''''\<rparr>
            else \<lparr>status = kCorrected,
                  rom_data = RebalanceU32Be rom_view kBalanceSlot checksum kTargetChecksum,
                  message = ''Mitsubishi M32R CAN ECU Checksum''\<rparr>)"

section \<open>Subaru Hitachi M32R CAN ECU\<close>

text \<open>The 8-bit sum and XOR over the bytes outside an excluded index range.\<close>

definition sum_xor8 :: "bytes \<Rightarrow> nat \<Rightarrow> nat \<Rightarrow> u8 \<times> u8" where
  "sum_xor8 rom lo hi =
     fold (\<lambda>i (s, x). if i < lo \<or> i > hi then (s + rom ! i, x XOR rom ! i) else (s, x))
       [0..<length rom] (0, 0)"

text \<open>Store a calculated 32-bit checksum when it differs from the stored one.\<close>

definition fix_u32 :: "nat \<Rightarrow> u32 \<Rightarrow> u32 \<Rightarrow> bool \<times> bytes \<Rightarrow> bool \<times> bytes" where
  "fix_u32 address calculated stored s =
     (if calculated \<noteq> stored then (False, WriteU32Be (snd s) address calculated) else s)"

definition HitachiM32rCan_CalculateChecksumResult :: "bytes \<Rightarrow> ChecksumResult" where
  "HitachiM32rCan_CalculateChecksumResult rom =
     (let f12 = FoldU32Be [subspan rom 0x6000 0x2000];
          stored1 = ReadU32Be rom 0x7ffe8;
          stored2 = ReadU32Be rom 0x7ffec;
          s12 = fix_u32 0x7ffec (fold_xor f12) stored2 (fix_u32 0x7ffe8 (fold_sum f12) stored1 (True, rom));
          rom12 = snd s12;
          f34 = FoldU32Be [take 0x10000 rom12, subspan rom12 0x10004 0x6ffec];
          stored3 = ReadU32Be rom12 0x7fff0;
          stored4 = ReadU32Be rom12 0x7fff4;
          s34 = fix_u32 0x7fff4 (fold_xor f34) stored4 (fix_u32 0x7fff0 (fold_sum f34) stored3 s12);
          rom34 = snd s34;
          checksum5 = (ucast (fold_sum (FoldU32Be [subspan rom34 0x4000 0xc000, drop 0x10004 rom34])) :: u16);
          s5 = (if checksum5 \<noteq> 0x5aa5 then (False, RebalanceU16Be rom34 0x7fffa checksum5 0x5aa5) else s34);
          rom5 = snd s5;
          (hi, lo) = sum_xor8 rom5 0x10000 0x10003;
          checksum6 = (push_bit 8 (ucast hi) + ucast lo :: u16);
          ok = (fst s5 \<and> checksum6 = ReadU16Be rom5 0x10000)
      in if \<not> ok then \<lparr>status = kCorrected, rom_data = rom5, message = ''Subaru Hitachi M32R CAN ECU Checksum''\<rparr>
         else \<lparr>status = kUnchanged, rom_data = rom5, message = ''''\<rparr>)"

section \<open>Subaru Hitachi M32R K-Line ECU\<close>

definition HitachiM32rKline_CalculateChecksumResult :: "bytes \<Rightarrow> ChecksumResult" where
  "HitachiM32rKline_CalculateChecksumResult rom =
     (let (c1, c2) = sum_xor8 rom 0x8100 0x8101;
          stored1 = rom ! 0x8100;
          stored2 = rom ! 0x8101;
          s1 = (if c1 \<noteq> stored1 then (False, rom[0x8100 := c1]) else (True, rom));
          s2 = (if c2 \<noteq> stored2 then (False, (snd s1)[0x8101 := c2]) else s1);
          rom2 = snd s2;
          checksum3 = (ucast (fold_sum (FoldU32Be [subspan rom2 0x4000 0x4100, drop 0x8104 rom2])) :: u16);
          s3 = (if checksum3 \<noteq> 0x5aa5 then (False, RebalanceU16Be rom2 0x7fffa checksum3 0x5aa5) else s2)
      in if \<not> fst s3 then
           \<lparr>status = kCorrected, rom_data = snd s3, message = ''Subaru Hitachi M32R K-Line ECU Checksum''\<rparr>
         else \<lparr>status = kUnchanged, rom_data = snd s3, message = ''''\<rparr>)"

section \<open>Subaru Hitachi SH7058 ECU\<close>

text \<open>The checksum-5 rebalance leaves the flag alone, as the source does.\<close>

definition HitachiSH7058_CalculateChecksumResult :: "bytes \<Rightarrow> ChecksumResult" where
  "HitachiSH7058_CalculateChecksumResult rom =
     (let f12 = FoldU32Be [subspan rom 0x18400 0x5c00];
          stored1 = ReadU32Be rom 0xfffe8;
          stored2 = ReadU32Be rom 0xfffec;
          s12 = fix_u32 0xfffec (fold_xor f12) stored2 (fix_u32 0xfffe8 (fold_sum f12) stored1 (True, rom));
          rom12 = snd s12;
          checksum5 = fold_sum (FoldU32Be [subspan rom12 0x4000 0xfbff0, drop 0xffff8 rom12]);
          rom5 = (if checksum5 \<noteq> 0x5aa5a55a then RebalanceU32Be rom12 0xffff8 checksum5 0x5aa5a55a else rom12);
          f34 = FoldU32Be [take 0xffff0 rom5, drop 0xffff8 rom5];
          stored3 = ReadU32Be rom5 0xffff0;
          stored4 = ReadU32Be rom5 0xffff4;
          s34 = fix_u32 0xffff4 (fold_xor f34) stored4 (fix_u32 0xffff0 (fold_sum f34) stored3 (fst s12, rom5))
      in if \<not> fst s34 then
           \<lparr>status = kCorrected, rom_data = snd s34, message = ''Subaru Hitachi SH7058 CAN ECU Checksum''\<rparr>
         else \<lparr>status = kUnchanged, rom_data = snd s34, message = ''''\<rparr>)"

section \<open>Subaru Hitachi SH72543R ECU\<close>

definition HitachiSh72543r_CalculateChecksumResult :: "bytes \<Rightarrow> ChecksumResult" where
  "HitachiSh72543r_CalculateChecksumResult rom =
     (let chksum = SumU16Be [drop 0x6000 rom] in
      if chksum \<noteq> 0x5aa5 then
        \<lparr>status = kCorrected, rom_data = RebalanceU16Be rom 0x1ffffe chksum 0x5aa5,
         message = ''Subaru Hitachi SH72543r ECU Checksum''\<rparr>
      else \<lparr>status = kUnchanged, rom_data = rom, message = ''''\<rparr>)"

section \<open>Mitsubishi MH8104 CAN TCU\<close>

definition mh8104_checksum :: "bytes \<Rightarrow> u32" where
  "mh8104_checksum rom = fold_sum (FoldU32Be [drop 0x8000 rom]) - 0xffff + 5"

definition MitsuMH8104Can_CalculateChecksumResult :: "bytes \<Rightarrow> ChecksumResult" where
  "MitsuMH8104Can_CalculateChecksumResult rom =
     (let checksum = mh8104_checksum rom;
          s = (if checksum \<noteq> 0x5aa45aab then (False, RebalanceU32Be rom 0x81fc checksum 0x5aa45aab)
               else (True, rom))
      in if \<not> fst s then
           \<lparr>status = kCorrected, rom_data = snd s, message = ''Subaru Hitachi M32R K-Line/CAN ECU Checksum''\<rparr>
         else \<lparr>status = kUnchanged, rom_data = snd s, message = ''''\<rparr>)"

section \<open>Subaru Denso SH7055 TCU\<close>

definition kChecksumAreas :: "(nat \<times> nat) list" where
  "kChecksumAreas =
     [(0x1000, 0x0800), (0x3000, 0x003a), (0x3080, 0x4c00), (0xc880, 0x83f6), (0x1d06c, 0x83f6),
      (0x2d858, 0x83f8), (0x3e048, 0x0fdc), (0x40000, 0x741c), (0x4e838, 0x83f6), (0x5f024, 0x83f8),
      (0x6f814, 0x8174), (0x7fb80, 0x0240)]"

definition DensoSH7055_CalculateChecksumResult :: "bytes \<Rightarrow> ChecksumResult" where
  "DensoSH7055_CalculateChecksumResult rom =
     (let checksum = SumU16Be (map (\<lambda>(start, word_count). subspan rom start (2 * word_count)) kChecksumAreas) in
      if checksum \<noteq> 0x5aa5 then
        \<lparr>status = kCorrected, rom_data = RebalanceU16Be rom 0x7fff4 checksum 0x5aa5,
         message = ''Subaru Denso SH7055 TCU Checksum''\<rparr>
      else \<lparr>status = kUnchanged, rom_data = rom, message = ''''\<rparr>)"

section \<open>Subaru Hitachi M32R CAN TCU\<close>

definition Checksum2Field :: "bytes \<Rightarrow> u32" where
  "Checksum2Field rom =
     (let s = fold_sum (FoldU32Be [take 0x8000 rom, drop 0x8008 rom]);
          field3 = (ucast (0xff - (drop_bit 24 s AND 0xff)) :: u8);
          field2 = (ucast (0xff - (drop_bit 16 s AND 0xff)) :: u8);
          field1 = (ucast (0xff - (drop_bit 8 s AND 0xff)) :: u8);
          field0 = (ucast (0x100 - (s AND 0xff)) :: u8)
      in ReadU32Le [field0, field1, field2, field3] 0)"

definition TcuHitachiM32rCan_CalculateChecksumResult :: "bytes \<Rightarrow> ChecksumResult" where
  "TcuHitachiM32rCan_CalculateChecksumResult rom =
     (if length rom < 0x8024 \<or> length rom mod 4 \<noteq> 0 then
        \<lparr>status = kInvalidSize, rom_data = rom, message = ''ROM size does not match the checksum layout''\<rparr>
      else
        let checksum1 = fold_sum (FoldU32Be [drop 0x8020 rom]);
            checksum2 = Checksum2Field rom;
            stored2 = ReadU32Be rom 0x8000;
            s1 = (if checksum1 \<noteq> 0x5aa5a55a then (False, RebalanceU32Be rom 0x8020 checksum1 0x5aa5a55a)
                  else (True, rom));
            s2 = (if checksum2 \<noteq> stored2 then
                    (let checksum_2_field = Checksum2Field (snd s1) in
                     (False, WriteU32Be (WriteU32Be (snd s1) 0x8000 checksum_2_field) (0x8000 + 4) checksum_2_field))
                  else s1)
        in if \<not> fst s2 then
             \<lparr>status = kCorrected, rom_data = snd s2, message = ''Subaru Hitachi M32R K-Line/CAN ECU Checksum''\<rparr>
           else \<lparr>status = kUnchanged, rom_data = snd s2, message = ''''\<rparr>)"

section \<open>Windows and slots\<close>

lemma subspan_0: "subspan xs 0 n = take n xs"
  by (simp add: subspan_def)

lemma subspan_to_end: "subspan xs off (length xs - off) = drop off xs"
  by (simp add: subspan_def)

lemma words_take: "n \<le> length rom \<Longrightarrow> words (take n rom) = map (ReadU32Be rom) (grid 4 0 n)"
  using words_subspan [of 0 n rom] by (simp add: subspan_0)

lemma words_drop: "off \<le> length rom \<Longrightarrow> words (drop off rom) = map (ReadU32Be rom) (grid 4 off (length rom - off))"
  using words_subspan [of off "length rom - off" rom] by (simp add: subspan_to_end)

lemma halfwords_drop:
  "off \<le> length rom \<Longrightarrow> halfwords (drop off rom) = map (ReadU16Be rom) (grid 2 off (length rom - off))"
  using halfwords_subspan [of off "length rom - off" rom] by (simp add: subspan_to_end)

lemmas window_words = words_take words_drop words_subspan halfwords_drop halfwords_subspan
  FoldU32Be_eq SumU16Be_eq

lemma store_if_differs: "(if v \<noteq> ReadU32Be rom a then WriteU32Be rom a v else rom) = WriteU32Be rom a v"
  by (auto simp: u32be.wr_rd_same)

lemma fix_u32_simps:
  "snd (fix_u32 a v (ReadU32Be (snd s) a) s) = WriteU32Be (snd s) a v"
  "fst (fix_u32 a v w s) \<longleftrightarrow> fst s \<and> v = w"
  by (auto simp: fix_u32_def u32be.wr_rd_same)

text \<open>The low half of a 32-bit sum is the sum of the low halves, so a halfword slot at the low half
  of a word balances it.\<close>

lemma ucast_ReadU32Be: "p + 4 \<le> length rom \<Longrightarrow> (ucast (ReadU32Be rom p) :: u16) = ReadU16Be rom (p + 2)"
  by (auto simp: ReadU32Be_def ReadU16Be_def numeral_3_eq_3 intro!: bit_word_eqI)
    (auto simp: bit_simps)

lemma ucast_sum_list: "(ucast (sum_list ws) :: u16) = sum_list (map ucast (ws :: u32 list))"
  by (induction ws) (simp_all add: ucast_add_narrow)

lemma low_sum:
  assumes "\<forall>p \<in> set offs. p + 4 \<le> length rom"
  shows "(ucast (sum_list (map (ReadU32Be rom) offs)) :: u16) = sum_list (map (ReadU16Be rom) (map (\<lambda>p. p + 2) offs))"
  using assms by (induction offs) (simp_all add: ucast_add_narrow ucast_ReadU32Be)

text \<open>Writes that miss a piece leave it alone.\<close>

lemma take_write:
  "n \<le> a \<Longrightarrow> take n (WriteU32Be rom a v) = take n rom"
  "n \<le> a \<Longrightarrow> take n (WriteU16Be rom a w) = take n rom"
  using u32be.subspan_wr_other [of 0 n a rom v] u16be.subspan_wr_other [of 0 n a rom w]
  by (simp_all add: subspan_0)

lemma drop_write:
  "a + 4 \<le> n \<Longrightarrow> drop n (WriteU32Be rom a v) = drop n rom"
  "a + 2 \<le> n \<Longrightarrow> drop n (WriteU16Be rom a w) = drop n rom"
  using u32be.subspan_wr_other [of n "length rom - n" a rom v] u16be.subspan_wr_other [of n "length rom - n" a rom w]
    subspan_to_end [of "WriteU32Be rom a v" n] subspan_to_end [of "WriteU16Be rom a w" n]
  by (simp_all add: subspan_to_end)

lemma read_cross_write:
  "p + 4 \<le> a \<or> a + 2 \<le> p \<Longrightarrow> ReadU32Be (WriteU16Be rom a w) p = ReadU32Be rom p"
  "p + 2 \<le> a \<or> a + 4 \<le> p \<Longrightarrow> ReadU16Be (WriteU32Be rom a v) p = ReadU16Be rom p"
  by (rule u32be.rd_cong u16be.rd_cong; simp add: u16be.subspan_wr_other u32be.subspan_wr_other)+

lemma fix_u32_two:
  assumes "a + 4 \<le> b"
  shows "snd (fix_u32 b w (ReadU32Be (snd s) b) (fix_u32 a v (ReadU32Be (snd s) a) s)) =
    WriteU32Be (WriteU32Be (snd s) a v) b w"
proof -
  let ?t = "fix_u32 a v (ReadU32Be (snd s) a) s"
  have t: "snd ?t = WriteU32Be (snd s) a v" by (rule fix_u32_simps)
  have "snd (fix_u32 b w (ReadU32Be (snd ?t) b) ?t) = WriteU32Be (snd ?t) b w" by (rule fix_u32_simps)
  moreover have "ReadU32Be (snd ?t) b = ReadU32Be (snd s) b" using assms unfolding t by (simp add: u32be.rd_wr_other)
  ultimately show ?thesis by (simp only: t)
qed

lemma rebalance_if16:
  "(if c \<noteq> t then (False, RebalanceU16Be (snd s) a c t) else s) = (fst s \<and> c = t, RebalanceU16Be (snd s) a c t)"
  by (cases s) (auto simp: RebalanceU16Be_eq u16be.wr_rd_same)

lemma rebalance_if32:
  "(if c \<noteq> t then RebalanceU32Be rom a c t else rom) = RebalanceU32Be rom a c t"
  by (auto simp: RebalanceU32Be_def u32be.wr_rd_same)

lemmas frame_simps = take_write drop_write u32be.subspan_wr_other u16be.subspan_wr_other
  u32be.rd_wr_other u16be.rd_wr_other read_cross_write

section \<open>The contract of a family\<close>

locale checksum_family =
  fixes calc :: "bytes \<Rightarrow> ChecksumResult"
    and layout :: "bytes \<Rightarrow> bool"
    and valid :: "bytes \<Rightarrow> bool"
  assumes keeps_length: "layout rom \<Longrightarrow> length (rom_data (calc rom)) = length rom"
    and keeps_layout: "layout rom \<Longrightarrow> layout (rom_data (calc rom))"
    and reaches: "layout rom \<Longrightarrow> valid (rom_data (calc rom))"
    and fixed: "layout rom \<Longrightarrow> valid rom \<Longrightarrow> rom_data (calc rom) = rom"
begin

lemma idempotent: "layout rom \<Longrightarrow> rom_data (calc (rom_data (calc rom))) = rom_data (calc rom)"
  by (intro fixed keeps_layout reaches)

lemma valid_iff_fixed: "layout rom \<Longrightarrow> valid rom \<longleftrightarrow> rom_data (calc rom) = rom"
  using fixed reaches by metis

end

subsection \<open>Hitachi M32R CAN\<close>

definition HitachiM32rCan_valid :: "bytes \<Rightarrow> bool" where
  "HitachiM32rCan_valid rom \<longleftrightarrow>
     fold_sum (FoldU32Be [subspan rom 0x6000 0x2000]) = ReadU32Be rom 0x7ffe8 \<and>
     fold_xor (FoldU32Be [subspan rom 0x6000 0x2000]) = ReadU32Be rom 0x7ffec \<and>
     fold_sum (FoldU32Be [take 0x10000 rom, subspan rom 0x10004 0x6ffec]) = ReadU32Be rom 0x7fff0 \<and>
     fold_xor (FoldU32Be [take 0x10000 rom, subspan rom 0x10004 0x6ffec]) = ReadU32Be rom 0x7fff4 \<and>
     (ucast (fold_sum (FoldU32Be [subspan rom 0x4000 0xc000, drop 0x10004 rom])) :: u16) = 0x5aa5"

lemma M32rCan_rebalanced:
  assumes "length rom = 0x80000"
    and "c = (ucast (fold_sum (FoldU32Be [subspan rom 0x4000 0xc000, drop 0x10004 rom])) :: u16)"
    and "rom' = RebalanceU16Be rom 0x7fffa c 0x5aa5"
  shows "(ucast (fold_sum (FoldU32Be [subspan rom' 0x4000 0xc000, drop 0x10004 rom'])) :: u16) = 0x5aa5"
proof -
  let ?offs = "grid 4 0x4000 0xc000 @ grid 4 0x10004 0x6fffc"
  have offs: "set ?offs = {p. 4 dvd p \<and> (0x4000 \<le> p \<and> p < 0x10000 \<or> 0x10004 \<le> p \<and> p < 0x80000)}"
    by (auto simp: grid_set)
  have sum: "(ucast (fold_sum (FoldU32Be [subspan r 0x4000 0xc000, drop 0x10004 r])) :: u16) =
      sum_list (map (ReadU16Be r) (map (\<lambda>p. p + 2) ?offs))" if "length r = 0x80000" for r
  proof -
    have "fold_sum (FoldU32Be [subspan r 0x4000 0xc000, drop 0x10004 r]) = sum_list (map (ReadU32Be r) ?offs)"
      using that by (simp add: window_words)
    moreover have "\<forall>p \<in> set ?offs. p + 4 \<le> length r"
      unfolding offs that by (auto elim!: dvdE)
    ultimately show ?thesis using low_sum by metis
  qed
  have "distinct (map (\<lambda>p. p + 2) ?offs)"
    by (auto simp: distinct_map distinct_grid grid_set inj_on_def)
  moreover have "\<forall>p \<in> set (map (\<lambda>p. p + 2) ?offs). 2 dvd p"
    unfolding set_map offs by (auto elim!: dvdE)
  moreover have "0x7fffa \<in> set (map (\<lambda>p. p + 2) ?offs)"
    unfolding set_map offs by (rule image_eqI [of _ _ "0x7fff8"]) auto
  ultimately show ?thesis
    using s16.rebalance_reaches [of "map (\<lambda>p. p + 2) ?offs" "0x7fffa" rom "0x5aa5"] assms sum
    by (simp add: RebalanceU16Be_eq)
qed

lemma HitachiM32rCan_data:
  "rom_data (HitachiM32rCan_CalculateChecksumResult rom) =
     (let f12 = FoldU32Be [subspan rom 0x6000 0x2000];
          rom12 = WriteU32Be (WriteU32Be rom 0x7ffe8 (fold_sum f12)) 0x7ffec (fold_xor f12);
          f34 = FoldU32Be [take 0x10000 rom12, subspan rom12 0x10004 0x6ffec];
          rom34 = WriteU32Be (WriteU32Be rom12 0x7fff0 (fold_sum f34)) 0x7fff4 (fold_xor f34)
      in RebalanceU16Be rom34 0x7fffa
           (ucast (fold_sum (FoldU32Be [subspan rom34 0x4000 0xc000, drop 0x10004 rom34])) :: u16) 0x5aa5)"
proof -
  define f12 where "f12 = FoldU32Be [subspan rom 0x6000 0x2000]"
  define s12 where "s12 = fix_u32 0x7ffec (fold_xor f12) (ReadU32Be rom 0x7ffec)
    (fix_u32 0x7ffe8 (fold_sum f12) (ReadU32Be rom 0x7ffe8) (True, rom))"
  define f34 where "f34 = FoldU32Be [take 0x10000 (snd s12), subspan (snd s12) 0x10004 0x6ffec]"
  define s34 where "s34 = fix_u32 0x7fff4 (fold_xor f34) (ReadU32Be (snd s12) 0x7fff4)
    (fix_u32 0x7fff0 (fold_sum f34) (ReadU32Be (snd s12) 0x7fff0) s12)"
  have r12: "snd s12 = WriteU32Be (WriteU32Be rom 0x7ffe8 (fold_sum f12)) 0x7ffec (fold_xor f12)"
    using fix_u32_two [of "0x7ffe8" "0x7ffec" _ "(True, rom)"] by (simp add: s12_def)
  have r34: "snd s34 = WriteU32Be (WriteU32Be (snd s12) 0x7fff0 (fold_sum f34)) 0x7fff4 (fold_xor f34)"
    unfolding s34_def by (rule fix_u32_two) simp
  have "rom_data (HitachiM32rCan_CalculateChecksumResult rom) = RebalanceU16Be (snd s34) 0x7fffa
      (ucast (fold_sum (FoldU32Be [subspan (snd s34) 0x4000 0xc000, drop 0x10004 (snd s34)])) :: u16) 0x5aa5"
    unfolding HitachiM32rCan_CalculateChecksumResult_def Let_def f12_def [symmetric] s12_def [symmetric]
      f34_def [symmetric] s34_def [symmetric] rebalance_if16
    by (simp split: prod.split)
  then show ?thesis by (simp only: Let_def r34 f34_def r12 f12_def)
qed

lemma HitachiM32rCan_reaches:
  assumes "length rom = 0x80000"
  shows "HitachiM32rCan_valid (rom_data (HitachiM32rCan_CalculateChecksumResult rom))"
proof -
  define f12 where "f12 = FoldU32Be [subspan rom 0x6000 0x2000]"
  define rom12 where "rom12 = WriteU32Be (WriteU32Be rom 0x7ffe8 (fold_sum f12)) 0x7ffec (fold_xor f12)"
  define f34 where "f34 = FoldU32Be [take 0x10000 rom12, subspan rom12 0x10004 0x6ffec]"
  define rom34 where "rom34 = WriteU32Be (WriteU32Be rom12 0x7fff0 (fold_sum f34)) 0x7fff4 (fold_xor f34)"
  define c where "c = (ucast (fold_sum (FoldU32Be [subspan rom34 0x4000 0xc000, drop 0x10004 rom34])) :: u16)"
  define w where "w = ReadU16Be rom34 0x7fffa + 0x5aa5 - c"
  have out: "rom_data (HitachiM32rCan_CalculateChecksumResult rom) = WriteU16Be rom34 0x7fffa w"
    by (simp add: HitachiM32rCan_data Let_def f12_def rom12_def f34_def rom34_def c_def w_def RebalanceU16Be_eq)
  have len: "length rom12 = 0x80000" "length rom34 = 0x80000" using assms by (simp_all add: rom12_def rom34_def)
  have "FoldU32Be [subspan (WriteU16Be rom34 0x7fffa w) 0x6000 0x2000] = f12"
    by (simp add: frame_simps rom34_def rom12_def f12_def)
  moreover have "FoldU32Be [take 0x10000 (WriteU16Be rom34 0x7fffa w), subspan (WriteU16Be rom34 0x7fffa w) 0x10004 0x6ffec] = f34"
    by (simp add: frame_simps rom34_def f34_def)
  moreover have "ReadU32Be (WriteU16Be rom34 0x7fffa w) 0x7ffe8 = fold_sum f12"
      "ReadU32Be (WriteU16Be rom34 0x7fffa w) 0x7ffec = fold_xor f12"
    using assms by (simp_all add: frame_simps rom34_def rom12_def u32be.rd_wr_same)
  moreover have "ReadU32Be (WriteU16Be rom34 0x7fffa w) 0x7fff0 = fold_sum f34"
      "ReadU32Be (WriteU16Be rom34 0x7fffa w) 0x7fff4 = fold_xor f34"
    using len(1) by (simp_all add: frame_simps rom34_def u32be.rd_wr_same)
  moreover have "(ucast (fold_sum (FoldU32Be [subspan (WriteU16Be rom34 0x7fffa w) 0x4000 0xc000,
      drop 0x10004 (WriteU16Be rom34 0x7fffa w)])) :: u16) = 0x5aa5"
    by (rule M32rCan_rebalanced [OF len(2) c_def]) (simp add: w_def RebalanceU16Be_eq)
  ultimately show ?thesis by (simp add: out HitachiM32rCan_valid_def)
qed

lemma HitachiM32rCan_fixed:
  assumes "HitachiM32rCan_valid rom"
  shows "rom_data (HitachiM32rCan_CalculateChecksumResult rom) = rom"
  using assms
  by (simp add: HitachiM32rCan_data HitachiM32rCan_valid_def Let_def u32be.wr_rd_same u16be.wr_rd_same RebalanceU16Be_eq)

lemma HitachiM32rCan_length [simp]: "length (rom_data (HitachiM32rCan_CalculateChecksumResult rom)) = length rom"
  by (simp add: HitachiM32rCan_data Let_def)

interpretation m32r_can: checksum_family HitachiM32rCan_CalculateChecksumResult
  "\<lambda>rom. length rom = 0x80000" HitachiM32rCan_valid
  by unfold_locales (simp_all add: HitachiM32rCan_reaches HitachiM32rCan_fixed)

subsection \<open>Hitachi SH7058\<close>

definition HitachiSH7058_valid :: "bytes \<Rightarrow> bool" where
  "HitachiSH7058_valid rom \<longleftrightarrow>
     fold_sum (FoldU32Be [subspan rom 0x18400 0x5c00]) = ReadU32Be rom 0xfffe8 \<and>
     fold_xor (FoldU32Be [subspan rom 0x18400 0x5c00]) = ReadU32Be rom 0xfffec \<and>
     fold_sum (FoldU32Be [subspan rom 0x4000 0xfbff0, drop 0xffff8 rom]) = 0x5aa5a55a \<and>
     fold_sum (FoldU32Be [take 0xffff0 rom, drop 0xffff8 rom]) = ReadU32Be rom 0xffff0 \<and>
     fold_xor (FoldU32Be [take 0xffff0 rom, drop 0xffff8 rom]) = ReadU32Be rom 0xffff4"

lemma SH7058_sum5:
  assumes "length rom = 0x100000"
  shows "fold_sum (FoldU32Be [subspan (WriteU32Be rom 0xffff8 v) 0x4000 0xfbff0, drop 0xffff8 (WriteU32Be rom 0xffff8 v)]) =
    fold_sum (FoldU32Be [subspan rom 0x4000 0xfbff0, drop 0xffff8 rom]) - ReadU32Be rom 0xffff8 + v"
proof -
  let ?offs = "grid 4 0x4000 0xfbff0 @ grid 4 0xffff8 8"
  have offs: "set ?offs = {p. 4 dvd p \<and> (0x4000 \<le> p \<and> p < 0xffff0 \<or> 0xffff8 \<le> p \<and> p < 0x100000)}"
    by (auto simp: grid_set)
  have sum: "fold_sum (FoldU32Be [subspan r 0x4000 0xfbff0, drop 0xffff8 r]) = sum_list (map (ReadU32Be r) ?offs)"
    if "length r = 0x100000" for r
    using that by (simp add: window_words)
  have "distinct ?offs" by (auto simp: distinct_grid grid_set)
  moreover have "\<forall>p \<in> set ?offs. 4 dvd p" "0xffff8 \<in> set ?offs" unfolding offs by auto
  ultimately show ?thesis
    using s32.window_wr_slot [of ?offs "0xffff8" rom v] assms sum by simp
qed

lemma HitachiSH7058_data:
  "rom_data (HitachiSH7058_CalculateChecksumResult rom) =
     (let f12 = FoldU32Be [subspan rom 0x18400 0x5c00];
          rom12 = WriteU32Be (WriteU32Be rom 0xfffe8 (fold_sum f12)) 0xfffec (fold_xor f12);
          rom5 = RebalanceU32Be rom12 0xffff8
            (fold_sum (FoldU32Be [subspan rom12 0x4000 0xfbff0, drop 0xffff8 rom12])) 0x5aa5a55a;
          f34 = FoldU32Be [take 0xffff0 rom5, drop 0xffff8 rom5]
      in WriteU32Be (WriteU32Be rom5 0xffff0 (fold_sum f34)) 0xffff4 (fold_xor f34))"
proof -
  have two: "snd (fix_u32 0xffff4 w (ReadU32Be r 0xffff4) (fix_u32 0xffff0 v (ReadU32Be r 0xffff0) (b, r))) =
      WriteU32Be (WriteU32Be r 0xffff0 v) 0xffff4 w" for r b v w
    using fix_u32_two [of "0xffff0" "0xffff4" w "(b, r)" v] by simp
  show ?thesis
    using fix_u32_two [of "0xfffe8" "0xfffec" _ "(True, rom)"]
    by (simp add: HitachiSH7058_CalculateChecksumResult_def Let_def rebalance_if32 two)
qed

lemma HitachiSH7058_reaches:
  assumes "length rom = 0x100000"
  shows "HitachiSH7058_valid (rom_data (HitachiSH7058_CalculateChecksumResult rom))"
proof -
  define f12 where "f12 = FoldU32Be [subspan rom 0x18400 0x5c00]"
  define rom12 where "rom12 = WriteU32Be (WriteU32Be rom 0xfffe8 (fold_sum f12)) 0xfffec (fold_xor f12)"
  define c where "c = fold_sum (FoldU32Be [subspan rom12 0x4000 0xfbff0, drop 0xffff8 rom12])"
  define w where "w = ReadU32Be rom12 0xffff8 + 0x5aa5a55a - c"
  define rom5 where "rom5 = WriteU32Be rom12 0xffff8 w"
  define f34 where "f34 = FoldU32Be [take 0xffff0 rom5, drop 0xffff8 rom5]"
  define out where "out = WriteU32Be (WriteU32Be rom5 0xffff0 (fold_sum f34)) 0xffff4 (fold_xor f34)"
  have data: "rom_data (HitachiSH7058_CalculateChecksumResult rom) = out"
    by (simp add: HitachiSH7058_data Let_def out_def f34_def rom5_def w_def c_def rom12_def f12_def RebalanceU32Be_def)
  have len: "length rom12 = 0x100000" "length rom5 = 0x100000" using assms by (simp_all add: rom12_def rom5_def)
  have "FoldU32Be [subspan out 0x18400 0x5c00] = f12"
    by (simp add: frame_simps out_def rom5_def rom12_def f12_def)
  moreover have "ReadU32Be out 0xfffe8 = fold_sum f12" "ReadU32Be out 0xfffec = fold_xor f12"
    using assms by (simp_all add: frame_simps out_def rom5_def rom12_def u32be.rd_wr_same)
  moreover have "FoldU32Be [take 0xffff0 out, drop 0xffff8 out] = f34"
    by (simp add: frame_simps out_def f34_def)
  moreover have "ReadU32Be out 0xffff0 = fold_sum f34" "ReadU32Be out 0xffff4 = fold_xor f34"
    using len by (simp_all add: frame_simps out_def u32be.rd_wr_same)
  moreover have "fold_sum (FoldU32Be [subspan out 0x4000 0xfbff0, drop 0xffff8 out]) = 0x5aa5a55a"
    using SH7058_sum5 [OF len(1), of w] by (simp add: frame_simps out_def rom5_def w_def c_def)
  ultimately show ?thesis by (simp add: data HitachiSH7058_valid_def)
qed

lemma HitachiSH7058_fixed:
  assumes "HitachiSH7058_valid rom"
  shows "rom_data (HitachiSH7058_CalculateChecksumResult rom) = rom"
  using assms
  by (simp add: HitachiSH7058_data HitachiSH7058_valid_def Let_def u32be.wr_rd_same RebalanceU32Be_def)

lemma HitachiSH7058_length [simp]: "length (rom_data (HitachiSH7058_CalculateChecksumResult rom)) = length rom"
  by (simp add: HitachiSH7058_data Let_def)

interpretation sh7058: checksum_family HitachiSH7058_CalculateChecksumResult
  "\<lambda>rom. length rom = 0x100000" HitachiSH7058_valid
  by unfold_locales (simp_all add: HitachiSH7058_reaches HitachiSH7058_fixed)

text \<open>A valid ROM whose balance word alone was disturbed is repaired, but reported as unchanged.\<close>

lemma HitachiSH7058_silent_repair:
  assumes "length rom = 0x100000" and "HitachiSH7058_valid rom"
  shows "HitachiSH7058_CalculateChecksumResult (WriteU32Be rom 0xffff8 v) =
    \<lparr>status = kUnchanged, rom_data = rom, message = ''''\<rparr>"
proof -
  let ?in = "WriteU32Be rom 0xffff8 v"
  have v: "fold_sum (FoldU32Be [subspan rom 0x18400 0x5c00]) = ReadU32Be rom 0xfffe8"
     "fold_xor (FoldU32Be [subspan rom 0x18400 0x5c00]) = ReadU32Be rom 0xfffec"
     "fold_sum (FoldU32Be [subspan rom 0x4000 0xfbff0, drop 0xffff8 rom]) = 0x5aa5a55a"
     "fold_sum (FoldU32Be [take 0xffff0 rom, drop 0xffff8 rom]) = ReadU32Be rom 0xffff0"
     "fold_xor (FoldU32Be [take 0xffff0 rom, drop 0xffff8 rom]) = ReadU32Be rom 0xffff4"
    using assms(2) by (simp_all add: HitachiSH7058_valid_def)
  have win: "subspan ?in 0x18400 0x5c00 = subspan rom 0x18400 0x5c00"
     "ReadU32Be ?in 0xfffe8 = ReadU32Be rom 0xfffe8" "ReadU32Be ?in 0xfffec = ReadU32Be rom 0xfffec"
    by (simp_all add: frame_simps)
  have s12: "fix_u32 0xfffec (fold_xor (FoldU32Be [subspan ?in 0x18400 0x5c00])) (ReadU32Be ?in 0xfffec)
      (fix_u32 0xfffe8 (fold_sum (FoldU32Be [subspan ?in 0x18400 0x5c00])) (ReadU32Be ?in 0xfffe8) (True, ?in)) = (True, ?in)"
    using v by (simp add: win fix_u32_def)
  have "ReadU32Be ?in 0xffff8 = v" using assms(1) by (simp add: u32be.rd_wr_same)
  then have rom5: "RebalanceU32Be ?in 0xffff8
      (fold_sum (FoldU32Be [subspan ?in 0x4000 0xfbff0, drop 0xffff8 ?in])) 0x5aa5a55a = rom"
    unfolding RebalanceU32Be_def Let_def SH7058_sum5 [OF assms(1)] v(3)
    by (simp add: u32be.wr_wr_same u32be.wr_rd_same)
  have s34: "fix_u32 0xffff4 (fold_xor (FoldU32Be [take 0xffff0 rom, drop 0xffff8 rom])) (ReadU32Be rom 0xffff4)
      (fix_u32 0xffff0 (fold_sum (FoldU32Be [take 0xffff0 rom, drop 0xffff8 rom])) (ReadU32Be rom 0xffff0) (True, rom)) = (True, rom)"
    using v by (simp add: fix_u32_def)
  show ?thesis
    unfolding HitachiSH7058_CalculateChecksumResult_def Let_def rebalance_if32 s12 fst_conv snd_conv rom5 s34
    by simp
qed

subsection \<open>Single-slot families\<close>

text \<open>Hitachi SH72543R: the 16-bit sum from 0x6000 on.\<close>

definition HitachiSh72543r_valid :: "bytes \<Rightarrow> bool" where
  "HitachiSh72543r_valid rom \<longleftrightarrow> SumU16Be [drop 0x6000 rom] = 0x5aa5"

lemma HitachiSh72543r_data:
  "rom_data (HitachiSh72543r_CalculateChecksumResult rom) =
     RebalanceU16Be rom 0x1ffffe (SumU16Be [drop 0x6000 rom]) 0x5aa5"
  by (auto simp: HitachiSh72543r_CalculateChecksumResult_def Let_def RebalanceU16Be_eq u16be.wr_rd_same)

interpretation sh72543r: checksum_family HitachiSh72543r_CalculateChecksumResult
  "\<lambda>rom. length rom = 0x200000" HitachiSh72543r_valid
proof
  fix rom :: bytes assume len: "length rom = 0x200000"
  let ?offs = "grid 2 0x6000 0x1fa000"
  have sum: "SumU16Be [drop 0x6000 r] = sum_list (map (ReadU16Be r) ?offs)" if "length r = 0x200000" for r
    using that by (simp add: window_words)
  have "distinct ?offs" "\<forall>p \<in> set ?offs. 2 dvd p" "0x1ffffe \<in> set ?offs" by (auto simp: distinct_grid grid_set)
  then show "HitachiSh72543r_valid (rom_data (HitachiSh72543r_CalculateChecksumResult rom))"
    using s16.rebalance_reaches [of ?offs "0x1ffffe" rom "0x5aa5"] len sum
    by (simp add: HitachiSh72543r_valid_def HitachiSh72543r_data RebalanceU16Be_eq)
qed (auto simp: HitachiSh72543r_valid_def HitachiSh72543r_data RebalanceU16Be_eq u16be.wr_rd_same)

text \<open>Mitsubishi MH8104: the 32-bit sum from 0x8000 on, offset by a constant.\<close>

definition MitsuMH8104Can_valid :: "bytes \<Rightarrow> bool" where
  "MitsuMH8104Can_valid rom \<longleftrightarrow> mh8104_checksum rom = 0x5aa45aab"

lemma MitsuMH8104Can_data:
  "rom_data (MitsuMH8104Can_CalculateChecksumResult rom) = RebalanceU32Be rom 0x81fc (mh8104_checksum rom) 0x5aa45aab"
  by (auto simp: MitsuMH8104Can_CalculateChecksumResult_def Let_def RebalanceU32Be_def u32be.wr_rd_same)

interpretation mh8104: checksum_family MitsuMH8104Can_CalculateChecksumResult
  "\<lambda>rom. length rom = 0x80000" MitsuMH8104Can_valid
proof
  fix rom :: bytes assume len: "length rom = 0x80000"
  let ?offs = "grid 4 0x8000 0x78000"
  have sum: "mh8104_checksum r = sum_list (map (ReadU32Be r) ?offs) - 0xffff + 5" if "length r = 0x80000" for r
    using that by (simp add: window_words mh8104_checksum_def)
  have "distinct ?offs" "\<forall>p \<in> set ?offs. 4 dvd p" "0x81fc \<in> set ?offs" by (auto simp: distinct_grid grid_set)
  then have "mh8104_checksum (WriteU32Be rom 0x81fc v) = mh8104_checksum rom - ReadU32Be rom 0x81fc + v" for v
    using s32.window_wr_slot [of ?offs "0x81fc" rom v] len sum by simp
  then show "MitsuMH8104Can_valid (rom_data (MitsuMH8104Can_CalculateChecksumResult rom))"
    by (simp add: MitsuMH8104Can_valid_def MitsuMH8104Can_data RebalanceU32Be_def)
qed (auto simp: MitsuMH8104Can_valid_def MitsuMH8104Can_data RebalanceU32Be_def u32be.wr_rd_same)

text \<open>Denso SH7055 TCU: the 16-bit sum of twelve areas.\<close>

definition DensoSH7055_valid :: "bytes \<Rightarrow> bool" where
  "DensoSH7055_valid rom \<longleftrightarrow>
     SumU16Be (map (\<lambda>(start, word_count). subspan rom start (2 * word_count)) kChecksumAreas) = 0x5aa5"

lemma DensoSH7055_data:
  "rom_data (DensoSH7055_CalculateChecksumResult rom) =
     RebalanceU16Be rom 0x7fff4
       (SumU16Be (map (\<lambda>(start, word_count). subspan rom start (2 * word_count)) kChecksumAreas)) 0x5aa5"
  by (auto simp: DensoSH7055_CalculateChecksumResult_def Let_def RebalanceU16Be_eq u16be.wr_rd_same)

definition sh7055_offsets :: "nat list" where
  "sh7055_offsets = concat (map (\<lambda>(start, n). grid 2 start (2 * n)) kChecksumAreas)"

lemma sh7055_offsets_facts:
  "distinct sh7055_offsets" "\<forall>p \<in> set sh7055_offsets. 2 dvd p" "0x7fff4 \<in> set sh7055_offsets"
  by (simp_all add: sh7055_offsets_def kChecksumAreas_def distinct_grid grid_set) auto

interpretation sh7055_tcu: checksum_family DensoSH7055_CalculateChecksumResult
  "\<lambda>rom. length rom = 0x80000" DensoSH7055_valid
proof
  fix rom :: bytes assume len: "length rom = 0x80000"
  have sum: "SumU16Be (map (\<lambda>(start, n). subspan r start (2 * n)) kChecksumAreas) =
      sum_list (map (ReadU16Be r) sh7055_offsets)" if "length r = 0x80000" for r
    using that by (simp add: window_words kChecksumAreas_def sh7055_offsets_def)
  show "DensoSH7055_valid (rom_data (DensoSH7055_CalculateChecksumResult rom))"
    using s16.rebalance_reaches [OF sh7055_offsets_facts, of rom "0x5aa5"] len sum
    by (simp add: DensoSH7055_valid_def DensoSH7055_data RebalanceU16Be_eq)
qed (auto simp: DensoSH7055_valid_def DensoSH7055_data RebalanceU16Be_eq u16be.wr_rd_same)

subsection \<open>Mitsubishi M32R CAN\<close>

text \<open>The layout holds when the area code names an area inside the ROM; the slot lies in every
  area and outside the correction words and the area code.\<close>

definition MitsuM32rCan_layout :: "bytes \<Rightarrow> bool" where
  "MitsuM32rCan_layout rom \<longleftrightarrow> kLayoutEnd \<le> length rom \<and>
     (\<exists>e. AreaEndFor (rom ! kAreaCodeOffset) = Some e \<and> e \<le> length rom)"

definition MitsuM32rCan_valid :: "bytes \<Rightarrow> bool" where
  "MitsuM32rCan_valid rom \<longleftrightarrow>
     (\<forall>e. AreaEndFor (rom ! kAreaCodeOffset) = Some e \<longrightarrow> mitsu_m32r_checksum rom e = kTargetChecksum)"

lemma AreaEndFor_bounds: "AreaEndFor code = Some e \<Longrightarrow> 0x40000 \<le> e \<and> 4 dvd e"
  by (auto simp: AreaEndFor_def kAreaCodes_def split: if_splits)

lemma mitsu_m32r_checksum_slot:
  assumes "e \<le> length rom" and "0x40000 \<le> e" and "4 dvd e"
  shows "mitsu_m32r_checksum (WriteU32Be rom kBalanceSlot v) e =
    mitsu_m32r_checksum rom e - ReadU32Be rom kBalanceSlot + v"
proof -
  have sum: "fold_sum (FoldU32Be [take e r]) = sum_list (map (ReadU32Be r) (grid 4 0 e))" if "length r = length rom" for r
    using that assms(1) by (simp add: window_words)
  have "distinct (grid 4 0 e)" "\<forall>p \<in> set (grid 4 0 e). 4 dvd p" "kBalanceSlot \<in> set (grid 4 0 e)"
    using assms by (auto simp: distinct_grid grid_set kBalanceSlot_def)
  then have "fold_sum (FoldU32Be [take e (WriteU32Be rom kBalanceSlot v)]) =
      fold_sum (FoldU32Be [take e rom]) - ReadU32Be rom kBalanceSlot + v"
    using s32.window_wr_slot [of "grid 4 0 e" kBalanceSlot rom v] assms sum by (simp add: kBalanceSlot_def)
  then show ?thesis
    by (simp add: mitsu_m32r_checksum_def Let_def kBalanceSlot_def kCorrectionWords_def kCorrectionWordCount_def
        frame_simps upt_rec algebra_simps)
qed

lemma MitsuM32rCan_data:
  assumes "MitsuM32rCan_layout rom" and "AreaEndFor (rom ! kAreaCodeOffset) = Some e"
  shows "rom_data (MitsuM32rCan_CalculateChecksumResult rom) =
    WriteU32Be rom kBalanceSlot (ReadU32Be rom kBalanceSlot + kTargetChecksum - mitsu_m32r_checksum rom e)"
  using assms
  by (auto simp: MitsuM32rCan_CalculateChecksumResult_def MitsuM32rCan_layout_def Let_def RebalanceU32Be_def
      u32be.wr_rd_same)

interpretation mitsu_m32r: checksum_family MitsuM32rCan_CalculateChecksumResult
  MitsuM32rCan_layout MitsuM32rCan_valid
proof
  fix rom :: bytes assume lay: "MitsuM32rCan_layout rom"
  then obtain e where e: "AreaEndFor (rom ! kAreaCodeOffset) = Some e" "e \<le> length rom"
    by (auto simp: MitsuM32rCan_layout_def)
  note data = MitsuM32rCan_data [OF lay e(1)] and area = AreaEndFor_bounds [OF e(1)]
  have code: "WriteU32Be rom kBalanceSlot v ! kAreaCodeOffset = rom ! kAreaCodeOffset" for v
    using area e(2) by (intro u32be.nth_wr_other) (auto simp: kBalanceSlot_def kAreaCodeOffset_def)
  show "length (rom_data (MitsuM32rCan_CalculateChecksumResult rom)) = length rom" by (simp add: data)
  show "MitsuM32rCan_layout (rom_data (MitsuM32rCan_CalculateChecksumResult rom))"
    using lay by (simp add: data MitsuM32rCan_layout_def code)
  show "MitsuM32rCan_valid (rom_data (MitsuM32rCan_CalculateChecksumResult rom))"
    using mitsu_m32r_checksum_slot [OF e(2)] area e(1) by (simp add: data MitsuM32rCan_valid_def code)
  show "MitsuM32rCan_valid rom \<Longrightarrow> rom_data (MitsuM32rCan_CalculateChecksumResult rom) = rom"
    using e(1) by (simp add: data MitsuM32rCan_valid_def u32be.wr_rd_same)
qed

subsection \<open>Hitachi M32R CAN TCU\<close>

text \<open>The checksum-2 field determines the sum it encodes.\<close>

definition field_of_sum :: "u32 \<Rightarrow> u32" where
  "field_of_sum s =
     ReadU32Le [ucast (0x100 - (s AND 0xff)), ucast (0xff - (drop_bit 8 s AND 0xff)),
       ucast (0xff - (drop_bit 16 s AND 0xff)), ucast (0xff - (drop_bit 24 s AND 0xff))] 0"

lemma Checksum2Field_sum:
  "Checksum2Field rom = field_of_sum (fold_sum (FoldU32Be [take 0x8000 rom, drop 0x8008 rom]))"
  by (simp add: Checksum2Field_def field_of_sum_def Let_def)

lemma word_bytes_eq:
  assumes "(ucast (drop_bit 24 s) :: u8) = ucast (drop_bit 24 t)" and "(ucast (drop_bit 16 s) :: u8) = ucast (drop_bit 16 t)"
    and "(ucast (drop_bit 8 s) :: u8) = ucast (drop_bit 8 t)" and "(ucast s :: u8) = ucast t"
  shows "s = (t :: u32)"
proof -
  have "AppendU32Be [] s = AppendU32Be [] t" using assms by (simp add: AppendU32Be_def)
  then show ?thesis using u32be.dec_enc by (metis id_apply)
qed

lemma field_of_sum_inj: "field_of_sum s = field_of_sum t \<Longrightarrow> s = t"
proof -
  assume eq: "field_of_sum s = field_of_sum t"
  let ?bytes = "\<lambda>s :: u32. [ucast (0x100 - (s AND 0xff)), ucast (0xff - (drop_bit 8 s AND 0xff)),
       ucast (0xff - (drop_bit 16 s AND 0xff)), ucast (0xff - (drop_bit 24 s AND 0xff))] :: bytes"
  have "?bytes s = ?bytes t"
    using arg_cong [OF eq, of "AppendU32Le []"] u32le.enc_dec [of "?bytes s"] u32le.enc_dec [of "?bytes t"]
    by (simp add: field_of_sum_def)
  then show "s = t"
    by (intro word_bytes_eq) (simp_all add: ucast_diff_narrow)
qed

lemma TcuHitachi_checksum1_slot:
  assumes "length rom \<ge> 0x8024" and "length rom mod 4 = 0"
  shows "fold_sum (FoldU32Be [drop 0x8020 (WriteU32Be rom 0x8020 v)]) =
      fold_sum (FoldU32Be [drop 0x8020 rom]) - ReadU32Be rom 0x8020 + v"
    and "fold_sum (FoldU32Be [take 0x8000 (WriteU32Be rom 0x8020 v), drop 0x8008 (WriteU32Be rom 0x8020 v)]) =
      fold_sum (FoldU32Be [take 0x8000 rom, drop 0x8008 rom]) - ReadU32Be rom 0x8020 + v"
proof -
  let ?a = "grid 4 0x8020 (length rom - 0x8020)" and ?b = "grid 4 0 0x8000 @ grid 4 0x8008 (length rom - 0x8008)"
  have dvd: "4 dvd length rom - 0x8020" "4 dvd length rom - 0x8008"
    using assms by (simp_all add: mod_eq_0_iff_dvd dvd_diff_nat)
  have "fold_sum (FoldU32Be [drop 0x8020 r]) = sum_list (map (ReadU32Be r) ?a)"
    "fold_sum (FoldU32Be [take 0x8000 r, drop 0x8008 r]) = sum_list (map (ReadU32Be r) ?b)"
    if "length r = length rom" for r
    using that assms by (simp_all add: window_words)
  moreover have "distinct ?a" "\<forall>p \<in> set ?a. 4 dvd p" "0x8020 \<in> set ?a"
    using assms dvd by (auto simp: distinct_grid grid_set)
  moreover have "distinct ?b" "\<forall>p \<in> set ?b. 4 dvd p" "0x8020 \<in> set ?b"
    using assms dvd by (auto simp: distinct_grid grid_set)
  ultimately show "fold_sum (FoldU32Be [drop 0x8020 (WriteU32Be rom 0x8020 v)]) =
      fold_sum (FoldU32Be [drop 0x8020 rom]) - ReadU32Be rom 0x8020 + v"
    and "fold_sum (FoldU32Be [take 0x8000 (WriteU32Be rom 0x8020 v), drop 0x8008 (WriteU32Be rom 0x8020 v)]) =
      fold_sum (FoldU32Be [take 0x8000 rom, drop 0x8008 rom]) - ReadU32Be rom 0x8020 + v"
    using s32.window_wr_slot [of ?a "0x8020" rom v] s32.window_wr_slot [of ?b "0x8020" rom v] assms(1) by simp_all
qed

definition TcuHitachi_valid1 :: "bytes \<Rightarrow> bool" where
  "TcuHitachi_valid1 rom \<longleftrightarrow> fold_sum (FoldU32Be [drop 0x8020 rom]) = 0x5aa5a55a"

definition TcuHitachi_valid2 :: "bytes \<Rightarrow> bool" where
  "TcuHitachi_valid2 rom \<longleftrightarrow> ReadU32Be rom 0x8000 = Checksum2Field rom"

lemma TcuHitachi_outcome:
  assumes "length rom \<ge> 0x8024" and "length rom mod 4 = 0"
    and "out = rom_data (TcuHitachiM32rCan_CalculateChecksumResult rom)"
  shows "TcuHitachi_valid1 out"
    and "TcuHitachi_valid2 out \<longleftrightarrow> TcuHitachi_valid1 rom \<or> \<not> TcuHitachi_valid2 rom"
proof -
  define c where "c = fold_sum (FoldU32Be [drop 0x8020 rom])"
  define v where "v = ReadU32Be rom 0x8020 + 0x5aa5a55a - c"
  define rom1 where "rom1 = WriteU32Be rom 0x8020 v"
  define f where "f = Checksum2Field rom1"
  have len: "length rom1 = length rom" by (simp add: rom1_def)
  have out: "out = (if Checksum2Field rom \<noteq> ReadU32Be rom 0x8000
      then WriteU32Be (WriteU32Be rom1 0x8000 f) 0x8004 f else rom1)"
  proof -
    have s1: "(if c \<noteq> 0x5aa5a55a then (False, RebalanceU32Be rom 0x8020 c 0x5aa5a55a) else (True, rom)) =
        (c = 0x5aa5a55a, rom1)"
      by (auto simp: rom1_def v_def RebalanceU32Be_def u32be.wr_rd_same)
    have fits: "(length rom < 0x8024 \<or> length rom mod 4 \<noteq> 0) = False" using assms(1,2) by simp
    show ?thesis
      unfolding assms(3) TcuHitachiM32rCan_CalculateChecksumResult_def Let_def fits if_False
        c_def [symmetric] s1 snd_conv f_def [symmetric]
      by simp
  qed
  have one: "fold_sum (FoldU32Be [drop 0x8020 rom1]) = 0x5aa5a55a"
    using TcuHitachi_checksum1_slot(1) [OF assms(1,2), of v] by (simp add: rom1_def v_def c_def)
  then show "TcuHitachi_valid1 out" by (auto simp: out TcuHitachi_valid1_def frame_simps)
  have two: "fold_sum (FoldU32Be [take 0x8000 rom1, drop 0x8008 rom1]) =
      fold_sum (FoldU32Be [take 0x8000 rom, drop 0x8008 rom]) + (0x5aa5a55a - c)"
    using TcuHitachi_checksum1_slot(2) [OF assms(1,2), of v] by (simp add: rom1_def v_def)
  then have same: "f = Checksum2Field rom \<longleftrightarrow> c = 0x5aa5a55a"
    by (auto simp: f_def Checksum2Field_sum dest!: field_of_sum_inj)
  show "TcuHitachi_valid2 out \<longleftrightarrow> TcuHitachi_valid1 rom \<or> \<not> TcuHitachi_valid2 rom"
  proof (cases "Checksum2Field rom = ReadU32Be rom 0x8000")
    case True
    have "ReadU32Be rom1 0x8000 = ReadU32Be rom 0x8000" by (simp add: rom1_def frame_simps)
    with True same show ?thesis by (auto simp: out TcuHitachi_valid2_def TcuHitachi_valid1_def f_def c_def)
  next
    case False
    have "Checksum2Field (WriteU32Be (WriteU32Be rom1 0x8000 f) 0x8004 f) = f"
      by (simp add: Checksum2Field_def frame_simps f_def)
    moreover have "ReadU32Be (WriteU32Be (WriteU32Be rom1 0x8000 f) 0x8004 f) 0x8000 = f"
      using assms(1) len by (simp add: frame_simps u32be.rd_wr_same)
    ultimately show ?thesis using False by (simp add: out TcuHitachi_valid2_def)
  qed
qed

subsection \<open>Hitachi M32R K-Line\<close>

text \<open>The 8-bit checksums as sums over the indices they read.\<close>

lemma sum_xor8_eq:
  "sum_xor8 rom lo hi =
     (sum_list (map (nth rom) (filter (\<lambda>i. i < lo \<or> i > hi) [0..<length rom])),
      fold (\<lambda>b x. x XOR b) (map (nth rom) (filter (\<lambda>i. i < lo \<or> i > hi) [0..<length rom])) 0)"
proof -
  have "fold (\<lambda>i (s, x). if i < lo \<or> i > hi then (s + rom ! i, x XOR rom ! i) else (s, x)) is (s, x) =
    (s + sum_list (map (nth rom) (filter (\<lambda>i. i < lo \<or> i > hi) is)),
     fold (\<lambda>b x. x XOR b) (map (nth rom) (filter (\<lambda>i. i < lo \<or> i > hi) is)) x)" for "is" s x
    by (induction "is" arbitrary: s x) (auto simp: add.assoc)
  then show ?thesis by (simp add: sum_xor8_def)
qed

lemma sum_xor8_update_inside:
  assumes "lo \<le> i" and "i \<le> hi"
  shows "sum_xor8 (rom[i := v]) lo hi = sum_xor8 rom lo hi"
proof -
  have "map (nth (rom[i := v])) (filter (\<lambda>i. i < lo \<or> i > hi) is) = map (nth rom) (filter (\<lambda>i. i < lo \<or> i > hi) is)" for "is"
    using assms by (auto simp: nth_list_update)
  then show ?thesis by (simp only: sum_xor8_eq length_list_update)
qed

definition Kline_balanced :: "bytes \<Rightarrow> bool" where
  "Kline_balanced rom \<longleftrightarrow>
     (ucast (fold_sum (FoldU32Be [subspan rom 0x4000 0x4100, drop 0x8104 rom])) :: u16) = 0x5aa5"

definition Kline_sums_valid :: "bytes \<Rightarrow> bool" where
  "Kline_sums_valid rom \<longleftrightarrow> sum_xor8 rom 0x8100 0x8101 = (rom ! 0x8100, rom ! 0x8101)"

lemma Kline_rebalanced:
  assumes "length rom = 0x80000"
    and "c = (ucast (fold_sum (FoldU32Be [subspan rom 0x4000 0x4100, drop 0x8104 rom])) :: u16)"
  shows "Kline_balanced (RebalanceU16Be rom 0x7fffa c 0x5aa5)"
proof -
  let ?offs = "grid 4 0x4000 0x4100 @ grid 4 0x8104 0x77efc"
  have offs: "set ?offs = {p. 4 dvd p \<and> (0x4000 \<le> p \<and> p < 0x8100 \<or> 0x8104 \<le> p \<and> p < 0x80000)}"
    by (auto simp: grid_set)
  have sum: "(ucast (fold_sum (FoldU32Be [subspan r 0x4000 0x4100, drop 0x8104 r])) :: u16) =
      sum_list (map (ReadU16Be r) (map (\<lambda>p. p + 2) ?offs))" if "length r = 0x80000" for r
  proof -
    have "fold_sum (FoldU32Be [subspan r 0x4000 0x4100, drop 0x8104 r]) = sum_list (map (ReadU32Be r) ?offs)"
      using that by (simp add: window_words)
    moreover have "\<forall>p \<in> set ?offs. p + 4 \<le> length r"
      unfolding offs that by (auto elim!: dvdE)
    ultimately show ?thesis using low_sum by metis
  qed
  have "distinct (map (\<lambda>p. p + 2) ?offs)"
    by (auto simp: distinct_map distinct_grid grid_set inj_on_def)
  moreover have "\<forall>p \<in> set (map (\<lambda>p. p + 2) ?offs). 2 dvd p"
    unfolding set_map offs by (auto elim!: dvdE)
  moreover have "0x7fffa \<in> set (map (\<lambda>p. p + 2) ?offs)"
    unfolding set_map offs by (rule image_eqI [of _ _ "0x7fff8"]) auto
  ultimately show ?thesis
    using s16.rebalance_reaches [of "map (\<lambda>p. p + 2) ?offs" "0x7fffa" rom "0x5aa5"] assms sum
    by (simp add: RebalanceU16Be_eq Kline_balanced_def)
qed

lemma Kline_data:
  assumes "length rom = 0x80000" and "sum_xor8 rom 0x8100 0x8101 = (c1, c2)"
    and "rom2 = rom[0x8100 := c1, 0x8101 := c2]"
  shows "rom_data (HitachiM32rKline_CalculateChecksumResult rom) =
    RebalanceU16Be rom2 0x7fffa
      (ucast (fold_sum (FoldU32Be [subspan rom2 0x4000 0x4100, drop 0x8104 rom2])) :: u16) 0x5aa5"
proof -
  define s1 where "s1 = (if c1 \<noteq> rom ! 0x8100 then (False, rom[0x8100 := c1]) else (True, rom))"
  define s2 where "s2 = (if c2 \<noteq> rom ! 0x8101 then (False, (snd s1)[0x8101 := c2]) else s1)"
  have "snd s1 = rom[0x8100 := c1]" by (auto simp: s1_def)
  then have s2: "snd s2 = rom2"
    using assms(3) list_update_id [of "rom[0x8100 := c1]" "0x8101"] by (auto simp: s2_def)
  show ?thesis
    unfolding HitachiM32rKline_CalculateChecksumResult_def assms(2) Let_def prod.case s1_def [symmetric]
      s2_def [symmetric] rebalance_if16 s2
    by simp
qed

lemma Kline_outcome:
  assumes "length rom = 0x80000" and "out = rom_data (HitachiM32rKline_CalculateChecksumResult rom)"
  shows "Kline_balanced out"
    and "Kline_balanced rom \<Longrightarrow> Kline_sums_valid out"
proof -
  obtain c1 c2 where c: "sum_xor8 rom 0x8100 0x8101 = (c1, c2)" by (cases "sum_xor8 rom 0x8100 0x8101")
  define rom2 where "rom2 = rom[0x8100 := c1, 0x8101 := c2]"
  have len: "length rom2 = 0x80000" using assms(1) by (simp add: rom2_def)
  note out = assms(2) [unfolded Kline_data [OF assms(1) c rom2_def]]
  show "Kline_balanced out" unfolding out by (rule Kline_rebalanced [OF len refl])
  assume bal: "Kline_balanced rom"
  have "subspan rom2 0x4000 0x4100 = subspan rom 0x4000 0x4100" "drop 0x8104 rom2 = drop 0x8104 rom"
    by (simp_all add: rom2_def subspan_def drop_update_swap take_update_cancel)
  then have "out = rom2" using bal by (simp add: out Kline_balanced_def RebalanceU16Be_eq u16be.wr_rd_same)
  moreover have "sum_xor8 rom2 0x8100 0x8101 = (c1, c2)"
    using c by (simp add: rom2_def sum_xor8_update_inside)
  ultimately show "Kline_sums_valid out" using assms(1) by (simp add: Kline_sums_valid_def rom2_def)
qed

text \<open>Balancing checksum 3 afterwards rewrites two bytes that checksums 1 and 2 have already
  summed: on an erased all-zero ROM the stored 8-bit sum is then wrong.\<close>

lemma sum_list_update_word:
  "i < length xs \<Longrightarrow> sum_list (xs[i := v]) = sum_list xs - xs ! i + (v :: 'a::ab_group_add)"
  by (induction xs arbitrary: i) (auto simp: algebra_simps split: nat.splits)

lemma filter_index_map:
  "map (nth rom) (filter (\<lambda>i. i < lo \<or> i > hi) [0..<length rom]) = take lo rom @ drop (Suc hi) rom"
  if "lo \<le> Suc hi" "hi < length rom"
proof -
  have "[0..<length rom] = [0..<lo] @ [lo..<Suc hi] @ [Suc hi..<length rom]"
    using that upt_split [of 0 "Suc hi" "length rom"] upt_split [of 0 lo "Suc hi"] by simp
  moreover have "filter (\<lambda>i. i < lo \<or> i > hi) [0..<lo] = [0..<lo]"
    "filter (\<lambda>i. i < lo \<or> i > hi) [lo..<Suc hi] = []"
    "filter (\<lambda>i. i < lo \<or> i > hi) [Suc hi..<length rom] = [Suc hi..<length rom]"
    by (auto simp: filter_empty_conv intro!: filter_True)
  ultimately have "filter (\<lambda>i. i < lo \<or> i > hi) [0..<length rom] = [0..<lo] @ [Suc hi..<length rom]"
    by (simp only: filter_append append_Nil)
  moreover have "map (nth rom) [0..<lo] = take lo rom"
    using that by (intro nth_equalityI) auto
  moreover have "map (nth rom) [Suc hi..<length rom] = drop (Suc hi) rom"
    using that by (intro nth_equalityI) auto
  ultimately show ?thesis by simp
qed

lemma Kline_stale_sum:
  "\<exists>rom. length rom = 0x80000 \<and> Kline_sums_valid rom \<and>
     \<not> Kline_sums_valid (rom_data (HitachiM32rKline_CalculateChecksumResult rom))"
proof -
  let ?rom = "replicate 0x80000 0 :: bytes"
  let ?out = "rom_data (HitachiM32rKline_CalculateChecksumResult ?rom)"
  have split: "sum_xor8 r 0x8100 0x8101 =
      (sum_list (take 0x8100 r) + sum_list (drop 0x8102 r),
       fold (\<lambda>b x. x XOR b) (take 0x8100 r @ drop 0x8102 r) 0)" if "length r = 0x80000" for r
    using that filter_index_map [of "0x8100" "0x8101" r] by (simp add: sum_xor8_eq)
  have zero: "fold (\<lambda>b x. x XOR b) (replicate n 0) 0 = (0 :: u8)" "sum_list (replicate n (0 :: u8)) = 0" for n
    by (induction n) simp_all
  have funpow_id: "((\<lambda>x. x) ^^ n) (0 :: u8) = 0" for n by (induction n) simp_all
  have sums: "sum_xor8 ?rom 0x8100 0x8101 = (0, 0)"
    by (simp add: split zero funpow_id flip: replicate_add)
  then have ok: "Kline_sums_valid ?rom" by (simp add: Kline_sums_valid_def)
  have "words (replicate n 0) = replicate (n div 4) 0" for n
    by (rule nth_equalityI) (auto simp: words_def ReadU32Be_def)
  then have fold0: "fold_sum (FoldU32Be [replicate m 0, replicate n 0]) = 0" for m n
    by (simp add: FoldU32Be_eq sum_list_replicate)
  have same: "?rom[0x8100 := 0, 0x8101 := 0] = ?rom"
    by (rule nth_equalityI) (simp_all add: nth_list_update)
  have out: "?out = WriteU16Be ?rom 0x7fffa 0x5aa5"
    using Kline_data [of ?rom 0 0 ?rom] sums same
    by (simp add: RebalanceU16Be_eq fold0 subspan_def ReadU16Be_def)
  then have out': "?out = ?rom[0x7fffa := 0x5a, 0x7fffb := 0xa5]"
    by (simp add: WriteU16Be_def)
  have "take 0x8100 ?out = replicate 0x8100 0" "?out ! 0x8100 = 0"
    by (simp_all add: out' take_update_cancel)
  moreover have "sum_list (drop 0x8102 ?out) = 0xff"
    by (simp add: out' drop_update_swap sum_list_update_word zero)
  ultimately have "fst (sum_xor8 ?out 0x8100 0x8101) \<noteq> ?out ! 0x8100"
    using split [of ?out] zero out' by simp
  then have "\<not> Kline_sums_valid ?out" by (auto simp: Kline_sums_valid_def)
  with ok show ?thesis by (intro exI [of _ ?rom]) simp
qed

section \<open>Properties\<close>



text \<open>C19: the single-sum families (Hitachi SH72543R, Mitsubishi MH8104, Denso SH7055 TCU): the corrected
  ROM's sum is the target, and a ROM is left alone exactly when its sum already is.\<close>

theorem single_sum_families_repair:
  assumes "length a = 0x200000" and "length b = 0x80000"
  shows "SumU16Be [drop 0x6000 (rom_data (HitachiSh72543r_CalculateChecksumResult a))] = 0x5aa5 \<and>
    (SumU16Be [drop 0x6000 a] = 0x5aa5) = (rom_data (HitachiSh72543r_CalculateChecksumResult a) = a) \<and>
    mh8104_checksum (rom_data (MitsuMH8104Can_CalculateChecksumResult b)) = 0x5aa45aab \<and>
    (mh8104_checksum b = 0x5aa45aab) = (rom_data (MitsuMH8104Can_CalculateChecksumResult b) = b) \<and>
    DensoSH7055_valid (rom_data (DensoSH7055_CalculateChecksumResult b)) \<and>
    DensoSH7055_valid b = (rom_data (DensoSH7055_CalculateChecksumResult b) = b)"
  using sh72543r.reaches [OF assms(1)] sh72543r.valid_iff_fixed [OF assms(1)]
    mh8104.reaches [OF assms(2)] mh8104.valid_iff_fixed [OF assms(2)]
    sh7055_tcu.reaches [OF assms(2)] sh7055_tcu.valid_iff_fixed [OF assms(2)]
  unfolding HitachiSh72543r_valid_def MitsuMH8104Can_valid_def by blast

theorem single_sum_families_repair_witness:
  "length (replicate 0x200000 (0xFF :: u8)) = 0x200000 \<and> length (replicate 0x80000 (0xFF :: u8)) = 0x80000 \<and>
   SumU16Be [drop 0x6000 (rom_data (HitachiSh72543r_CalculateChecksumResult (replicate 0x200000 0xFF)))] = 0x5aa5 \<and>
   mh8104_checksum (rom_data (MitsuMH8104Can_CalculateChecksumResult (replicate 0x80000 0xFF))) = 0x5aa45aab"
  using single_sum_families_repair [OF length_replicate length_replicate, of "0xFF" "0xFF"]
  by (simp only: length_replicate simp_thms)


definition sample_mitsu_rom :: bytes where
  "sample_mitsu_rom = (replicate 0x60000 0)[0x3FFCB := 0x40]"

lemma sample_mitsu_layout: "MitsuM32rCan_layout sample_mitsu_rom"
  by (simp add: MitsuM32rCan_layout_def sample_mitsu_rom_def kLayoutEnd_def kCorrectionWords_def
      kCorrectionWordCount_def kAreaCodeOffset_def AreaEndFor_def kAreaCodes_def)


text \<open>C23: in the Hitachi SH7058 family, a valid ROM whose balance word alone was disturbed is
  restored, but the result says nothing changed.\<close>

theorem sh7058_repairs_silently:
  assumes "length rom = 0x100000" and "HitachiSH7058_valid rom"
  shows "HitachiSH7058_CalculateChecksumResult (WriteU32Be rom 0xffff8 v) =
    \<lparr>status = kUnchanged, rom_data = rom, message = ''''\<rparr>"
  using assms by (rule HitachiSH7058_silent_repair)

definition sample_sh7058_rom :: bytes where
  "sample_sh7058_rom = rom_data (HitachiSH7058_CalculateChecksumResult (replicate 0x100000 0))"

lemma sample_sh7058_valid: "HitachiSH7058_valid sample_sh7058_rom" "length sample_sh7058_rom = 0x100000"
  unfolding sample_sh7058_rom_def HitachiSH7058_length
  by (rule sh7058.reaches, rule length_replicate) (rule length_replicate)

theorem sh7058_repairs_silently_witness:
  "length sample_sh7058_rom = 0x100000 \<and> HitachiSH7058_valid sample_sh7058_rom \<and>
   HitachiSH7058_CalculateChecksumResult (WriteU32Be sample_sh7058_rom 0xffff8 1) =
     \<lparr>status = kUnchanged, rom_data = sample_sh7058_rom, message = ''''\<rparr>"
  using sh7058_repairs_silently [OF sample_sh7058_valid(2,1), of 1] sample_sh7058_valid by blast

text \<open>C21: the Hitachi M32R TCU correction always balances checksum 1, but its checksum 2 is right
  afterwards only if checksum 1 was balanced before or checksum 2 was wrong before: rebalancing
  checksum 1 makes a correct checksum 2 stale.\<close>

theorem tcu_hitachi_checksum2_stale:
  assumes "length rom \<ge> 0x8024" and "length rom mod 4 = 0"
    and "out = rom_data (TcuHitachiM32rCan_CalculateChecksumResult rom)"
  shows "TcuHitachi_valid1 out \<and>
    TcuHitachi_valid2 out = (TcuHitachi_valid1 rom \<or> \<not> TcuHitachi_valid2 rom)"
  using TcuHitachi_outcome [OF assms] by blast

theorem tcu_hitachi_checksum2_stale_witness:
  "length (replicate 0x80000 (0 :: u8)) \<ge> 0x8024 \<and> length (replicate 0x80000 (0 :: u8)) mod 4 = 0 \<and>
   TcuHitachi_valid1 (rom_data (TcuHitachiM32rCan_CalculateChecksumResult (replicate 0x80000 0)))"
proof -
  have len: "length (replicate 0x80000 (0 :: u8)) \<ge> 0x8024" "length (replicate 0x80000 (0 :: u8)) mod 4 = 0"
    unfolding length_replicate by simp_all
  show ?thesis using tcu_hitachi_checksum2_stale [OF len refl] len by blast
qed

text \<open>C22: the Hitachi M32R K-line correction always balances checksum 3; checksums 1 and 2 are right
  afterwards when checksum 3 was balanced before, but there is a ROM with correct checksums 1 and 2
  that comes back with a wrong one.\<close>

theorem kline_sums_stale:
  assumes "length rom = 0x80000" and "out = rom_data (HitachiM32rKline_CalculateChecksumResult rom)"
  shows "Kline_balanced out \<and> (Kline_balanced rom \<longrightarrow> Kline_sums_valid out) \<and>
    (\<exists>q. length q = 0x80000 \<and> Kline_sums_valid q \<and>
       \<not> Kline_sums_valid (rom_data (HitachiM32rKline_CalculateChecksumResult q)))"
  using Kline_outcome [OF assms] Kline_stale_sum by blast

theorem kline_sums_stale_witness:
  "length (replicate 0x80000 (0 :: u8)) = 0x80000 \<and>
   Kline_balanced (rom_data (HitachiM32rKline_CalculateChecksumResult (replicate 0x80000 0)))"
  using kline_sums_stale [OF length_replicate refl, of 0]
  by (simp only: length_replicate simp_thms)

end
