(* ===== verification/Flash_Devices.thy ===== *)
theory Flash_Devices
  imports Address
begin

text \<open>
  The device table of \<^verbatim>\<open>backend/flash/kernel/kernelmemorymodels.h\<close> and its lookup,
  \<^verbatim>\<open>backend/flash/flash_device_lookup.cpp\<close>. A pointer to a block array is the array's list;
  \<open>numblocks\<close> is the count the flash code loops to, so the table is sound only where it equals
  the array's length.
\<close>

section \<open>The table\<close>

datatype McuType =
    kM32R128Kb
  | kM32R256Kb
  | kM32R384Kb
  | kM32R512Kb
  | kM32R512Kb1block
  | kM32R512Kb4blocks
  | kM32R384Kb1block
  | kMC68HC16Y5
  | kMC68HC16Y5Tpu
  | kSH7051
  | kSH7055
  | kSH7058
  | kSH70581block
  | kSH7058d
  | kSH7059d
  | kSH72543d
  | kSH72531
  | kN83M4Mb
  | kN83M15Mb
  | kSH72543R
  | kMH8104
  | kMH5006
  | kMH8111
  | kM3779x
  | kM3775x
  | kShInvalid

text \<open>\<^verbatim>\<open>FlashBlock\<close>, \<^verbatim>\<open>RamBlock\<close>, \<^verbatim>\<open>KernelBlock\<close> and \<^verbatim>\<open>EepromBlock\<close> have the same two fields.\<close>

record DeviceBlock =
  block_start :: u32
  block_len :: u32

definition blocks :: "(u32 \<times> u32) list \<Rightarrow> DeviceBlock list" where
  "blocks = map (\<lambda>(s, n). \<lparr>block_start = s, block_len = n\<rparr>)"

record FlashDevice =
  dev_name :: string
  mcutype :: McuType
  romsize :: u32
  numblocks :: nat
  fblocks :: "DeviceBlock list"
  rblocks :: "DeviceBlock list"
  kblocks :: "DeviceBlock list"
  eblocks :: "DeviceBlock list"

definition kFlashBlocksSH72543d :: "DeviceBlock list" where
  "kFlashBlocksSH72543d = blocks
     [(0x00008000, 0x001F7F00)]"

definition kRamBlocksSH72543d :: "DeviceBlock list" where
  "kRamBlocksSH72543d = blocks
     [(0xFFF80000, 0x00004000), (0xFFF84000, 0x00004000), (0xFFF88000, 0x00004000),
      (0xFFF8C000, 0x00004000), (0xFFF90000, 0x00004000), (0xFFF94000, 0x00004000),
      (0xFFF98000, 0x00004000), (0xFFF9C000, 0x00004000)]"

definition kKernelBlocksSH72543d :: "DeviceBlock list" where
  "kKernelBlocksSH72543d = blocks
     [(0xFFF80000, 0xFFF9FFFF)]"

definition kEepromBlocksSH72543d :: "DeviceBlock list" where
  "kEepromBlocksSH72543d = blocks
     [(0x00000000, 0x00000100)]"

definition kFlashBlocksSH7059d :: "DeviceBlock list" where
  "kFlashBlocksSH7059d = blocks
     [(0x00000000, 0x00001000), (0x00001000, 0x00001000), (0x00002000, 0x00001000),
      (0x00003000, 0x00001000), (0x00004000, 0x00001000), (0x00005000, 0x00001000),
      (0x00006000, 0x00001000), (0x00007000, 0x00001000), (0x00008000, 0x00018000),
      (0x00020000, 0x00020000), (0x00040000, 0x00020000), (0x00060000, 0x00020000),
      (0x00080000, 0x00040000), (0x000C0000, 0x00040000), (0x00100000, 0x00040000),
      (0x00140000, 0x00040000)]"

definition kRamBlocksSH7059d :: "DeviceBlock list" where
  "kRamBlocksSH7059d = blocks
     [(0xFFFE8000, 0x00009000)]"

definition kKernelBlocksSH7059d :: "DeviceBlock list" where
  "kKernelBlocksSH7059d = blocks
     [(0xFFFE8000, 0x00009000)]"

definition kEepromBlocksSH7059d :: "DeviceBlock list" where
  "kEepromBlocksSH7059d = blocks
     [(0x00000000, 0x00000100)]"

definition kFlashBlocksSH7058d :: "DeviceBlock list" where
  "kFlashBlocksSH7058d = blocks
     [(0x00000000, 0x00001000), (0x00001000, 0x00001000), (0x00002000, 0x00001000),
      (0x00003000, 0x00001000), (0x00004000, 0x00001000), (0x00005000, 0x00001000),
      (0x00006000, 0x00001000), (0x00007000, 0x00001000), (0x00008000, 0x00018000),
      (0x00020000, 0x00020000), (0x00040000, 0x00020000), (0x00060000, 0x00020000),
      (0x00080000, 0x00020000), (0x000A0000, 0x00020000), (0x000C0000, 0x00020000),
      (0x000E0000, 0x00020000)]"

definition kRamBlocksSH7058d :: "DeviceBlock list" where
  "kRamBlocksSH7058d = blocks
     [(0xFFFF3000, 0x00009000)]"

definition kKernelBlocksSH7058d :: "DeviceBlock list" where
  "kKernelBlocksSH7058d = blocks
     [(0xFFFF4000, 0x00009000)]"

definition kEepromBlocksSH7058d :: "DeviceBlock list" where
  "kEepromBlocksSH7058d = blocks
     [(0x00000000, 0x00000100)]"

definition kFlashBlocksSH7058 :: "DeviceBlock list" where
  "kFlashBlocksSH7058 = blocks
     [(0x00000000, 0x00001000), (0x00001000, 0x00001000), (0x00002000, 0x00001000),
      (0x00003000, 0x00001000), (0x00004000, 0x00001000), (0x00005000, 0x00001000),
      (0x00006000, 0x00001000), (0x00007000, 0x00001000), (0x00008000, 0x00018000),
      (0x00020000, 0x00020000), (0x00040000, 0x00020000), (0x00060000, 0x00020000),
      (0x00080000, 0x00020000), (0x000A0000, 0x00020000), (0x000C0000, 0x00020000),
      (0x000E0000, 0x00020000)]"

definition kRamBlocksSH7058 :: "DeviceBlock list" where
  "kRamBlocksSH7058 = blocks
     [(0xFFFF3000, 0x00009000)]"

definition kKernelBlocksSH7058 :: "DeviceBlock list" where
  "kKernelBlocksSH7058 = blocks
     [(0xFFFF3000, 0x00009000)]"

definition kEepromBlocksSH7058 :: "DeviceBlock list" where
  "kEepromBlocksSH7058 = blocks
     [(0x00000000, 0x00000100)]"

definition kFlashBlocksSH7058_1block :: "DeviceBlock list" where
  "kFlashBlocksSH7058_1block = blocks
     [(0x00000000, 0x00100000)]"

definition kFlashBlocksSH72531 :: "DeviceBlock list" where
  "kFlashBlocksSH72531 = blocks
     [(0x00000000, 0x00008000), (0x00008000, 0x00137F00), (0x00137F00, 0x00000100)]"

definition kFlashBlocksN83M_4MB :: "DeviceBlock list" where
  "kFlashBlocksN83M_4MB = blocks
     [(0x08F9C000, 0x00010000), (0x08FAC000, 0x003D3F00), (0x0937FF00, 0x00000100)]"

definition kFlashBlocksN83M_1_5MB :: "DeviceBlock list" where
  "kFlashBlocksN83M_1_5MB = blocks
     [(0x08F9C000, 0x00010000), (0x08FAC000, 0x00173F00), (0x0911FF00, 0x00000100)]"

definition kFlashBlocksSH72543R :: "DeviceBlock list" where
  "kFlashBlocksSH72543R = blocks
     [(0x00000000, 0x00006000), (0x00006000, 0x001FA000)]"

definition kFlashBlocksSH7055 :: "DeviceBlock list" where
  "kFlashBlocksSH7055 = blocks
     [(0x00000000, 0x00001000), (0x00001000, 0x00001000), (0x00002000, 0x00001000),
      (0x00003000, 0x00001000), (0x00004000, 0x00001000), (0x00005000, 0x00001000),
      (0x00006000, 0x00001000), (0x00007000, 0x00001000), (0x00008000, 0x00008000),
      (0x00010000, 0x00010000), (0x00020000, 0x00010000), (0x00030000, 0x00010000),
      (0x00040000, 0x00010000), (0x00050000, 0x00010000), (0x00060000, 0x00010000),
      (0x00070000, 0x00010000)]"

definition kRamBlocksSH7055 :: "DeviceBlock list" where
  "kRamBlocksSH7055 = blocks
     [(0xFFFF6000, 0x00006000)]"

definition kKernelBlocksSH7055 :: "DeviceBlock list" where
  "kKernelBlocksSH7055 = blocks
     [(0xFFFF6004, 0x00006000)]"

definition kEepromBlocksSH7055 :: "DeviceBlock list" where
  "kEepromBlocksSH7055 = blocks
     [(0x00000000, 0x00000100)]"

definition kFlashBlocksSH7051 :: "DeviceBlock list" where
  "kFlashBlocksSH7051 = blocks
     [(0x00000000, 0x00040000)]"

definition kRamBlocksSH7051 :: "DeviceBlock list" where
  "kRamBlocksSH7051 = blocks
     [(0xFFFFD800, 0x00002800)]"

definition kKernelBlocksSH7051 :: "DeviceBlock list" where
  "kKernelBlocksSH7051 = blocks
     [(0xFFFFD800, 0x00002800)]"

definition kEepromBlocksSH7051 :: "DeviceBlock list" where
  "kEepromBlocksSH7051 = blocks
     [(0x00000000, 0x00000100)]"

definition kFlashBlocksM3779x :: "DeviceBlock list" where
  "kFlashBlocksM3779x = blocks
     [(0x00008000, 0x0000FFFF)]"

definition kRamBlocksM3779x :: "DeviceBlock list" where
  "kRamBlocksM3779x = blocks
     [(0x00001000, 0x000014FF)]"

definition kKernelBlocksM3779x :: "DeviceBlock list" where
  "kKernelBlocksM3779x = blocks
     [(0x00000000, 0x00000100)]"

definition kEepromBlocksM3779x :: "DeviceBlock list" where
  "kEepromBlocksM3779x = blocks
     [(0x00000000, 0x00000100)]"

definition kFlashBlocksM3775x :: "DeviceBlock list" where
  "kFlashBlocksM3775x = blocks
     [(0x00001000, 0x0000FFFF)]"

definition kRamBlocksM3775x :: "DeviceBlock list" where
  "kRamBlocksM3775x = blocks
     [(0x00001000, 0x000014FF)]"

definition kKernelBlocksM3775x :: "DeviceBlock list" where
  "kKernelBlocksM3775x = blocks
     [(0x00000000, 0x00000100)]"

definition kEepromBlocksM3775x :: "DeviceBlock list" where
  "kEepromBlocksM3775x = blocks
     [(0x00000000, 0x00000100)]"

definition kFlashBlocksMC68HC16Y5_TPU :: "DeviceBlock list" where
  "kFlashBlocksMC68HC16Y5_TPU = blocks
     [(0x00060000, 0x00001000), (0x00061000, 0x00001000), (0x00062000, 0x00001000),
      (0x00063000, 0x00001000)]"

definition kFlashBlocksMC68HC16Y5 :: "DeviceBlock list" where
  "kFlashBlocksMC68HC16Y5 = blocks
     [(0x00000000, 0x00004000), (0x00004000, 0x00004000), (0x00008000, 0x00004000),
      (0x0000C000, 0x00004000), (0x00010000, 0x00004000), (0x00014000, 0x00004000),
      (0x00018000, 0x00004000), (0x0001C000, 0x00004000), (0x00028000, 0x00004000),
      (0x0002C000, 0x00004000)]"

definition kRamBlocksMC68HC16Y5 :: "DeviceBlock list" where
  "kRamBlocksMC68HC16Y5 = blocks
     [(0x00020000, 0x00008000)]"

definition kKernelBlocksMC68HC16Y5 :: "DeviceBlock list" where
  "kKernelBlocksMC68HC16Y5 = blocks
     [(0x00020000, 0x00008000)]"

definition kEepromBlocksMC68HC16Y5 :: "DeviceBlock list" where
  "kEepromBlocksMC68HC16Y5 = blocks
     [(0x00000000, 0x00000100)]"

definition kFlashBlocksM32R_128KB :: "DeviceBlock list" where
  "kFlashBlocksM32R_128KB = blocks
     [(0x00000000, 0x00010000), (0x00010000, 0x00010000)]"

definition kRamBlocksM32R_128KB :: "DeviceBlock list" where
  "kRamBlocksM32R_128KB = blocks
     [(0x00801000, 0x00001800)]"

definition kKernelBlocksM32R_128KB :: "DeviceBlock list" where
  "kKernelBlocksM32R_128KB = blocks
     [(0x00801000, 0x00001800)]"

definition kEepromBlocksM32R_128KB :: "DeviceBlock list" where
  "kEepromBlocksM32R_128KB = blocks
     [(0x00000000, 0x00000100)]"

definition kFlashBlocksM32R_256KB :: "DeviceBlock list" where
  "kFlashBlocksM32R_256KB = blocks
     [(0x00000000, 0x00004000), (0x00004000, 0x00002000), (0x00006000, 0x00002000),
      (0x00008000, 0x00008000), (0x00010000, 0x00010000), (0x00020000, 0x00010000),
      (0x00030000, 0x00010000)]"

definition kRamBlocksM32R_256KB :: "DeviceBlock list" where
  "kRamBlocksM32R_256KB = blocks
     [(0x00804000, 0x00004000)]"

definition kKernelBlocksM32R_256KB :: "DeviceBlock list" where
  "kKernelBlocksM32R_256KB = blocks
     [(0x00804000, 0x00004000)]"

definition kEepromBlocksM32R_256KB :: "DeviceBlock list" where
  "kEepromBlocksM32R_256KB = blocks
     [(0x00000000, 0x00000100)]"

definition kFlashBlocksM32R_384KB :: "DeviceBlock list" where
  "kFlashBlocksM32R_384KB = blocks
     [(0x00000000, 0x00004000), (0x00004000, 0x00002000), (0x00006000, 0x00002000),
      (0x00008000, 0x00008000), (0x00010000, 0x00010000), (0x00020000, 0x00010000),
      (0x00030000, 0x00010000), (0x00040000, 0x00010000), (0x00050000, 0x00010000)]"

definition kRamBlocksM32R_384KB :: "DeviceBlock list" where
  "kRamBlocksM32R_384KB = blocks
     [(0x00804000, 0x00008000)]"

definition kKernelBlocksM32R_384KB :: "DeviceBlock list" where
  "kKernelBlocksM32R_384KB = blocks
     [(0x00804000, 0x00008000)]"

definition kEepromBlocksM32R_384KB :: "DeviceBlock list" where
  "kEepromBlocksM32R_384KB = blocks
     [(0x00000000, 0x00000100)]"

definition kFlashBlocksM32R_512KB :: "DeviceBlock list" where
  "kFlashBlocksM32R_512KB = blocks
     [(0x00000000, 0x00004000), (0x00004000, 0x00002000), (0x00006000, 0x00002000),
      (0x00008000, 0x00008000), (0x00010000, 0x00010000), (0x00020000, 0x00010000),
      (0x00030000, 0x00010000), (0x00040000, 0x00010000), (0x00050000, 0x00010000),
      (0x00060000, 0x00010000), (0x00070000, 0x00010000)]"

definition kFlashBlocksM32R_512KB_1block :: "DeviceBlock list" where
  "kFlashBlocksM32R_512KB_1block = blocks
     [(0x00000000, 0x00080000)]"

definition kFlashBlocksM32R_512KB_4blocks :: "DeviceBlock list" where
  "kFlashBlocksM32R_512KB_4blocks = blocks
     [(0x00000000, 0x00004000), (0x00004000, 0x00002000), (0x00006000, 0x00002000),
      (0x00008000, 0x00078000)]"

definition kFlashBlocksM32R_384KB_1block :: "DeviceBlock list" where
  "kFlashBlocksM32R_384KB_1block = blocks
     [(0x00008000, 0x00058000)]"

definition kRamBlocksM32R_512KB :: "DeviceBlock list" where
  "kRamBlocksM32R_512KB = blocks
     [(0x00804000, 0x0000A000)]"

definition kKernelBlocksM32R_512KB :: "DeviceBlock list" where
  "kKernelBlocksM32R_512KB = blocks
     [(0x00804000, 0x0000A000)]"

definition kEepromBlocksM32R_512KB :: "DeviceBlock list" where
  "kEepromBlocksM32R_512KB = blocks
     [(0x00000000, 0x00000100)]"

definition kFlashBlocksMH8104 :: "DeviceBlock list" where
  "kFlashBlocksMH8104 = blocks
     [(0x00000000, 0x00004000), (0x00004000, 0x00002000), (0x00006000, 0x00002000),
      (0x00008000, 0x00078000)]"

definition kRamBlocksMH8104 :: "DeviceBlock list" where
  "kRamBlocksMH8104 = blocks
     [(0x00804000, 0x0000A000)]"

definition kKernelBlocksMH8104 :: "DeviceBlock list" where
  "kKernelBlocksMH8104 = blocks
     [(0x00804000, 0x0000A000)]"

definition kEepromBlocksMH8104 :: "DeviceBlock list" where
  "kEepromBlocksMH8104 = blocks
     [(0x00000000, 0x00000100)]"

definition kFlashBlocksMH5006 :: "DeviceBlock list" where
  "kFlashBlocksMH5006 = blocks
     [(0x00000000, 0x00004000), (0x00004000, 0x00002000), (0x00006000, 0x00002000),
      (0x00008000, 0x000F8000)]"

definition kRamBlocksMH5006 :: "DeviceBlock list" where
  "kRamBlocksMH5006 = blocks
     [(0x00804000, 0x0000A000)]"

definition kKernelBlocksMH5006 :: "DeviceBlock list" where
  "kKernelBlocksMH5006 = blocks
     [(0x00804000, 0x0000A000)]"

definition kEepromBlocksMH5006 :: "DeviceBlock list" where
  "kEepromBlocksMH5006 = blocks
     [(0x00000000, 0x00000100)]"

definition kFlashBlocksMH8111 :: "DeviceBlock list" where
  "kFlashBlocksMH8111 = blocks
     [(0x00000000, 0x00040000), (0x00040000, 0x00020000), (0x00060000, 0x00020000),
      (0x00080000, 0x00100000)]"

definition kRamBlocksMH8111 :: "DeviceBlock list" where
  "kRamBlocksMH8111 = blocks
     [(0x00804000, 0x0000A000)]"

definition kKernelBlocksMH8111 :: "DeviceBlock list" where
  "kKernelBlocksMH8111 = blocks
     [(0x00804000, 0x0000A000)]"

definition kEepromBlocksMH8111 :: "DeviceBlock list" where
  "kEepromBlocksMH8111 = blocks
     [(0x00000000, 0x00000100)]"

definition device :: "string \<Rightarrow> McuType \<Rightarrow> u32 \<Rightarrow> nat \<Rightarrow> DeviceBlock list \<Rightarrow> DeviceBlock list \<Rightarrow>
    DeviceBlock list \<Rightarrow> DeviceBlock list \<Rightarrow> FlashDevice" where
  "device n t sz k f r ker ee =
     \<lparr>dev_name = n, mcutype = t, romsize = sz, numblocks = k, fblocks = f, rblocks = r, kblocks = ker, eblocks = ee\<rparr>"

definition kFlashDevices :: "FlashDevice list" where
  "kFlashDevices =
     [device ''M32R_128KB'' kM32R128Kb (128 * 1024) 2 kFlashBlocksM32R_128KB kRamBlocksM32R_128KB kKernelBlocksM32R_128KB kEepromBlocksM32R_128KB,
      device ''M32R_256KB'' kM32R256Kb (256 * 1024) 7 kFlashBlocksM32R_256KB kRamBlocksM32R_256KB kKernelBlocksM32R_256KB kEepromBlocksM32R_256KB,
      device ''M32R_384KB'' kM32R384Kb (384 * 1024) 9 kFlashBlocksM32R_384KB kRamBlocksM32R_384KB kKernelBlocksM32R_384KB kEepromBlocksM32R_384KB,
      device ''M32R_512KB'' kM32R512Kb (512 * 1024) 11 kFlashBlocksM32R_512KB kRamBlocksM32R_512KB kKernelBlocksM32R_512KB kEepromBlocksM32R_512KB,
      device ''M32R_512KB_1block'' kM32R512Kb1block (512 * 1024) 1 kFlashBlocksM32R_512KB_1block kRamBlocksM32R_512KB kKernelBlocksM32R_512KB kEepromBlocksM32R_512KB,
      device ''M32R_512KB_4blocks'' kM32R512Kb4blocks (512 * 1024) 4 kFlashBlocksM32R_512KB_4blocks kRamBlocksM32R_512KB kKernelBlocksM32R_512KB kEepromBlocksM32R_512KB,
      device ''M32R_384KB_1block'' kM32R384Kb1block (384 * 1024) 1 kFlashBlocksM32R_384KB_1block kRamBlocksM32R_512KB kKernelBlocksM32R_512KB kEepromBlocksM32R_512KB,
      device ''MC68HC16Y5'' kMC68HC16Y5 (160 * 1024) 10 kFlashBlocksMC68HC16Y5 kRamBlocksMC68HC16Y5 kKernelBlocksMC68HC16Y5 kEepromBlocksMC68HC16Y5,
      device ''MC68HC16Y5_TPU'' kMC68HC16Y5Tpu (4 * 1024) 4 kFlashBlocksMC68HC16Y5_TPU kRamBlocksMC68HC16Y5 kKernelBlocksMC68HC16Y5 kEepromBlocksMC68HC16Y5,
      device ''SH7051'' kSH7051 (256 * 1024) 1 kFlashBlocksSH7051 kRamBlocksSH7051 kKernelBlocksSH7051 kEepromBlocksSH7051,
      device ''SH7055'' kSH7055 (512 * 1024) 16 kFlashBlocksSH7055 kRamBlocksSH7055 kKernelBlocksSH7055 kEepromBlocksSH7055,
      device ''SH7058'' kSH7058 (1024 * 1024) 16 kFlashBlocksSH7058 kRamBlocksSH7058 kKernelBlocksSH7058 kEepromBlocksSH7058,
      device ''SH7058_1block'' kSH7058 (1024 * 1024) 1 kFlashBlocksSH7058_1block kRamBlocksSH7058 kKernelBlocksSH7058 kEepromBlocksSH7058,
      device ''SH7058d'' kSH7058d (1024 * 1024) 16 kFlashBlocksSH7058d kRamBlocksSH7058d kKernelBlocksSH7058d kEepromBlocksSH7058d,
      device ''SH7059d'' kSH7059d (1536 * 1024) 16 kFlashBlocksSH7059d kRamBlocksSH7059d kKernelBlocksSH7059d kEepromBlocksSH7059d,
      device ''SH72543d'' kSH72543d (2 * 1024 * 1024) 1 kFlashBlocksSH72543d kRamBlocksSH72543d kKernelBlocksSH72543d kEepromBlocksSH72543d,
      device ''SH72531'' kSH72531 (1280 * 1024) 3 kFlashBlocksSH72531 kRamBlocksSH7058 kKernelBlocksSH7058 kEepromBlocksSH7058,
      device ''N83M_4MB'' kN83M4Mb (3984 * 1024) 3 kFlashBlocksN83M_4MB kRamBlocksSH7058 kKernelBlocksSH7058 kEepromBlocksSH7058,
      device ''N83M_1_5MB'' kN83M15Mb (1488 * 1024) 3 kFlashBlocksN83M_1_5MB kRamBlocksSH7058 kKernelBlocksSH7058 kEepromBlocksSH7058,
      device ''SH72543R'' kSH72543R (2 * 1024 * 1024) 2 kFlashBlocksSH72543R kRamBlocksSH7058 kKernelBlocksSH7058 kEepromBlocksSH7058,
      device ''MH8104'' kMH8104 (512 * 1024) 4 kFlashBlocksMH8104 kRamBlocksMH8104 kKernelBlocksMH8104 kEepromBlocksMH8104,
      device ''MH5006'' kMH5006 (1024 * 1024) 4 kFlashBlocksMH5006 kRamBlocksMH5006 kKernelBlocksMH5006 kEepromBlocksMH5006,
      device ''MH8111'' kMH8111 (3 * 512 * 1024) 4 kFlashBlocksMH8111 kRamBlocksMH8111 kKernelBlocksMH8111 kEepromBlocksMH8111,
      device ''M3779x'' kM3779x (64 * 1024) 1 kFlashBlocksM3779x kRamBlocksM3779x kKernelBlocksM3779x kEepromBlocksM3779x,
      device ''M3775x'' kM3775x (64 * 1024) 1 kFlashBlocksM3775x kRamBlocksM3775x kKernelBlocksM3775x kEepromBlocksM3775x]"

section \<open>Lookup\<close>

fun find_index :: "('a \<Rightarrow> bool) \<Rightarrow> 'a list \<Rightarrow> nat option" where
  "find_index P [] = None"
| "find_index P (x # xs) = (if P x then Some 0 else map_option Suc (find_index P xs))"

definition FindFlashDeviceIndex :: "string \<Rightarrow> int" where
  "FindFlashDeviceIndex mcu_type =
     (case find_index (\<lambda>d. dev_name d = mcu_type) kFlashDevices of
        None \<Rightarrow> - 1
      | Some i \<Rightarrow> int i)"

definition FindFlashDevice :: "string \<Rightarrow> FlashDevice option" where
  "FindFlashDevice mcu_type =
     (let index = FindFlashDeviceIndex mcu_type in
      if index < 0 then None else Some (kFlashDevices ! nat index))"

section \<open>Properties of the table\<close>

lemma find_index_Some:
  "find_index P xs = Some i \<Longrightarrow> i < length xs \<and> P (xs ! i) \<and> (\<forall>j < i. \<not> P (xs ! j))"
proof (induction xs arbitrary: i)
  case (Cons x xs)
  then show ?case by (auto simp: less_Suc_eq_0_disj split: if_splits)
qed simp

lemma find_index_None: "find_index P xs = None \<longleftrightarrow> (\<forall>x \<in> set xs. \<not> P x)"
  by (induction xs) auto

definition flash_ends :: "FlashDevice \<Rightarrow> (nat \<times> nat) list" where
  "flash_ends d = map (\<lambda>b. (unat (block_start b), unat (block_start b) + unat (block_len b))) (fblocks d)"

fun apart :: "(nat \<times> nat) list \<Rightarrow> bool" where
  "apart ((s, e) # (s', e') # rest) \<longleftrightarrow> e \<le> s' \<and> apart ((s', e') # rest)"
| "apart _ \<longleftrightarrow> True"

lemmas block_tables = kFlashBlocksSH72543d_def kFlashBlocksSH7059d_def kFlashBlocksSH7058d_def
  kFlashBlocksSH7058_def kFlashBlocksSH7058_1block_def kFlashBlocksSH72531_def kFlashBlocksN83M_4MB_def
  kFlashBlocksN83M_1_5MB_def kFlashBlocksSH72543R_def kFlashBlocksSH7055_def kFlashBlocksSH7051_def
  kFlashBlocksM3779x_def kFlashBlocksM3775x_def kFlashBlocksMC68HC16Y5_TPU_def kFlashBlocksMC68HC16Y5_def
  kFlashBlocksM32R_128KB_def kFlashBlocksM32R_256KB_def kFlashBlocksM32R_384KB_def kFlashBlocksM32R_512KB_def
  kFlashBlocksM32R_512KB_1block_def kFlashBlocksM32R_512KB_4blocks_def kFlashBlocksM32R_384KB_1block_def
  kFlashBlocksMH8104_def kFlashBlocksMH5006_def kFlashBlocksMH8111_def

lemma device_names: "distinct (map dev_name kFlashDevices)"
  by (simp add: kFlashDevices_def device_def)

lemma device_numblocks: "\<forall>d \<in> set kFlashDevices. numblocks d = length (fblocks d)"
  by (simp add: kFlashDevices_def device_def block_tables blocks_def)

lemma device_blocks_apart: "\<forall>d \<in> set kFlashDevices. apart (flash_ends d) \<longleftrightarrow> dev_name d \<noteq> ''SH72531''"
  by (simp add: kFlashDevices_def device_def block_tables blocks_def flash_ends_def)

lemma FindFlashDevice_iff:
  "FindFlashDevice mcu = Some d \<longleftrightarrow> d \<in> set kFlashDevices \<and> dev_name d = mcu"
proof
  assume "FindFlashDevice mcu = Some d"
  then show "d \<in> set kFlashDevices \<and> dev_name d = mcu"
    by (auto simp: FindFlashDevice_def FindFlashDeviceIndex_def Let_def split: option.splits if_splits
        dest!: find_index_Some)
next
  assume d: "d \<in> set kFlashDevices \<and> dev_name d = mcu"
  then obtain i where i: "find_index (\<lambda>d. dev_name d = mcu) kFlashDevices = Some i"
    using find_index_None [of "\<lambda>d. dev_name d = mcu" kFlashDevices] by fastforce
  then have found: "FindFlashDevice mcu = Some (kFlashDevices ! i)"
    by (simp add: FindFlashDevice_def FindFlashDeviceIndex_def)
  moreover have "i < length kFlashDevices" "dev_name (kFlashDevices ! i) = mcu"
    using find_index_Some [OF i] by auto
  ultimately have "kFlashDevices ! i = d"
    using d device_names by (metis distinct_map inj_onD nth_mem)
  with found show "FindFlashDevice mcu = Some d" by simp
qed

section \<open>Properties\<close>

text \<open>C28: the flash device table: device names are distinct and the lookup returns the device of that
  name and nothing for any other name; every block count is the length of the block array; and the
  flash blocks of every device but the SH72531 are in address order without overlap, while the
  SH72531's overlap.\<close>

theorem flash_device_table:
  "distinct (map dev_name kFlashDevices) \<and>
   (FindFlashDevice mcu = Some d) = (d \<in> set kFlashDevices \<and> dev_name d = mcu) \<and>
   list_all (\<lambda>d. numblocks d = length (fblocks d) \<and> apart (flash_ends d) = (dev_name d \<noteq> ''SH72531'')) kFlashDevices"
  using device_names FindFlashDevice_iff device_numblocks device_blocks_apart by (simp add: list_all_iff)

end
