(* ===== verification/Checksum_Dispatch.thy ===== *)
theory Checksum_Dispatch
  imports Checksum_Families Flash_Devices
begin

text \<open>
  \<^verbatim>\<open>backend/checksum/checksum_selection.h\<close> and \<^verbatim>\<open>dispatch.cpp\<close>: the route table, the choice of
  a family, and the write-back of the corrected bytes through the memory map. The outer
  \<^typ>\<open>'a option\<close> is \<^const>\<open>None\<close> where the C++ would be undefined; \<open>Apply_defined\<close> shows that
  it never is for an image over a well-formed map.
\<close>

section \<open>Selection and outcome\<close>

record ChecksumSelection =
  sel_make :: string
  checksum_flag :: string
  flash_method :: string
  mcu_type :: string
  rom_id :: string

datatype CorrectionStatus = kUnknownMcuType | kBadRomSize | kNoModuleForProtocol | kFamilyRan

record ChecksumCorrectionOutcome =
  outcome_status :: CorrectionStatus
  family_result :: "ChecksumResult option"
  corrected_file :: "bytes option"

section \<open>Routes\<close>

definition kDensoTableLength :: u32 where
  "kDensoTableLength = 17 * 12"

definition StartsWith :: "string \<Rightarrow> string \<Rightarrow> bool" where
  "StartsWith value pre \<longleftrightarrow> take (length pre) value = pre"

definition DensoSh7xxx :: "MemoryView \<Rightarrow> u32 \<Rightarrow> ChecksumResult" where
  "DensoSh7xxx rom address =
     (let result = SH7xxx_CalculateChecksumResult rom (TaggedPosition address) kDensoTableLength in
      if Changed result then result\<lparr>message := ''Subaru Denso SH705x Checksum''\<rparr> else result)"

definition DensoSh705xDiesel :: "MemoryView \<Rightarrow> u32 \<Rightarrow> ChecksumResult" where
  "DensoSh705xDiesel rom address =
     SH705xDiesel_CalculateChecksumResult rom (TaggedPosition address) kDensoTableLength"

text \<open>A fixed-extent span made from a view of another length is undefined.\<close>

definition RunFixedLayout :: "nat \<Rightarrow> (bytes \<Rightarrow> ChecksumResult) \<Rightarrow> MemoryView \<Rightarrow> ChecksumResult option" where
  "RunFixedLayout rom_size calculate view =
     (if length (view_data view) = rom_size then Some (calculate (view_data view)) else None)"

datatype Route =
    kDensoSh7xxx | kDensoDiesel | kDensoTcuSh7055 | kM32rByRomId | kM32rCan
  | kSh7058 | kSh72543r | kHitachiM32rTcu | kMitsuMh8104Tcu | kMitsuColtM32rCan

text \<open>\<^verbatim>\<open>consteval\<close>: a window that cannot be made does not compile; \<open>kRoutes_windows\<close> shows all are made.\<close>

definition EcuWindow :: "u32 \<Rightarrow> u32 \<Rightarrow> flash_space address_range" where
  "EcuWindow start n = the (MakeRange (TaggedPosition start) (ByteCount n))"

record RouteSpec =
  prefix_of :: string
  make_of :: string
  route_of :: Route
  window_of :: "flash_space address_range"
  table_address_of :: u32

definition route_spec :: "string \<Rightarrow> string \<Rightarrow> Route \<Rightarrow> flash_space address_range \<Rightarrow> u32 \<Rightarrow> RouteSpec" where
  "route_spec p mk r w a =
     \<lparr>prefix_of = p, make_of = mk, route_of = r, window_of = w, table_address_of = a\<rparr>"

definition kRoutes :: "RouteSpec list" where
  "kRoutes =
     [route_spec ''sub_ecu_denso_sh7055'' ''Subaru'' kDensoSh7xxx (EcuWindow 0 0x80000) 0x07FB80,
      route_spec ''sub_ecu_denso_sh7058_can_diesel'' ''Subaru'' kDensoDiesel (EcuWindow 0 0x100000) 0x0FFB80,
      route_spec ''sub_ecu_denso_sh7058s_diesel_densocan'' ''Subaru'' kDensoDiesel (EcuWindow 0 0x100000) 0x0FFB80,
      route_spec ''sub_ecu_denso_sh7058'' ''Subaru'' kDensoSh7xxx (EcuWindow 0 0x100000) 0x0FFB80,
      route_spec ''sub_ecu_denso_sh72531_can'' ''Subaru'' kDensoSh7xxx (EcuWindow 0 0x140000) 0x13F500,
      route_spec ''sub_ecu_denso_1n83m_4m_can'' ''Subaru'' kDensoSh7xxx (EcuWindow 0x08F9C000 0x3E4000) 0x0937FE00,
      route_spec ''sub_ecu_denso_1n83m_1_5m_can'' ''Subaru'' kDensoSh7xxx (EcuWindow 0x08F9C000 0x184000) 0x0911FE00,
      route_spec ''sub_ecu_denso_sh7059_can_diesel'' ''Subaru'' kDensoDiesel (EcuWindow 0 0x180000) 0x17FB80,
      route_spec ''sub_ecu_denso_sh7059_diesel_densocan'' ''Subaru'' kDensoDiesel (EcuWindow 0 0x180000) 0x17FB80,
      route_spec ''sub_ecu_denso_sh72543_can_diesel'' ''Subaru'' kDensoDiesel (EcuWindow 0 0x200000) 0x1FF800,
      route_spec ''sub_tcu_denso_sh7055_can'' ''Subaru'' kDensoTcuSh7055 (EcuWindow 0 0x80000) 0,
      route_spec ''sub_tcu_denso_sh7058_can'' ''Subaru'' kDensoSh7xxx (EcuWindow 0 0x100000) 0x0FFB80,
      route_spec ''sub_ecu_hitachi_m32r_kline'' ''Subaru'' kM32rByRomId (EcuWindow 0 0x80000) 0,
      route_spec ''sub_ecu_hitachi_m32r_can'' ''Subaru'' kM32rCan (EcuWindow 0 0x80000) 0,
      route_spec ''sub_ecu_hitachi_sh7058_can'' ''Subaru'' kSh7058 (EcuWindow 0 0x100000) 0,
      route_spec ''sub_ecu_hitachi_sh72543r'' ''Subaru'' kSh72543r (EcuWindow 0 0x200000) 0,
      route_spec ''sub_tcu_hitachi_m32r_can'' ''Subaru'' kHitachiM32rTcu (EcuWindow 0 0x80000) 0,
      route_spec ''sub_tcu_hitachi_m32r_kline'' ''Subaru'' kHitachiM32rTcu (EcuWindow 0 0x80000) 0,
      route_spec ''sub_tcu_cvt_mitsu_mh8104_can'' ''Subaru'' kMitsuMh8104Tcu (EcuWindow 0 0x80000) 0,
      route_spec ''mitsu_ecu_m32r_can_512kb'' ''Mitsubishi'' kMitsuColtM32rCan (EcuWindow 0 0x80000) 0,
      route_spec ''mitsu_ecu_m32r_can_vendor_ext_512kb'' ''Mitsubishi'' kMitsuColtM32rCan (EcuWindow 0 0x80000) 0,
      route_spec ''mitsu_ecu_m32r_can'' ''Mitsubishi'' kMitsuColtM32rCan (EcuWindow 0 0x60000) 0]"

fun FixedRomSize :: "Route \<Rightarrow> u32 option" where
  "FixedRomSize kDensoTcuSh7055 = Some 0x80000"
| "FixedRomSize kM32rByRomId = Some 0x80000"
| "FixedRomSize kM32rCan = Some 0x80000"
| "FixedRomSize kSh7058 = Some 0x100000"
| "FixedRomSize kSh72543r = Some 0x200000"
| "FixedRomSize kMitsuMh8104Tcu = Some 0x80000"
| "FixedRomSize kDensoSh7xxx = None"
| "FixedRomSize kDensoDiesel = None"
| "FixedRomSize kHitachiM32rTcu = None"
| "FixedRomSize kMitsuColtM32rCan = None"

definition route_consistent :: "RouteSpec list \<Rightarrow> RouteSpec \<Rightarrow> bool" where
  "route_consistent earlier route \<longleftrightarrow>
     (case FixedRomSize (route_of route) of
        None \<Rightarrow> True
      | Some fixed \<Rightarrow> Value (Start (window_of route)) = 0 \<and> ByteCountValue (Size (window_of route)) = fixed) \<and>
     (route_of route \<in> {kMitsuColtM32rCan, kHitachiM32rTcu} \<longrightarrow> Value (Start (window_of route)) = 0) \<and>
     (route_of route \<in> {kDensoSh7xxx, kDensoDiesel} \<longrightarrow>
        (case MakeRange (TaggedPosition (table_address_of route)) (ByteCount kDensoTableLength) of
           None \<Rightarrow> False
         | Some table \<Rightarrow> ContainsRange (window_of route) table)) \<and>
     list_all (\<lambda>e. \<not> (make_of e = make_of route \<and> StartsWith (prefix_of route) (prefix_of e))) earlier"

fun routes_consistent_from :: "RouteSpec list \<Rightarrow> RouteSpec list \<Rightarrow> bool" where
  "routes_consistent_from earlier [] \<longleftrightarrow> True"
| "routes_consistent_from earlier (r # rest) \<longleftrightarrow>
     route_consistent earlier r \<and> routes_consistent_from (earlier @ [r]) rest"

definition RoutesAreConsistent :: "RouteSpec list \<Rightarrow> bool" where
  "RoutesAreConsistent routes = routes_consistent_from [] routes"

definition Execute :: "RouteSpec \<Rightarrow> string \<Rightarrow> MemoryView \<Rightarrow> ChecksumResult option option" where
  "Execute spec romid view =
     (case route_of spec of
        kDensoSh7xxx \<Rightarrow> Some (Some (DensoSh7xxx view (table_address_of spec)))
      | kDensoDiesel \<Rightarrow> Some (Some (DensoSh705xDiesel view (table_address_of spec)))
      | kDensoTcuSh7055 \<Rightarrow> map_option Some (RunFixedLayout 0x80000 DensoSH7055_CalculateChecksumResult view)
      | kM32rByRomId \<Rightarrow>
          if StartsWith romid ''3'' then
            map_option Some (RunFixedLayout 0x80000 HitachiM32rKline_CalculateChecksumResult view)
          else if StartsWith romid ''4'' \<or> StartsWith romid ''6'' then
            map_option Some (RunFixedLayout 0x80000 HitachiM32rCan_CalculateChecksumResult view)
          else Some None
      | kM32rCan \<Rightarrow> map_option Some (RunFixedLayout 0x80000 HitachiM32rCan_CalculateChecksumResult view)
      | kSh7058 \<Rightarrow> map_option Some (RunFixedLayout 0x100000 HitachiSH7058_CalculateChecksumResult view)
      | kSh72543r \<Rightarrow> map_option Some (RunFixedLayout 0x200000 HitachiSh72543r_CalculateChecksumResult view)
      | kHitachiM32rTcu \<Rightarrow> Some (Some (TcuHitachiM32rCan_CalculateChecksumResult (view_data view)))
      | kMitsuMh8104Tcu \<Rightarrow> map_option Some (RunFixedLayout 0x80000 MitsuMH8104Can_CalculateChecksumResult view)
      | kMitsuColtM32rCan \<Rightarrow> Some (Some (MitsuM32rCan_CalculateChecksumResult (view_data view))))"

definition FindRoute :: "string \<Rightarrow> string \<Rightarrow> RouteSpec option" where
  "FindRoute mk method = find (\<lambda>spec. make_of spec = mk \<and> StartsWith method (prefix_of spec)) kRoutes"

definition HasRoute :: "string \<Rightarrow> string \<Rightarrow> bool" where
  "HasRoute mk method \<longleftrightarrow> FindRoute mk method \<noteq> None"

section \<open>Write-back\<close>

text \<open>The inner loop: the end of the run of differing bytes from an index on.\<close>

function run_end :: "bytes \<Rightarrow> bytes \<Rightarrow> nat \<Rightarrow> nat" where
  "run_end original after i =
     (if i < length original \<and> original ! i \<noteq> after ! i then run_end original after (Suc i) else i)"
  by pat_completeness auto
termination
  by (relation "measure (\<lambda>(original, _, i). length original - i)") auto

declare run_end.simps [simp del]

lemma run_end_ge: "i \<le> run_end original after i"
  by (induction original after i rule: run_end.induct) (subst run_end.simps, auto)

lemma run_end_gt:
  assumes "i < length original" and "original ! i \<noteq> after ! i"
  shows "i < run_end original after i"
proof -
  have "run_end original after i = run_end original after (Suc i)"
    using assms by (subst run_end.simps) simp
  with run_end_ge [of "Suc i" original after] show ?thesis by simp
qed

function write_back ::
  "MemoryImage \<Rightarrow> MemoryView \<Rightarrow> bytes \<Rightarrow> nat \<Rightarrow> ((MemoryError + unit) \<times> MemoryImage) option" where
  "write_back img before after index =
     (let original = view_data before in
      if index < length original then
        if original ! index = after ! index then write_back img before after (Suc index)
        else
          let run_start = index; stop = run_end original after index in
          (case Advance (Start (view_range before)) (ByteCount (of_nat run_start)) of
             None \<Rightarrow> None
           | Some address \<Rightarrow>
               (case Write img address (subspan after run_start (stop - run_start)) of
                  None \<Rightarrow> None
                | Some (Inl e, img2) \<Rightarrow> Some (Inl e, img2)
                | Some (Inr _, img2) \<Rightarrow> write_back img2 before after stop))
      else Some (Inr (), img))"
  by pat_completeness auto
termination
  by (relation "measure (\<lambda>(_, before, _, index). length (view_data before) - index)")
    (auto intro!: diff_less_mono2 run_end_gt)

declare write_back.simps [simp del]

definition WriteBack :: "MemoryImage \<Rightarrow> MemoryView \<Rightarrow> bytes \<Rightarrow> ((MemoryError + unit) \<times> MemoryImage) option" where
  "WriteBack img before after = write_back img before after 0"

section \<open>The correction\<close>

definition outcome_of :: "CorrectionStatus \<Rightarrow> ChecksumCorrectionOutcome" where
  "outcome_of st = \<lparr>outcome_status = st, family_result = None, corrected_file = None\<rparr>"

definition ApplyChecksumCorrection ::
  "MemoryImage \<Rightarrow> ChecksumSelection \<Rightarrow> ChecksumCorrectionOutcome option" where
  "ApplyChecksumCorrection img selection =
     (if FindFlashDevice (mcu_type selection) = None then Some (outcome_of kUnknownMcuType)
      else if checksum_flag selection \<noteq> ''yes'' then Some (outcome_of kNoModuleForProtocol)
      else case FindRoute (sel_make selection) (flash_method selection) of
        None \<Rightarrow> Some (outcome_of kNoModuleForProtocol)
      | Some route \<Rightarrow>
          Option.bind (Span (image_map img)) (\<lambda>span.
          if span \<noteq> window_of route then Some (outcome_of kBadRomSize)
          else Option.bind (Render img (window_of route)) (\<lambda>rendered.
            case rendered of
              Inl _ \<Rightarrow> Some (outcome_of kBadRomSize)
            | Inr view \<Rightarrow>
                Option.bind (Execute route (rom_id selection) view) (\<lambda>fr.
                  let outcome = \<lparr>outcome_status = kFamilyRan, family_result = fr, corrected_file = None\<rparr> in
                  case fr of
                    None \<Rightarrow> Some outcome
                  | Some result \<Rightarrow>
                      if \<not> Ok result \<or> length (rom_data result) \<noteq> length (view_data view) then Some outcome
                      else Option.bind (WriteBack img view (rom_data result)) (\<lambda>(written, corrected).
                        case written of
                          Inl e \<Rightarrow> Some (outcome\<lparr>family_result := Some (result\<lparr>status := kUnsupportedRom,
                            message := ''Checksum correction would change ROM bytes the protocol cannot write: '' @
                              error_detail e\<rparr>)\<rparr>)
                        | Inr _ \<Rightarrow> Some (outcome\<lparr>corrected_file := Some (image_file corrected)\<rparr>))))))"

section \<open>The route table\<close>

lemma EcuWindow_eq: "n \<noteq> 0 \<Longrightarrow> n \<le> - 1 - s \<Longrightarrow>
    EcuWindow s n = \<lparr>Start = TaggedPosition s, Size = ByteCount n, End = TaggedPosition (s + n)\<rparr>"
  by (simp add: EcuWindow_def MakeRange_def Advance_def)

lemma kRoutes_windows: "\<forall>r \<in> set kRoutes. wf_range (window_of r)"
  by (simp add: kRoutes_def route_spec_def EcuWindow_eq wf_range_def addr_def count_of_def)

lemma kRoutes_consistent: "RoutesAreConsistent kRoutes"
  by (simp add: RoutesAreConsistent_def kRoutes_def route_spec_def route_consistent_def EcuWindow_eq
      MakeRange_def Advance_def kDensoTableLength_def ContainsRange_def less_eq_tagged_position_def StartsWith_def)

section \<open>Write-back writes exactly the changed bytes\<close>

lemma run_end_differs: "i \<le> j \<Longrightarrow> j < run_end original after i \<Longrightarrow> original ! j \<noteq> after ! j \<and> j < length original"
proof (induction original after i rule: run_end.induct)
  case (1 original after i)
  then show ?case
    by (cases "i < length original \<and> original ! i \<noteq> after ! i"; cases "j = i")
      (subst (asm) run_end.simps, auto)+
qed

lemma run_end_le: "i \<le> length original \<Longrightarrow> run_end original after i \<le> length original"
  by (induction original after i rule: run_end.induct) (subst run_end.simps, auto)

definition overlaid :: "MemoryImage \<Rightarrow> nat \<Rightarrow> nat \<Rightarrow> nat \<Rightarrow> bytes \<Rightarrow> MemoryImage \<Rightarrow> bool" where
  "overlaid img s from to after img' \<longleftrightarrow> wf_image img' \<and> image_map img' = image_map img \<and>
     (\<forall>a. abs_read img' a = (if s + from \<le> a \<and> a < s + to then Some (after ! (a - s)) else abs_read img a))"

lemma overlaid_trans:
  "overlaid img s i j after img1 \<Longrightarrow> overlaid img1 s j k after img2 \<Longrightarrow> i \<le> j \<Longrightarrow> j \<le> k \<Longrightarrow>
   overlaid img s i k after img2"
  by (auto simp: overlaid_def)

lemma wrote_overlaid:
  assumes "wrote img (s + i) (subspan after i (j - i)) img'" and "i \<le> j" and "j \<le> length after"
  shows "overlaid img s i j after img'"
  using assms by (auto simp: wrote_def overlaid_def nth_subspan)

definition write_back_post ::
  "MemoryImage \<Rightarrow> nat \<Rightarrow> nat \<Rightarrow> bytes \<Rightarrow> bytes \<Rightarrow> MemoryError + unit \<Rightarrow> MemoryImage \<Rightarrow> bool" where
  "write_back_post img s index org after res img' \<longleftrightarrow>
     (if \<forall>i \<in> {index..<length after}. org ! i \<noteq> after ! i \<longrightarrow> can_write img (s + i)
      then res = Inr () \<and> overlaid img s index (length after) after img'
      else \<exists>e. res = Inl e)"

lemma post_skip:
  assumes "write_back_post img s (Suc index) org after res img'" and "org ! index = after ! index"
    and "index < length after" and "abs_read img (s + index) = Some (after ! index)"
  shows "write_back_post img s index org after res img'"
proof -
  have set: "{index..<length after} = insert index {Suc index..<length after}" using assms(3) by auto
  have "overlaid img s index (length after) after img'" if over: "overlaid img s (Suc index) (length after) after img'"
  proof -
    have "abs_read img' a = (if s + index \<le> a \<and> a < s + length after then Some (after ! (a - s)) else abs_read img a)" for a
      using over assms(3,4) by (cases "a = s + index") (auto simp: overlaid_def)
    with over show ?thesis by (simp add: overlaid_def)
  qed
  with assms show ?thesis unfolding write_back_post_def set by (auto split: if_splits)
qed

lemma post_run:
  assumes "write_back_post img1 s stop org after res img'" and "overlaid img s index stop after img1"
    and "index \<le> stop" and "stop \<le> length after" and "\<forall>i \<in> {index..<stop}. can_write img (s + i)"
  shows "write_back_post img s index org after res img'"
proof -
  have set: "{index..<length after} = {index..<stop} \<union> {stop..<length after}" using assms(3,4) by auto
  have "can_write img1 a = can_write img a" for a using assms(2) by (simp add: overlaid_def can_write_def)
  with assms overlaid_trans [OF assms(2) _ assms(3,4)] show ?thesis
    unfolding write_back_post_def set by (auto split: if_splits)
qed

lemma write_back_correct:
  assumes len: "length after = length (view_data before)"
    and fits: "addr (Start (view_range before)) + length after < 2 ^ 32"
  shows "wf_image img \<Longrightarrow> index \<le> length after \<Longrightarrow>
    \<forall>i \<in> {index..<length after}. abs_read img (addr (Start (view_range before)) + i) = Some (view_data before ! i) \<Longrightarrow>
    \<exists>res img'. write_back img before after index = Some (res, img') \<and>
      write_back_post img (addr (Start (view_range before))) index (view_data before) after res img'"
  using assms
proof (induction img before after index rule: write_back.induct)
  case (1 img before after index)
  let ?s = "addr (Start (view_range before))" and ?org = "view_data before"
  show ?case
  proof (cases "index < length ?org")
    case False
    then show ?thesis
      using "1.prems" by (subst write_back.simps) (auto simp: overlaid_def write_back_post_def)
  next
    case inside: True
    show ?thesis
    proof (cases "?org ! index = after ! index")
      case True
      have step: "write_back img before after index = write_back img before after (Suc index)"
        using inside True by (subst write_back.simps) (simp add: Let_def)
      have here: "abs_read img (?s + index) = Some (after ! index)"
        using "1.prems"(3,4) inside True by simp
      obtain res img' where "write_back img before after (Suc index) = Some (res, img')"
          "write_back_post img ?s (Suc index) ?org after res img'"
        using "1.IH"(1) [OF refl inside True] "1.prems" inside by auto
      then show ?thesis
        using post_skip [OF _ True _ here] step inside "1.prems"(4) by auto
    next
      case diff: False
      let ?stop = "run_end ?org after index"
      have stop: "index < ?stop" "?stop \<le> length after"
        using run_end_gt [OF inside diff] run_end_le [of index ?org after] inside "1.prems" by auto
      have c: "count_of (ByteCount (of_nat index)) = index"
        using "1.prems" stop by (simp add: count_of_def unat_of_nat)
      obtain address where adv: "Advance (Start (view_range before)) (ByteCount (of_nat index)) = Some address"
        using Advance_None_iff [of "Start (view_range before)" "ByteCount (of_nat index)"] c "1.prems" stop by (cases "Advance (Start (view_range before)) (ByteCount (of_nat index))") auto
      then have address: "addr address = ?s + index" by (simp add: Advance_iff c)
      let ?data = "subspan after index (?stop - index)"
      have dlen: "length ?data = ?stop - index" using stop by simp
      then have range: "[addr address..<addr address + length ?data] = [?s + index..<?s + ?stop]"
        using stop address by simp
      have notpast: "\<not> (?data \<noteq> [] \<and> 2 ^ 32 \<le> addr address + length ?data)"
        using dlen address stop "1.prems"(5) by simp
      obtain res img1 where w: "Write img address ?data = Some (res, img1)" and
        wr: "case first_error write_error (image_map img) [?s + index..<?s + ?stop] of
          Some (k, a) \<Rightarrow> res = Inl (error_at k a) \<and> img1 = img
        | None \<Rightarrow> res = Inr () \<and> wrote img (?s + index) ?data img1"
        using Write_refines [OF "1.prems"(1), of address ?data]
        unfolding if_not_P [OF notpast] range unfolding address by blast
      have none: "first_error write_error (image_map img) [?s + index..<?s + ?stop] = None \<longleftrightarrow>
          (\<forall>i \<in> {index..<?stop}. can_write img (?s + i))"
      proof -
        have "{?s + index..<?s + ?stop} = (+) ?s ` {index..<?stop}" by (simp add: add.commute)
        then have "(\<forall>a \<in> {?s + index..<?s + ?stop}. P a) \<longleftrightarrow> (\<forall>i \<in> {index..<?stop}. P (?s + i))" for P
          by (simp only: ball_simps)
        then show ?thesis by (simp add: first_error_None_iff can_write_iff [OF "1.prems"(1)])
      qed
      have runs: "\<forall>i \<in> {index..<?stop}. ?org ! i \<noteq> after ! i" using run_end_differs by auto
      have split: "{index..<length after} = {index..<?stop} \<union> {?stop..<length after}" using stop by auto
      show ?thesis
      proof (cases "\<forall>i \<in> {index..<?stop}. can_write img (?s + i)")
        case False
        then obtain e where "res = Inl e" using wr none by (auto split: option.splits)
        then have "write_back img before after index = Some (Inl e, img1)"
          using inside diff adv w by (subst write_back.simps) (simp add: Let_def)
        moreover have "write_back_post img ?s index ?org after (Inl e) img1"
          unfolding write_back_post_def split using False runs by auto
        ultimately show ?thesis by blast
      next
        case True
        then have ok: "res = Inr ()" "overlaid img ?s index ?stop after img1"
          using wr none wrote_overlaid [of img ?s index after ?stop img1] stop by (auto split: option.splits)
        then have step: "write_back img before after index = write_back img1 before after ?stop"
          using inside diff adv w by (subst write_back.simps) (simp add: Let_def)
        have img1: "wf_image img1" using ok(2) by (simp add: overlaid_def)
        have reads: "\<forall>i \<in> {?stop..<length after}. abs_read img1 (?s + i) = Some (?org ! i)"
          using ok(2) "1.prems"(3) stop by (auto simp: overlaid_def)
        obtain res' img' where "write_back img1 before after ?stop = Some (res', img')"
            "write_back_post img1 ?s ?stop ?org after res' img'"
          using "1.IH"(2) [OF refl inside diff refl refl adv w refl] img1 reads stop "1.prems"(4,5) ok(1) by auto
        then show ?thesis using post_run [OF _ ok(2) _ stop(2) True] stop(1) step by auto
      qed
    qed
  qed
qed

section \<open>The correction as a whole\<close>

lemma kRoutes_fixed_size:
  "\<forall>r \<in> set kRoutes. case FixedRomSize (route_of r) of None \<Rightarrow> True | Some n \<Rightarrow> Size (window_of r) = ByteCount n"
  by (simp add: kRoutes_def route_spec_def EcuWindow_eq)

lemma Execute_defined:
  assumes "r \<in> set kRoutes" and "length (view_data view) = count_of (Size (window_of r))"
  shows "\<exists>fr. Execute r romid view = Some fr"
proof -
  have "case FixedRomSize (route_of r) of None \<Rightarrow> True | Some n \<Rightarrow> length (view_data view) = unat n"
    using kRoutes_fixed_size assms by (auto simp: count_of_def split: option.splits)
  then show ?thesis
    by (cases "route_of r") (auto simp: Execute_def RunFixedLayout_def)
qed

lemma FindRoute_in: "FindRoute mk method = Some r \<Longrightarrow> r \<in> set kRoutes"
  by (auto simp: FindRoute_def find_Some_iff)

lemma Render_view:
  assumes "wf_image img" and "wf_range r" and "Render img r = Some (Inr view)"
  shows "view_range view = r" and "length (view_data view) = count_of (Size r)"
    and "\<forall>i < length (view_data view). abs_read img (addr (Start r) + i) = Some (view_data view ! i)"
proof -
  have v: "view_range view = r" "map Some (view_data view) = map (abs_read img) (addrs_of r)"
    using Render_refines [OF assms(1,2)] assms(3) by (auto split: option.splits prod.splits)
  then show "view_range view = r" by simp
  have "length (view_data view) = length (addrs_of r)" using arg_cong [OF v(2), of length] by simp
  then show len: "length (view_data view) = count_of (Size r)" using assms(2) by (simp add: length_addrs_of)
  show "\<forall>i < length (view_data view). abs_read img (addr (Start r) + i) = Some (view_data view ! i)"
  proof (intro allI impI)
    fix i assume i: "i < length (view_data view)"
    then have "addrs_of r ! i = addr (Start r) + i" using len assms(2) by (simp add: addrs_of_def wf_range_def)
    moreover have "map Some (view_data view) ! i = map (abs_read img) (addrs_of r) ! i" using v(2) by simp
    ultimately show "abs_read img (addr (Start r) + i) = Some (view_data view ! i)"
      using i len assms(2) by (simp add: length_addrs_of)
  qed
qed

lemma WriteBack_correct:
  assumes "wf_image img" and "wf_range r" and "Render img r = Some (Inr view)"
    and "length after = length (view_data view)"
  shows "\<exists>res img'. WriteBack img view after = Some (res, img') \<and>
    write_back_post img (addr (Start r)) 0 (view_data view) after res img'"
proof -
  note v = Render_view [OF assms(1,2,3)]
  have "addr (Start r) + length after < 2 ^ 32"
    using assms(2,4) v(2) addr_bound [of "End r"] by (simp add: wf_range_def)
  then show ?thesis
    using write_back_correct [of after view img 0] v assms(1,4) by (auto simp: WriteBack_def)
qed

text \<open>The branch where a family runs and its bytes are accepted.\<close>

definition family_ran ::
  "MemoryImage \<Rightarrow> ChecksumSelection \<Rightarrow> RouteSpec \<Rightarrow> MemoryView \<Rightarrow> ChecksumResult \<Rightarrow> bool" where
  "family_ran img sel route view result \<longleftrightarrow>
     FindFlashDevice (mcu_type sel) \<noteq> None \<and> checksum_flag sel = ''yes'' \<and>
     FindRoute (sel_make sel) (flash_method sel) = Some route \<and>
     Span (image_map img) = Some (window_of route) \<and>
     Render img (window_of route) = Some (Inr view) \<and>
     Execute route (rom_id sel) view = Some (Some result) \<and>
     Ok result \<and> length (rom_data result) = length (view_data view)"

lemma Apply_family_ran:
  assumes "wf_image img" and "family_ran img sel route view result"
  shows "\<exists>out. ApplyChecksumCorrection img sel = Some out \<and> outcome_status out = kFamilyRan \<and>
    (if \<forall>i < length (view_data view). view_data view ! i \<noteq> rom_data result ! i \<longrightarrow>
          can_write img (addr (Start (window_of route)) + i)
     then \<exists>f. corrected_file out = Some f \<and> family_result out = Some result \<and>
            overlaid img (addr (Start (window_of route))) 0 (length (view_data view)) (rom_data result)
              (img\<lparr>image_file := f\<rparr>)
     else corrected_file out = None \<and> map_option status (family_result out) = Some kUnsupportedRom)"
proof -
  let ?s = "addr (Start (window_of route))"
  have ran: "FindRoute (sel_make sel) (flash_method sel) = Some route"
      "Span (image_map img) = Some (window_of route)" "Render img (window_of route) = Some (Inr view)"
      "Execute route (rom_id sel) view = Some (Some result)" "Ok result"
      "length (rom_data result) = length (view_data view)" "FindFlashDevice (mcu_type sel) \<noteq> None"
      "checksum_flag sel = ''yes''"
    using assms(2) by (simp_all add: family_ran_def)
  have "wf_range (window_of route)" using kRoutes_windows FindRoute_in [OF ran(1)] by blast
  then obtain res img' where wb: "WriteBack img view (rom_data result) = Some (res, img')"
      "write_back_post img ?s 0 (view_data view) (rom_data result) res img'"
    using WriteBack_correct [OF assms(1) _ ran(3,6)] by blast
  let ?ok = "\<forall>i < length (view_data view). view_data view ! i \<noteq> rom_data result ! i \<longrightarrow> can_write img (?s + i)"
  show ?thesis
  proof (cases ?ok)
    case True
    then have res: "res = Inr ()" "overlaid img ?s 0 (length (view_data view)) (rom_data result) img'"
      using wb(2) ran(6) by (auto simp: write_back_post_def split: if_splits)
    then have "img' = img\<lparr>image_file := image_file img'\<rparr>" by (simp add: overlaid_def)
    moreover have "ApplyChecksumCorrection img sel = Some \<lparr>outcome_status = kFamilyRan,
        family_result = Some result, corrected_file = Some (image_file img')\<rparr>"
      using ran wb(1) res(1) by (auto simp: ApplyChecksumCorrection_def Let_def)
    ultimately show ?thesis using True res(2) by auto
  next
    case False
    then obtain e where "res = Inl e"
      using wb(2) ran(6) by (auto simp: write_back_post_def split: if_splits)
    then have "\<exists>out. ApplyChecksumCorrection img sel = Some out \<and> outcome_status out = kFamilyRan \<and>
        corrected_file out = None \<and> map_option status (family_result out) = Some kUnsupportedRom"
      using ran wb(1) by (auto simp: ApplyChecksumCorrection_def Let_def)
    then show ?thesis unfolding if_not_P [OF False] .
  qed
qed

lemma Apply_not_ran:
  assumes "wf_image img" and "\<nexists>route view result. family_ran img sel route view result"
  shows "\<exists>out. ApplyChecksumCorrection img sel = Some out \<and> corrected_file out = None"
proof (cases "FindFlashDevice (mcu_type sel) = None \<or> checksum_flag sel \<noteq> ''yes'' \<or>
    FindRoute (sel_make sel) (flash_method sel) = None")
  case True
  then show ?thesis by (auto simp: ApplyChecksumCorrection_def outcome_of_def)
next
  case False
  then obtain route where route: "FindRoute (sel_make sel) (flash_method sel) = Some route"
      "FindFlashDevice (mcu_type sel) \<noteq> None" "checksum_flag sel = ''yes''" by auto
  have mem: "route \<in> set kRoutes" and wf: "wf_range (window_of route)"
    using kRoutes_windows FindRoute_in [OF route(1)] by blast+
  obtain sp where sp: "Span (image_map img) = Some sp"
    using Span_covers assms(1) by (auto simp: wf_image_def)
  obtain rd where rd: "Render img (window_of route) = Some rd"
    using Render_refines [OF assms(1) wf] by blast
  show ?thesis
  proof (cases "sp = window_of route \<and> (\<exists>view. rd = Inr view)")
    case False
    then show ?thesis
      using route sp rd by (cases rd) (auto simp: ApplyChecksumCorrection_def outcome_of_def)
  next
    case True
    then obtain view where view: "sp = window_of route" "rd = Inr view" by blast
    obtain fr where fr: "Execute route (rom_id sel) view = Some fr"
      using Execute_defined [OF mem] Render_view(2) [OF assms(1) wf] rd view(2) by blast
    have "\<not> (\<exists>result. fr = Some result \<and> Ok result \<and> length (rom_data result) = length (view_data view))"
      using assms(2) route sp rd view fr by (auto simp: family_ran_def)
    then show ?thesis
      using route sp rd view fr by (cases fr) (auto simp: ApplyChecksumCorrection_def Let_def)
  qed
qed

section \<open>Route choice\<close>

lemma consistent_earlier:
  assumes "routes_consistent_from earlier rs" and "r \<in> set rs" and "e \<in> set earlier"
  shows "\<not> (make_of e = make_of r \<and> StartsWith (prefix_of r) (prefix_of e))"
  using assms by (induction earlier rs rule: routes_consistent_from.induct)
    (auto simp: route_consistent_def list_all_iff)

text \<open>In a consistent table no route is shadowed by an earlier one.\<close>

lemma consistent_find:
  assumes "routes_consistent_from earlier rs" and "r \<in> set rs"
  shows "find (\<lambda>s. make_of s = make_of r \<and> StartsWith (prefix_of r) (prefix_of s)) rs = Some r"
  using assms
proof (induction earlier rs rule: routes_consistent_from.induct)
  case (2 earlier x rest)
  show ?case
  proof (cases "x = r")
    case True
    then show ?thesis by (simp add: StartsWith_def)
  next
    case False
    with "2.prems" have r: "r \<in> set rest" "routes_consistent_from (earlier @ [x]) rest" by auto
    then have "\<not> (make_of x = make_of r \<and> StartsWith (prefix_of r) (prefix_of x))"
      using consistent_earlier by fastforce
    with "2.IH" r show ?thesis by auto
  qed
qed simp

lemma family_ran_unique:
  "family_ran img sel r v q \<Longrightarrow> family_ran img sel r' v' q' \<Longrightarrow> r' = r \<and> v' = v \<and> q' = q"
  by (simp add: family_ran_def)

lemma overlaid_unique:
  assumes "overlaid img s i j d (img\<lparr>image_file := f\<rparr>)" and "overlaid img s i j d (img\<lparr>image_file := g\<rparr>)"
  shows "f = g"
proof -
  have "img\<lparr>image_file := f\<rparr> = img\<lparr>image_file := g\<rparr>"
    by (rule image_ext) (use assms in \<open>auto simp: overlaid_def\<close>)
  then show ?thesis by (metis MemoryImage.select_convs(2) MemoryImage.surjective MemoryImage.update_convs(2))
qed

section \<open>Properties\<close>

text \<open>C2: \<^verbatim>\<open>ApplyChecksumCorrection\<close> always returns on an image of an accepted map. It yields a
  corrected file exactly when a route applies, the map spans the route's window, its family
  succeeded and every byte the family changed is writable; that file is then the one through which
  the window reads as the family's result and every other address as before.\<close>

theorem dispatch_writes_the_family_result:
  assumes "wf_image img"
  shows "\<exists>out. ApplyChecksumCorrection img sel = Some out \<and>
    (\<forall>f. corrected_file out = Some f \<longleftrightarrow>
      (\<exists>route view result. family_ran img sel route view result \<and>
         list_all (\<lambda>i. view_data view ! i = rom_data result ! i \<or> can_write img (addr (Start (window_of route)) + i))
           [0..<length (view_data view)] \<and>
         overlaid img (addr (Start (window_of route))) 0 (length (view_data view)) (rom_data result)
           (img\<lparr>image_file := f\<rparr>)))"
proof (cases "\<exists>route view result. family_ran img sel route view result")
  case True
  then obtain route view result where ran: "family_ran img sel route view result" by blast
  let ?w = "list_all (\<lambda>i. view_data view ! i = rom_data result ! i \<or> can_write img (addr (Start (window_of route)) + i))
           [0..<length (view_data view)]"
  let ?o = "\<lambda>f. overlaid img (addr (Start (window_of route))) 0 (length (view_data view)) (rom_data result)
           (img\<lparr>image_file := f\<rparr>)"
  have w: "?w \<longleftrightarrow> (\<forall>i < length (view_data view). view_data view ! i \<noteq> rom_data result ! i \<longrightarrow>
      can_write img (addr (Start (window_of route)) + i))" by (auto simp: list_all_iff)
  obtain out where out: "ApplyChecksumCorrection img sel = Some out"
    "if ?w then \<exists>f. corrected_file out = Some f \<and> ?o f else corrected_file out = None"
    using Apply_family_ran [OF assms ran] unfolding w [symmetric] by (cases ?w) auto
  have "corrected_file out = Some f \<longleftrightarrow> ?w \<and> ?o f" for f
    using out(2) overlaid_unique by (auto split: if_splits)
  moreover have "(\<exists>route view result. family_ran img sel route view result \<and> P route view result) \<longleftrightarrow> P route view result" for P
    using ran family_ran_unique [OF ran] by blast
  ultimately show ?thesis using out(1) by (intro exI [of _ out]) simp
next
  case False
  then show ?thesis using Apply_not_ran [OF assms False] by auto
qed

text \<open>A blank Mitsubishi M32R image through the identity map.\<close>

definition sample_mitsu_map :: MemoryMap where
  "sample_mitsu_map =
     \<lparr>blocks_of = [\<lparr>block_range = EcuWindow 0 0x60000, block_backing = FileBacking (TaggedPosition 0),
        block_writability = kWritable\<rparr>], file_size_of = ByteCount 0x60000, definition_base_of = TaggedPosition 0\<rparr>"

definition sample_mitsu_image :: MemoryImage where
  "sample_mitsu_image = \<lparr>image_map = sample_mitsu_map, image_file = sample_mitsu_rom\<rparr>"

definition sample_mitsu_selection :: ChecksumSelection where
  "sample_mitsu_selection =
     \<lparr>sel_make = ''Mitsubishi'', checksum_flag = ''yes'', flash_method = ''mitsu_ecu_m32r_can'',
      mcu_type = ''M32R_384KB'', rom_id = ''''\<rparr>"

lemma sample_mitsu_identity: "Identity (ByteCount 0x60000) = Inr sample_mitsu_map"
  by (simp add: Identity_def MakeRange_def Advance_def MemoryMap_Create_def sample_mitsu_map_def EcuWindow_def
      writable_fill_def CheckFilePlacement_def less_eq_tagged_position_def less_tagged_position_def)

lemma sample_mitsu_wf: "wf_image sample_mitsu_image"
  using Identity_correct [of "ByteCount 0x60000"] sample_mitsu_identity
  by (simp add: wf_image_def sample_mitsu_image_def sample_mitsu_rom_def count_of_def)


lemma sample_mitsu_reads: "abs_read sample_mitsu_image a = (if a < 0x60000 then Some (sample_mitsu_rom ! a) else None)"
  by (simp add: abs_read_def sample_mitsu_image_def sample_mitsu_map_def block_in_def holds_def EcuWindow_eq addr_def
      file_pos_def)

lemma sample_mitsu_length: "length sample_mitsu_rom = 0x60000"
  by (simp add: sample_mitsu_rom_def)

definition sample_mitsu_view :: MemoryView where
  "sample_mitsu_view = \<lparr>view_range = EcuWindow 0 0x60000, view_data = sample_mitsu_rom\<rparr>"

lemma sample_mitsu_window: "wf_range (EcuWindow 0 0x60000)" "addrs_of (EcuWindow 0 0x60000) = [0..<0x60000]"
  by (simp_all add: EcuWindow_eq wf_range_def addrs_of_def addr_def count_of_def)

lemma sample_mitsu_render: "Render sample_mitsu_image (EcuWindow 0 0x60000) = Some (Inr sample_mitsu_view)"
proof -
  have "first_error read_error (image_map sample_mitsu_image) [0..<0x60000] = None"
    unfolding first_error_None_iff
    by (simp add: sample_mitsu_image_def sample_mitsu_map_def block_in_def holds_def EcuWindow_eq addr_def read_error_def)
  then obtain view where v: "Render sample_mitsu_image (EcuWindow 0 0x60000) = Some (Inr view)"
      "view_range view = EcuWindow 0 0x60000" "map Some (view_data view) = map (abs_read sample_mitsu_image) [0..<0x60000]"
    using Render_refines [OF sample_mitsu_wf sample_mitsu_window(1)] unfolding sample_mitsu_window(2) by auto
  moreover have "map (abs_read sample_mitsu_image) [0..<0x60000] = map Some sample_mitsu_rom"
    by (rule nth_equalityI) (simp_all add: sample_mitsu_length sample_mitsu_reads)
  ultimately have "view_data view = sample_mitsu_rom" by (simp add: inj_map_eq_map)
  with v show ?thesis by (simp add: sample_mitsu_view_def)
qed

lemma sample_mitsu_route:
  "FindRoute ''Mitsubishi'' ''mitsu_ecu_m32r_can'' = Some (last kRoutes)"
  "window_of (last kRoutes) = EcuWindow 0 0x60000" "route_of (last kRoutes) = kMitsuColtM32rCan"
proof -
  have last: "make_of (last kRoutes) = ''Mitsubishi''" "prefix_of (last kRoutes) = ''mitsu_ecu_m32r_can''"
      "kRoutes \<noteq> []" "routes_consistent_from [] kRoutes"
    using kRoutes_consistent by (simp_all add: kRoutes_def route_spec_def RoutesAreConsistent_def)
  show "FindRoute ''Mitsubishi'' ''mitsu_ecu_m32r_can'' = Some (last kRoutes)"
    using consistent_find [OF last(4) last_in_set [OF last(3)]] last(1,2) by (simp add: FindRoute_def)
  show "window_of (last kRoutes) = EcuWindow 0 0x60000" "route_of (last kRoutes) = kMitsuColtM32rCan"
    by (simp_all add: kRoutes_def route_spec_def)
qed

lemma sample_mitsu_ran:
  "family_ran sample_mitsu_image sample_mitsu_selection (last kRoutes) sample_mitsu_view
     (MitsuM32rCan_CalculateChecksumResult sample_mitsu_rom)"
proof -
  have "Span (image_map sample_mitsu_image) = Some (EcuWindow 0 0x60000)"
    by (simp add: Span_def sample_mitsu_image_def sample_mitsu_map_def EcuWindow_eq Between_def DistanceFrom_def
        MakeRange_def Advance_def)
  moreover have "Ok (MitsuM32rCan_CalculateChecksumResult sample_mitsu_rom)"
    using sample_mitsu_layout
    by (auto simp: Ok_def MitsuM32rCan_CalculateChecksumResult_def MitsuM32rCan_layout_def Let_def)
  moreover have "\<exists>d. FindFlashDevice ''M32R_384KB'' = Some d"
  proof -
    have "\<exists>d \<in> set kFlashDevices. dev_name d = ''M32R_384KB''" by (simp add: kFlashDevices_def device_def)
    then show ?thesis using FindFlashDevice_iff by blast
  qed
  moreover have "length (rom_data (MitsuM32rCan_CalculateChecksumResult sample_mitsu_rom)) = length sample_mitsu_rom"
    by (rule mitsu_m32r.keeps_length [OF sample_mitsu_layout])
  ultimately show ?thesis
    by (auto simp: family_ran_def sample_mitsu_selection_def sample_mitsu_route sample_mitsu_render Execute_def)
      (simp_all add: sample_mitsu_view_def)
qed

theorem dispatch_writes_the_family_result_witness:
  "wf_image sample_mitsu_image \<and>
   (\<exists>out f. ApplyChecksumCorrection sample_mitsu_image sample_mitsu_selection = Some out \<and>
      corrected_file out = Some f \<and>
      overlaid sample_mitsu_image 0 0 0x60000 (rom_data (MitsuM32rCan_CalculateChecksumResult sample_mitsu_rom))
        (sample_mitsu_image\<lparr>image_file := f\<rparr>))"
proof -
  let ?r = "MitsuM32rCan_CalculateChecksumResult sample_mitsu_rom"
  have start: "addr (Start (window_of (last kRoutes))) = 0" by (simp add: sample_mitsu_route EcuWindow_eq addr_def)
  have len: "length (view_data sample_mitsu_view) = 0x60000" by (simp add: sample_mitsu_view_def sample_mitsu_length)
  have "\<forall>i < 0x60000. can_write sample_mitsu_image i"
    by (simp add: can_write_def sample_mitsu_image_def sample_mitsu_map_def block_in_def holds_def EcuWindow_eq addr_def)
  then obtain out f where out: "ApplyChecksumCorrection sample_mitsu_image sample_mitsu_selection = Some out"
      "corrected_file out = Some f"
    using Apply_family_ran [OF sample_mitsu_wf sample_mitsu_ran] unfolding start len by auto
  then obtain route view result where ran: "family_ran sample_mitsu_image sample_mitsu_selection route view result"
      and over: "overlaid sample_mitsu_image (addr (Start (window_of route))) 0 (length (view_data view)) (rom_data result)
        (sample_mitsu_image\<lparr>image_file := f\<rparr>)"
    using dispatch_writes_the_family_result [OF sample_mitsu_wf, of sample_mitsu_selection]
    by (metis (no_types, lifting) option.inject)
  have "overlaid sample_mitsu_image 0 0 0x60000 (rom_data ?r) (sample_mitsu_image\<lparr>image_file := f\<rparr>)"
    using over family_ran_unique [OF sample_mitsu_ran ran] start len by simp
  with out sample_mitsu_wf show ?thesis by blast
qed


end
