(* ===== verification/Ssm_Protocol.thy ===== *)
theory Ssm_Protocol
  imports Bytes
begin

text \<open>
  \<^verbatim>\<open>algorithms/protocol/ssm/ssm_protocol_core.h/.cpp\<close>: the Subaru seed-key and payload transforms
  and SSM framing. The transform is a Feistel network over 16-bit halves; the locale
  \<open>xor_keyed_round\<close> states what the attack and the decryption rely on of its round function, and is
  interpreted on the pair-table rounds.
\<close>

section \<open>Tables\<close>

type_synonym PairTable = "u16 list"

definition BuildPairTable :: "u8 list \<Rightarrow> PairTable" where
  "BuildPairTable indextransformation =
     map (\<lambda>i. ucast (indextransformation ! unat ((of_nat i :: u32) AND 0x1F))
              + push_bit 4 (ucast (indextransformation ! unat (drop_bit 4 (of_nat i :: u32) AND 0x1F))))
         [0..<512]"

definition kIndexTransformationStock :: "u8 list" where
  "kIndexTransformationStock =
     [0x5, 0x6, 0x7, 0x1, 0x9, 0xC, 0xD, 0x8, 0xA, 0xD, 0x2, 0xB, 0xF, 0x4, 0x0, 0x3,
      0xB, 0x4, 0x6, 0x0, 0xF, 0x2, 0xD, 0x9, 0x5, 0xC, 0x1, 0xA, 0x3, 0xD, 0xE, 0x8]"

definition kIndexTransformationEcutek :: "u8 list" where
  "kIndexTransformationEcutek =
     [0x4, 0x2, 0x5, 0x1, 0x8, 0xC, 0xD, 0x8, 0xA, 0xD, 0x2, 0xB, 0xF, 0x4, 0x0, 0x3,
      0xB, 0x4, 0x6, 0x0, 0xF, 0x2, 0xD, 0x9, 0x5, 0xC, 0x1, 0xA, 0x3, 0xD, 0xE, 0x8]"

definition kStockPairTable :: PairTable where
  "kStockPairTable = BuildPairTable kIndexTransformationStock"

definition kEcutekPairTable :: PairTable where
  "kEcutekPairTable = BuildPairTable kIndexTransformationEcutek"

section \<open>The transform\<close>

text \<open>One round's contribution: the value XORed into the other half. \<^verbatim>\<open>std::rotr\<close> is
  \<^const>\<open>word_rotr\<close>.\<close>

definition round_key :: "PairTable \<Rightarrow> u16 \<Rightarrow> u16 \<Rightarrow> u16" where
  "round_key pairs lo key =
     (let v = (ucast (lo XOR key) :: u32);
          index = v OR push_bit 16 v;
          encryptionkey = pairs ! unat (index AND 0x1FF) + push_bit 8 (pairs ! unat (drop_bit 8 index AND 0x1FF))
      in word_rotr 3 encryptionkey)"

fun transform_rounds :: "PairTable \<Rightarrow> u16 list \<Rightarrow> u16 \<Rightarrow> u16 \<Rightarrow> u16 \<times> u16" where
  "transform_rounds pairs [] hi lo = (hi, lo)"
| "transform_rounds pairs (k # ks) hi lo =
     transform_rounds pairs ks lo (round_key pairs lo k XOR hi)"

definition TransformWord :: "bool \<Rightarrow> u32 \<Rightarrow> u16 list \<Rightarrow> PairTable \<Rightarrow> u32" where
  "TransformWord reverse word keytogenerateindex pairs =
     (let lo = ucast word;
          hi = ucast (drop_bit 16 word);
          (hi', lo') = transform_rounds pairs
                         (if reverse then rev keytogenerateindex else keytogenerateindex) hi lo
      in ucast hi' OR push_bit 16 (ucast lo'))"

definition CalculateSeedKey :: "bytes \<Rightarrow> u16 list \<Rightarrow> PairTable \<Rightarrow> bytes" where
  "CalculateSeedKey seed keytogenerateindex pairs =
     (if length seed < 4 then []
      else AppendU32Be [] (TransformWord True (ReadU32Be seed 0) keytogenerateindex pairs))"

definition CalculatePayload :: "bytes \<Rightarrow> u16 list \<Rightarrow> PairTable \<Rightarrow> bytes" where
  "CalculatePayload buf keytogenerateindex pairs =
     ComposeBe [FU32s (map (\<lambda>w. TransformWord False w keytogenerateindex pairs) (kU32Be buf))]"

section \<open>Framing\<close>

definition AddHeader :: "bytes \<Rightarrow> u8 \<Rightarrow> u8 \<Rightarrow> bytes" where
  "AddHeader output tester_id target_id =
     ComposeBeWithChecksum Sum8
       [FByte 0x80, FByte target_id, FByte tester_id, FByte (of_nat (length output)), FBytes output]"

definition HasValidFrame :: "bytes \<Rightarrow> u8 \<Rightarrow> u8 \<Rightarrow> bool" where
  "HasValidFrame frame receiver_id sender_id =
     (if length frame < 4 + 1 then False
      else if length frame \<noteq> 4 + unat (frame ! 3) + 1 then False
      else if frame ! 0 \<noteq> 0x80 \<or> frame ! 1 \<noteq> receiver_id \<or> frame ! 2 \<noteq> sender_id then False
      else Sum8 (take (length frame - 1) frame) = frame ! (length frame - 1))"

definition HasPayloadPrefix :: "bytes \<Rightarrow> bytes \<Rightarrow> u8 \<Rightarrow> u8 \<Rightarrow> bool" where
  "HasPayloadPrefix frame pre receiver_id sender_id =
     (if \<not> HasValidFrame frame receiver_id sender_id then False
      else if length pre > unat (frame ! 3) then False
      else pre = take (length pre) (drop 4 frame))"

section \<open>The Feistel network\<close>

fun feistel :: "(u16 \<Rightarrow> u16 \<Rightarrow> u16) \<Rightarrow> u16 list \<Rightarrow> u16 \<times> u16 \<Rightarrow> u16 \<times> u16" where
  "feistel F [] s = s"
| "feistel F (k # ks) (hi, lo) = feistel F ks (lo, F lo k XOR hi)"

lemma feistel_append: "feistel F (ks @ ls) s = feistel F ls (feistel F ks s)"
  by (induction F ks s rule: feistel.induct) auto

text \<open>Running the rounds backwards on the swapped halves undoes them, for every round function.\<close>

lemma feistel_inverse: "feistel F (rev ks) (prod.swap (feistel F ks s)) = prod.swap s"
proof (induction F ks s rule: feistel.induct)
  case (2 F k ks hi lo)
  then show ?case by (simp add: feistel_append)
qed simp

text \<open>What key recovery relies on: a round reads its key only through the XOR with the half.\<close>

locale xor_keyed_round =
  fixes F :: "u16 \<Rightarrow> u16 \<Rightarrow> u16"
  assumes xor_keyed: "F w k = F (w XOR k) 0"
begin

lemma keys_for: "F w k = v \<longleftrightarrow> (\<exists>u. F u 0 = v \<and> k = w XOR u)"
proof
  assume "F w k = v"
  then show "\<exists>u. F u 0 = v \<and> k = w XOR u"
    using xor_keyed [of w k] by (intro exI [of _ "w XOR k"]) (simp flip: xor.assoc)
next
  assume "\<exists>u. F u 0 = v \<and> k = w XOR u"
  then show "F w k = v" using xor_keyed [of w k] by (auto simp flip: xor.assoc)
qed

lemma key_equation: "F w k = v \<longleftrightarrow> F (w XOR k) 0 = v"
  using xor_keyed [of w k] by simp

end

interpretation stock_round: xor_keyed_round "round_key kStockPairTable"
  by unfold_locales (simp add: round_key_def)

interpretation ecutek_round: xor_keyed_round "round_key kEcutekPairTable"
  by unfold_locales (simp add: round_key_def)

lemma transform_rounds_feistel: "transform_rounds pairs ks hi lo = feistel (round_key pairs) ks (hi, lo)"
  by (induction ks arbitrary: hi lo) simp_all

text \<open>A word and its two halves.\<close>

definition halves :: "u32 \<Rightarrow> u16 \<times> u16" where
  "halves w = (ucast (drop_bit 16 w), ucast w)"

definition join :: "u16 \<times> u16 \<Rightarrow> u32" where
  "join hl = push_bit 16 (ucast (fst hl)) OR ucast (snd hl)"

lemma join_halves [simp]: "join (halves w) = w"
  by (rule bit_word_eqI) (auto simp: join_def halves_def bit_simps)

lemma halves_join [simp]: "halves (join hl) = hl"
  by (cases hl) (auto simp: join_def halves_def bit_simps impossible_bit intro!: bit_word_eqI)

lemma TransformWord_feistel:
  "TransformWord reverse w keys pairs =
     join (prod.swap (feistel (round_key pairs) (if reverse then rev keys else keys) (halves w)))"
  by (cases "feistel (round_key pairs) (if reverse then rev keys else keys) (halves w)")
    (simp add: TransformWord_def transform_rounds_feistel halves_def join_def or.commute Let_def)

lemma TransformWord_inverse:
  "TransformWord (\<not> reverse) (TransformWord reverse w keys pairs) keys pairs = w"
  "TransformWord reverse (TransformWord reverse w keys pairs) (rev keys) pairs = w"
  by (simp_all add: TransformWord_feistel feistel_inverse)
    (use feistel_inverse [of "round_key pairs" "rev keys"] in simp)+

section \<open>Payloads\<close>

lemma CalculatePayload_words:
  "CalculatePayload buf keys pairs = concat (map (\<lambda>w. AppendU32Be [] (TransformWord False w keys pairs)) (kU32Be buf))"
  by (simp add: CalculatePayload_def ComposeBe_concat EmitIntegerBe_Append comp_def)

lemma kU32Be_CalculatePayload:
  "kU32Be (CalculatePayload buf keys pairs) = map (\<lambda>w. TransformWord False w keys pairs) (kU32Be buf)"
  using kU32Be_words [of "map (\<lambda>w. TransformWord False w keys pairs) (kU32Be buf)"]
  by (simp add: CalculatePayload_words comp_def)

lemma CalculatePayload_decrypts:
  "CalculatePayload (CalculatePayload buf keys pairs) (rev keys) pairs = take (4 * (length buf div 4)) buf"
  using words_of_kU32Be [of buf] TransformWord_inverse(2) [of False]
  by (simp add: CalculatePayload_words [of "CalculatePayload buf keys pairs"] kU32Be_CalculatePayload comp_def)

section \<open>Frames\<close>

lemma AddHeader_bytes:
  "AddHeader out tester target =
     [0x80, target, tester, of_nat (length out)] @ out @
     [0x80 + target + tester + of_nat (length out) + Sum8 out]"
  by (simp add: AddHeader_def ComposeBeWithChecksum_eq ComposeBe_concat Sum8_sum_list add.assoc)

lemma frame_split:
  assumes "length frame \<ge> 5"
  shows "frame = [frame ! 0, frame ! 1, frame ! 2, frame ! 3] @ subspan frame 4 (length frame - 5) @ [frame ! (length frame - 1)]"
proof (rule nth_equalityI)
  fix i assume i: "i < length frame"
  consider "i = 0" | "i = 1" | "i = 2" | "i = 3" | "4 \<le> i" "i < length frame - 1" | "i = length frame - 1"
    using i by linarith
  then show "frame ! i = ([frame ! 0, frame ! 1, frame ! 2, frame ! 3] @ subspan frame 4 (length frame - 5) @ [frame ! (length frame - 1)]) ! i"
    using assms by cases (auto simp: nth_append nth_Cons' nth_subspan)
qed (use assms in simp)

text \<open>A frame is valid exactly when it is what the sender's \<open>AddHeader\<close> builds around its payload.\<close>

lemma HasValidFrame_iff:
  "HasValidFrame frame receiver sender \<longleftrightarrow>
     (\<exists>payload. length payload < 256 \<and> frame = AddHeader payload sender receiver)"
proof
  assume valid: "HasValidFrame frame receiver sender"
  let ?p = "subspan frame 4 (length frame - 5)"
  have len: "length frame = 4 + unat (frame ! 3) + 1" and hd: "frame ! 0 = 0x80" "frame ! 1 = receiver" "frame ! 2 = sender"
    and sum: "Sum8 (take (length frame - 1) frame) = frame ! (length frame - 1)"
    using valid by (auto simp: HasValidFrame_def split: if_splits)
  have split: "frame = [frame ! 0, frame ! 1, frame ! 2, frame ! 3] @ ?p @ [frame ! (length frame - 1)]"
    using frame_split [of frame] len by simp
  have plen: "length ?p = unat (frame ! 3)" using len by simp
  have "butlast frame = [frame ! 0, frame ! 1, frame ! 2, frame ! 3] @ ?p"
    using arg_cong [OF split, of butlast] len by (simp add: butlast_append)
  then have "take (length frame - 1) frame = [0x80, receiver, sender, frame ! 3] @ ?p"
    using hd by (simp add: butlast_conv_take)
  then have "frame ! (length frame - 1) = 0x80 + receiver + sender + frame ! 3 + Sum8 ?p"
    using sum by (simp add: Sum8_sum_list add.assoc)
  moreover have "of_nat (length ?p) = frame ! 3" unfolding plen by simp
  ultimately have "AddHeader ?p sender receiver = frame"
    by (subst (3) split) (simp add: AddHeader_bytes hd hd(2) [unfolded One_nat_def])
  then have "frame = AddHeader ?p sender receiver" by (rule sym)
  moreover have "length ?p < 256" unfolding plen by (rule uint8_lt)
  ultimately show "\<exists>payload. length payload < 256 \<and> frame = AddHeader payload sender receiver" by blast
next
  assume "\<exists>payload. length payload < 256 \<and> frame = AddHeader payload sender receiver"
  then obtain p where p: "length p < 256" "frame = AddHeader p sender receiver" by blast
  have "unat (of_nat (length p) :: u8) = length p" using p(1) by (simp add: unat_of_nat)
  with p show "HasValidFrame frame receiver sender"
    by (simp add: HasValidFrame_def AddHeader_bytes Sum8_sum_list nth_append add.assoc)
qed

lemma HasPayloadPrefix_iff:
  "HasPayloadPrefix frame pre receiver sender \<longleftrightarrow>
     (\<exists>rest. length (pre @ rest) < 256 \<and> frame = AddHeader (pre @ rest) sender receiver)"
proof
  assume h: "HasPayloadPrefix frame pre receiver sender"
  then obtain p where p: "length p < 256" "frame = AddHeader p sender receiver"
    by (auto simp: HasPayloadPrefix_def HasValidFrame_iff split: if_splits)
  have "unat (frame ! 3) = length p" using p by (simp add: AddHeader_bytes unat_of_nat)
  then have "length pre \<le> length p" "pre = take (length pre) p"
    using h p(2) by (auto simp: HasPayloadPrefix_def AddHeader_bytes split: if_splits)
  then have "p = pre @ drop (length pre) p" by (metis append_take_drop_id)
  with p show "\<exists>rest. length (pre @ rest) < 256 \<and> frame = AddHeader (pre @ rest) sender receiver" by metis
next
  assume "\<exists>rest. length (pre @ rest) < 256 \<and> frame = AddHeader (pre @ rest) sender receiver"
  then obtain rest where r: "length (pre @ rest) < 256" "frame = AddHeader (pre @ rest) sender receiver" by blast
  then have "HasValidFrame frame receiver sender" using HasValidFrame_iff by blast
  moreover have "unat (frame ! 3) = length pre + length rest"
    using r by (simp add: AddHeader_bytes unat_of_nat flip: of_nat_add)
  ultimately show "HasPayloadPrefix frame pre receiver sender"
    using r(2) by (simp add: HasPayloadPrefix_def AddHeader_bytes)
qed

text \<open>The two index transformations differ at four positions.\<close>

lemma ecutek_differences:
  "filter (\<lambda>i. kIndexTransformationStock ! i \<noteq> kIndexTransformationEcutek ! i) [0..<32] = [0, 1, 2, 4]"
  by (simp add: kIndexTransformationStock_def kIndexTransformationEcutek_def upt_rec)

section \<open>Properties\<close>

text \<open>C12: a frame passes \<^verbatim>\<open>HasValidFrame\<close> exactly when it is what the sender's \<^verbatim>\<open>AddHeader\<close> builds
  around some payload of at most 255 bytes, and \<^verbatim>\<open>HasPayloadPrefix\<close> exactly when that payload
  starts with the prefix.\<close>

theorem ssm_frames:
  "HasValidFrame frame receiver sender =
     (\<exists>payload. length payload < 256 \<and> frame = AddHeader payload sender receiver) \<and>
   HasPayloadPrefix frame pre receiver sender =
     (\<exists>rest. length (pre @ rest) < 256 \<and> frame = AddHeader (pre @ rest) sender receiver)"
  using HasValidFrame_iff HasPayloadPrefix_iff by blast

text \<open>C13: the SSM transform is a Feistel network, so the payload transform under the reversed keys
  undoes it (dropping a partial last word), the seed-key direction undoes the payload direction, and
  the seed key of a seed is the four bytes of the transformed first word.\<close>

theorem payload_transform_inverts:
  "CalculatePayload (CalculatePayload buf keys pairs) (rev keys) pairs = take (4 * (length buf div 4)) buf \<and>
   TransformWord True (TransformWord False w keys pairs) keys pairs = w \<and>
   CalculateSeedKey (AppendU32Be [] w @ rest) keys pairs = AppendU32Be [] (TransformWord True w keys pairs)"
  using TransformWord_inverse(1) [of False w keys pairs] u32be.rd_append [of "[]" w rest]
  by (simp add: CalculatePayload_decrypts CalculateSeedKey_def)

end
