(* ===== verification/Key_Recovery.thy ===== *)
theory Key_Recovery
  imports Ssm_Protocol
begin

text \<open>
  \<^verbatim>\<open>algorithms/crypto/subaru_key_recovery.h/.cpp\<close>: recovering the four round keys of the ROM
  cipher from a plaintext and its ciphertext. The theory shows that the file's own
  \<open>FFunction\<close>/\<open>Encrypt\<close> are the SSM rounds, that grouping pairs by window counts what counting
  pair by pair would, that the counting-sort inverse lists exactly the preimages, and that the
  voted key is a strict majority.
\<close>

section \<open>Definitions\<close>

datatype Failure = kInputTooShort | kNoMatchingKey

definition kAnalyzedBytes :: nat where "kAnalyzedBytes = 0x20000"
definition kNybbles :: nat where "kNybbles = 4"
definition kSubkeys :: nat where "kSubkeys = 0x20"
definition kKeySpace :: nat where "kKeySpace = 0x10000"

definition kInBits :: "(nat \<times> nat) list" where
  "kInBits = [(20, 21), (24, 25), (28, 29), (32, 17)]"

definition kOutBits :: "(nat \<times> nat) list" where
  "kOutBits = [(11, 8), (15, 12), (3, 16), (7, 4)]"

record WordPair =
  plain :: u32
  cipher :: u32

text \<open>Positions are numbered 1 (most significant) to 32.\<close>

definition Bit :: "u32 \<Rightarrow> nat \<Rightarrow> u32" where
  "Bit v position = drop_bit (32 - position) v AND 1"

definition Bits :: "u32 \<Rightarrow> nat \<times> nat \<Rightarrow> nat \<Rightarrow> u32" where
  "Bits v positions offset = Bit v (fst positions + offset) XOR Bit v (snd positions + offset)"

definition High :: "u32 \<Rightarrow> u16" where "High word = ucast (drop_bit 16 word)"
definition Low :: "u32 \<Rightarrow> u16" where "Low word = ucast word"

definition Candidate :: "nat \<Rightarrow> u32 \<Rightarrow> u16" where
  "Candidate nybble subkey =
     (let key = ucast (push_bit (12 - nybble * 4) subkey) in
      if nybble = 0 \<and> subkey > 0xF then key + 1 else key)"

fun distinct_pairs_from :: "bytes \<Rightarrow> bytes \<Rightarrow> nat list \<Rightarrow> u32 set \<Rightarrow> WordPair list" where
  "distinct_pairs_from p c [] seen = []"
| "distinct_pairs_from p c (offset # rest) seen =
     (let word = ReadU32Be p offset in
      if word \<notin> seen then
        \<lparr>plain = word, cipher = ReadU32Be c offset\<rparr> # distinct_pairs_from p c rest (insert word seen)
      else distinct_pairs_from p c rest seen)"

definition DistinctPairs :: "bytes \<Rightarrow> bytes \<Rightarrow> WordPair list" where
  "DistinctPairs p c = distinct_pairs_from p c (map (\<lambda>i. 4 * i) [0..<kAnalyzedBytes div 4]) {}"

definition Window :: "nat \<Rightarrow> u16 \<Rightarrow> u32" where
  "Window nybble word =
     (let doubled = (ucast word :: u32) OR push_bit 16 (ucast word)
      in drop_bit (12 - nybble * 4) doubled AND (of_nat kSubkeys - 1))"

record ParityTerm =
  parity_constant :: u32
  parity_word :: u16

definition FFunction :: "u16 \<Rightarrow> u16 \<Rightarrow> u16" where
  "FFunction word key =
     (let index0 = (ucast (word XOR key) :: u32);
          index = index0 + push_bit 16 index0;
          substituted =
            fold (\<lambda>n s. let nibble = (ucast (kIndexTransformationStock ! unat (drop_bit (n * 4) index AND 0x1F)) :: u32)
                        in ucast (ucast s + push_bit (n * 4) nibble :: u32))
              [0..<kNybbles] (0 :: u16)
      in word_rotr 3 substituted)"

text \<open>The grouping loop: how many pairs have each constant and window.\<close>

definition group_pairs :: "nat \<Rightarrow> (WordPair \<Rightarrow> nat \<Rightarrow> ParityTerm) \<Rightarrow> WordPair list \<Rightarrow> nat list list" where
  "group_pairs nybble t pairs =
     fold (\<lambda>pair g.
             let parity = t pair nybble;
                 c = unat (parity_constant parity);
                 w = unat (Window nybble (parity_word parity))
             in g[c := (g ! c)[w := g ! c ! w + 1]])
       pairs (replicate 2 (replicate kSubkeys 0))"

definition agreeing_count :: "nat \<Rightarrow> nat list list \<Rightarrow> nat \<Rightarrow> nat" where
  "agreeing_count nybble grouped subkey =
     fold (\<lambda>window acc.
             let output = FFunction (Candidate nybble (of_nat window)) (Candidate nybble (of_nat subkey))
             in acc + grouped ! unat (Bits (ucast output) (kInBits ! nybble) 0) ! window)
       [0..<kSubkeys] 0"

definition best_subkey :: "nat \<Rightarrow> (nat \<Rightarrow> nat) \<Rightarrow> nat \<times> nat" where
  "best_subkey half agreeing =
     fold (\<lambda>subkey (best, best_bias).
             let n = agreeing subkey;
                 bias = (if n > half then n - half else half - n)
             in if bias \<ge> best_bias then (subkey, bias) else (best, best_bias))
       [0..<kSubkeys] (0, 0)"

definition MostBiasedKey :: "WordPair list \<Rightarrow> (WordPair \<Rightarrow> nat \<Rightarrow> ParityTerm) \<Rightarrow> u16" where
  "MostBiasedKey pairs t =
     (let half = length pairs div 2 in
      fold (\<lambda>nybble key.
              let grouped = group_pairs nybble t pairs;
                  (best, _) = best_subkey half (agreeing_count nybble grouped)
              in ucast ((ucast key :: u32) OR push_bit (12 - nybble * 4) (of_nat best AND 0xF)))
        [0..<kNybbles] 0)"

text \<open>\<^verbatim>\<open>FunctionInverse\<close>: its two arrays, filled by counting, prefix sums and placement. The
  constructor is written for any function from indices below \<open>n\<close> to outputs below \<open>n\<close>.\<close>

definition count_outputs :: "nat \<Rightarrow> (nat \<Rightarrow> nat) \<Rightarrow> nat list" where
  "count_outputs n f = fold (\<lambda>v counts. counts[f v := counts ! f v + 1]) [0..<n] (replicate n 0)"

definition first_offsets :: "nat \<Rightarrow> nat list \<Rightarrow> nat list" where
  "first_offsets n counts =
     fold (\<lambda>out first. first[out + 1 := first ! out + counts ! out]) [0..<n] (replicate (n + 1) 0)"

definition place_values :: "nat \<Rightarrow> (nat \<Rightarrow> nat) \<Rightarrow> nat list \<Rightarrow> nat list \<times> nat list" where
  "place_values n f first =
     fold (\<lambda>v (next, vals). (next[f v := next ! f v + 1], vals[next ! f v := v]))
       [0..<n] (butlast first, replicate n 0)"

definition preimages_in :: "nat \<Rightarrow> (nat \<Rightarrow> nat) \<Rightarrow> nat \<Rightarrow> nat list" where
  "preimages_in n f out =
     (let first = first_offsets n (count_outputs n f);
          vals = snd (place_values n f first)
      in subspan vals (first ! out) (first ! (out + 1) - first ! out))"

definition Preimages :: "u16 \<Rightarrow> u16 list" where
  "Preimages out = map of_nat (preimages_in kKeySpace (\<lambda>v. unat (FFunction (of_nat v) 0)) (unat out))"

record Equation =
  eq_input :: u16
  eq_output :: u16

definition count_votes :: "Equation list \<Rightarrow> nat list" where
  "count_votes equations =
     fold (\<lambda>equation votes.
             fold (\<lambda>v votes. let k = unat (eq_input equation XOR v) in votes[k := votes ! k + 1])
               (Preimages (eq_output equation)) votes)
       equations (replicate kKeySpace 0)"

text \<open>\<^verbatim>\<open>std::ranges::max_element\<close>: the first index of the largest element.\<close>

fun max_index :: "nat list \<Rightarrow> nat \<Rightarrow> nat \<Rightarrow> nat \<Rightarrow> nat" where
  "max_index [] i best_i best = best_i"
| "max_index (x # xs) i best_i best =
     (if best < x then max_index xs (Suc i) i x else max_index xs (Suc i) best_i best)"

definition MajorityKey :: "Equation list \<Rightarrow> Failure + u16" where
  "MajorityKey equations =
     (let votes = count_votes equations;
          winner = max_index (tl votes) 1 0 (hd votes)
      in if votes ! winner * 2 \<le> length equations then Inl kNoMatchingKey else Inr (of_nat winner))"

definition Encrypt :: "u32 \<Rightarrow> u16 list \<Rightarrow> u32" where
  "Encrypt p keys =
     word_rotl 16
       (fold (\<lambda>key word.
                let mixed = High word XOR FFunction (Low word) key
                in push_bit 16 (ucast (Low word)) OR ucast mixed)
          keys p)"

record Recovery =
  recovered_keys :: "u16 list"
  distinct_pairs :: nat
  reproduced_pairs :: nat

definition k4_term :: "WordPair \<Rightarrow> nat \<Rightarrow> ParityTerm" where
  "k4_term pair nybble =
     (let p = Bits (plain pair) (kInBits ! nybble) 0 XOR Bits (plain pair) (kOutBits ! nybble) 0;
          c = Bits (cipher pair) (kOutBits ! nybble) 16
      in \<lparr>parity_constant = p XOR c XOR Bits (ucast (High (cipher pair))) (kInBits ! nybble) 0,
          parity_word = Low (cipher pair)\<rparr>)"

definition k1_term :: "u16 \<Rightarrow> WordPair \<Rightarrow> nat \<Rightarrow> ParityTerm" where
  "k1_term k4 pair nybble =
     (let x3 = High (cipher pair) XOR FFunction (Low (cipher pair)) k4;
          p = Bits (plain pair) (kOutBits ! nybble) 16;
          c = Bits (ucast x3) (kOutBits ! nybble) 16
      in \<lparr>parity_constant = p XOR c XOR Bits (ucast (High (plain pair))) (kInBits ! nybble) 0,
          parity_word = Low (plain pair)\<rparr>)"

definition k2_equation :: "u16 \<Rightarrow> u16 \<Rightarrow> WordPair \<Rightarrow> Equation" where
  "k2_equation k1 k4 pair =
     (let x2 = High (plain pair) XOR FFunction (Low (plain pair)) k1;
          x3 = High (cipher pair) XOR FFunction (Low (cipher pair)) k4
      in \<lparr>eq_input = x2, eq_output = x3 XOR Low (plain pair)\<rparr>)"

definition k3_equation :: "u16 \<Rightarrow> u16 \<Rightarrow> WordPair \<Rightarrow> Equation" where
  "k3_equation k1 k4 pair =
     (let x2 = High (plain pair) XOR FFunction (Low (plain pair)) k1;
          x3 = High (cipher pair) XOR FFunction (Low (cipher pair)) k4
      in \<lparr>eq_input = x3, eq_output = x2 XOR Low (cipher pair)\<rparr>)"

definition RecoverKeys :: "bytes \<Rightarrow> bytes \<Rightarrow> Failure + Recovery" where
  "RecoverKeys p c =
     (if length p < kAnalyzedBytes \<or> length c < kAnalyzedBytes then Inl kInputTooShort
      else
        let pairs = DistinctPairs p c;
            k4 = MostBiasedKey pairs k4_term;
            k1 = MostBiasedKey pairs (k1_term k4)
        in result_bind (MajorityKey (map (k2_equation k1 k4) pairs)) (\<lambda>k2.
           result_bind (MajorityKey (map (k3_equation k1 k4) pairs)) (\<lambda>k3.
             let keys = [k1, k2, k3, k4] in
             Inr \<lparr>recovered_keys = keys, distinct_pairs = length pairs,
                  reproduced_pairs = length (filter (\<lambda>pair. Encrypt (plain pair) keys = cipher pair) pairs)\<rparr>)))"

section \<open>The round function is the SSM round\<close>

definition doubled :: "u16 \<Rightarrow> u32" where
  "doubled v = ucast v OR push_bit 16 (ucast v)"

text \<open>The 4-bit output of the S-box at nibble \<open>n\<close>.\<close>

definition sbox :: "u16 \<Rightarrow> nat \<Rightarrow> u16" where
  "sbox v n = ucast (kIndexTransformationStock ! unat (drop_bit (4 * n) (doubled v) AND 0x1F))"

lemma doubled_add: "(ucast v :: u32) + push_bit 16 (ucast v) = doubled v" for v :: u16
proof -
  have "(ucast v :: u32) AND push_bit 16 (ucast v) = 0"
    by (rule bit_word_eqI) (auto simp: bit_simps impossible_bit)
  then show ?thesis by (simp add: doubled_def disjunctive_add_eq_or)
qed

lemma ucast_push_narrow: "(ucast (push_bit m (x :: u32)) :: u16) = push_bit m (ucast x)"
  by (rule bit_word_eqI) (auto simp: bit_simps)

lemma ucast_8_32_16: "(ucast (ucast (x :: u8) :: u32) :: u16) = ucast x"
  by (rule bit_word_eqI) (auto simp: bit_simps dest: bit_imp_le_length)

lemma upt_4: "[0..<4] = [0, 1, 2, 3 :: nat]"
  by (simp add: upt_rec)

lemma FFunction_sboxes:
  "FFunction w k =
     word_rotr 3 (sbox (w XOR k) 0 + push_bit 4 (sbox (w XOR k) 1) + push_bit 8 (sbox (w XOR k) 2)
       + push_bit 12 (sbox (w XOR k) 3))"
  by (simp add: FFunction_def Let_def kNybbles_def upt_4 doubled_add sbox_def ucast_add_narrow
      ucast_ucast_same ucast_push_narrow ucast_8_32_16)

lemma BuildPairTable_nth:
  assumes "i < 512"
  shows "kStockPairTable ! unat (i :: u32) =
    ucast (kIndexTransformationStock ! unat (i AND 0x1F))
    + push_bit 4 (ucast (kIndexTransformationStock ! unat (drop_bit 4 i AND 0x1F)))"
proof -
  have "unat i < 512" using assms by (simp add: word_less_nat_alt)
  then show ?thesis by (simp add: kStockPairTable_def BuildPairTable_def)
qed

lemma and_mask_less: "(x :: u32) AND 0x1FF < 512"
proof -
  have m: "(0x1FF :: u32) = mask 9" by (simp add: mask_eq_exp_minus_1)
  show ?thesis unfolding m take_bit_eq_mask [symmetric] word_less_nat_alt unsigned_take_bit_eq
    using take_bit_nat_less_exp [of 9 "unat x"] by simp
qed

lemma nested_masks:
  "(x AND 0x1FF) AND 0x1F = x AND (0x1F :: u32)"
  "drop_bit 4 (x AND 0x1FF) AND 0x1F = drop_bit 4 x AND (0x1F :: u32)"
proof -
  have m: "(0x1FF :: u32) = mask 9" "(0x1F :: u32) = mask 5" by (simp_all add: mask_eq_exp_minus_1)
  show "(x AND 0x1FF) AND 0x1F = x AND (0x1F :: u32)"
    "drop_bit 4 (x AND 0x1FF) AND 0x1F = drop_bit 4 x AND (0x1F :: u32)"
    unfolding m by (rule bit_word_eqI, auto simp: bit_simps)+
qed

lemma FFunction_round: "FFunction w k = round_key kStockPairTable w k"
proof -
  let ?i = "doubled (w XOR k)"
  have "kStockPairTable ! unat (?i AND 0x1FF) = sbox (w XOR k) 0 + push_bit 4 (sbox (w XOR k) 1)"
    "kStockPairTable ! unat (drop_bit 8 ?i AND 0x1FF) = sbox (w XOR k) 2 + push_bit 4 (sbox (w XOR k) 3)"
    by (simp_all add: BuildPairTable_nth and_mask_less nested_masks sbox_def)
  moreover have "round_key kStockPairTable w k =
      word_rotr 3 (kStockPairTable ! unat (?i AND 0x1FF) + push_bit 8 (kStockPairTable ! unat (drop_bit 8 ?i AND 0x1FF)))"
    by (simp add: round_key_def Let_def doubled_def)
  ultimately show ?thesis
    by (simp add: FFunction_sboxes push_bit_eq_mult algebra_simps)
qed

lemma Encrypt_step:
  "push_bit 16 (ucast (Low w)) OR ucast (High w XOR FFunction (Low w) k) =
     join (snd (halves w), round_key kStockPairTable (snd (halves w)) k XOR fst (halves w))"
  by (simp add: join_def halves_def Low_def High_def FFunction_round xor.commute)

lemma fold_feistel:
  "fold (\<lambda>key word. let mixed = High word XOR FFunction (Low word) key
                    in push_bit 16 (ucast (Low word)) OR ucast mixed) keys (join s) =
     join (feistel (round_key kStockPairTable) keys s)"
proof (induction keys arbitrary: s)
  case (Cons k ks)
  then show ?case by (cases s) (simp only: fold_Cons comp_apply Let_def Encrypt_step halves_join feistel.simps fst_conv snd_conv)
qed simp

lemma rotl_join: "word_rotl 16 (join hl) = join (prod.swap hl)"
  by (rule bit_word_eqI) (cases hl, auto simp: join_def bit_simps impossible_bit not_less mod_if)

lemma Encrypt_TransformWord: "Encrypt p keys = TransformWord False p keys kStockPairTable"
  using fold_feistel [of keys "halves p"]
  by (simp add: Encrypt_def TransformWord_feistel rotl_join)

section \<open>Counting by window\<close>

text \<open>The parity of the \<open>kInBits\<close> output bits is computed by one S-box from one window.\<close>

lemma stock_nibbles: "n < 32 \<Longrightarrow> kIndexTransformationStock ! n < 16"
proof -
  assume "n < 32"
  moreover have "\<forall>x \<in> set kIndexTransformationStock. x < 16" "length kIndexTransformationStock = 32"
    by (simp_all add: kIndexTransformationStock_def)
  ultimately show ?thesis by simp
qed

lemma and_31_less: "unat ((x :: u32) AND 0x1F) < 32"
proof -
  have m: "(0x1F :: u32) = mask 5" by (simp add: mask_eq_exp_minus_1)
  show ?thesis unfolding m take_bit_eq_mask [symmetric] unsigned_take_bit_eq
    using take_bit_nat_less_exp [of 5 "unat x"] by simp
qed

lemma sbox_bits: "bit (sbox v n) i \<Longrightarrow> i < 4"
proof -
  assume b: "bit (sbox v n) i"
  let ?x = "kIndexTransformationStock ! unat (drop_bit (4 * n) (doubled v) AND 0x1F)"
  have "unat ?x < 2 ^ 4" using stock_nibbles [OF and_31_less] by (simp add: word_less_nat_alt)
  then have "take_bit 4 (unat ?x) = unat ?x" by (simp add: take_bit_nat_eq_self)
  moreover have "bit (unat ?x) i" using b by (auto simp: sbox_def bit_simps)
  ultimately show "i < 4" by (metis bit_take_bit_iff)
qed

lemma add_nibbles:
  assumes "\<And>i. bit a i \<Longrightarrow> i < 4" and "\<And>i. bit b i \<Longrightarrow> i < 4" and "\<And>i. bit c i \<Longrightarrow> i < 4"
    and "\<And>i. bit d i \<Longrightarrow> i < (4 :: nat)"
  shows "a + push_bit 4 b + push_bit 8 c + push_bit 12 (d :: u16) =
    a OR push_bit 4 b OR push_bit 8 c OR push_bit 12 d"
proof -
  have "a AND push_bit 4 b = 0"
    by (rule bit_word_eqI) (use assms in \<open>auto simp: bit_simps, force\<close>)
  then have 1: "a + push_bit 4 b = a OR push_bit 4 b" by (rule disjunctive_add_eq_or)
  have "(a OR push_bit 4 b) AND push_bit 8 c = 0"
    by (rule bit_word_eqI) (use assms in \<open>auto simp: bit_simps, force+\<close>)
  then have 2: "(a OR push_bit 4 b) + push_bit 8 c = (a OR push_bit 4 b) OR push_bit 8 c"
    by (rule disjunctive_add_eq_or)
  have "((a OR push_bit 4 b) OR push_bit 8 c) AND push_bit 12 d = 0"
    by (rule bit_word_eqI) (use assms in \<open>auto simp: bit_simps, force+\<close>)
  then have 3: "((a OR push_bit 4 b) OR push_bit 8 c) + push_bit 12 d = ((a OR push_bit 4 b) OR push_bit 8 c) OR push_bit 12 d"
    by (rule disjunctive_add_eq_or)
  show ?thesis unfolding 1 unfolding 2 unfolding 3 unfolding or.assoc by (rule refl)
qed

lemma nibble_bit:
  assumes "\<And>n i. bit (s n :: u16) i \<Longrightarrow> i < 4" and "j < 16"
  shows "bit (s 0 OR push_bit 4 (s 1) OR push_bit 8 (s 2) OR push_bit 12 (s 3)) j \<longleftrightarrow>
    bit (s (j div 4)) (j mod 4)"
proof -
  have high: "4 \<le> m \<Longrightarrow> \<not> bit (s n) m" for m n using assms(1) by (metis not_le)
  have "j \<in> {0, 1, 2, 3, 4, 5, 6, 7, 8, 9, 10, 11, 12, 13, 14, 15}"
    using assms(2) unfolding insert_iff empty_iff by presburger
  then show ?thesis by (elim insertE emptyE) (simp_all add: bit_simps high)
qed

text \<open>Output bit \<open>i\<close> comes from nibble \<open>(i + 3) mod 16 div 4\<close>.\<close>

lemma FFunction_bit:
  assumes "i < 16"
  shows "bit (FFunction w k) i \<longleftrightarrow>
    bit (sbox (w XOR k) ((i + 3) mod 16 div 4)) ((i + 3) mod 16 mod 4)"
proof -
  let ?s = "sbox (w XOR k)"
  have "?s 0 + push_bit 4 (?s 1) + push_bit 8 (?s 2) + push_bit 12 (?s 3) =
      ?s 0 OR push_bit 4 (?s 1) OR push_bit 8 (?s 2) OR push_bit 12 (?s 3)"
    by (rule add_nibbles) (rule sbox_bits, assumption)+
  then have "bit (FFunction w k) i \<longleftrightarrow>
      bit (?s 0 OR push_bit 4 (?s 1) OR push_bit 8 (?s 2) OR push_bit 12 (?s 3)) ((i + 3) mod 16)"
    unfolding FFunction_sboxes using assms by (simp add: bit_word_rotr_iff)
  also have "\<dots> \<longleftrightarrow> bit (?s ((i + 3) mod 16 div 4)) ((i + 3) mod 16 mod 4)"
    by (rule nibble_bit) (use sbox_bits in auto)
  finally show ?thesis .
qed

lemma Bit_eq: "Bit v p = of_bool (bit v (32 - p))"
  by (simp add: Bit_def and_one_eq bit_iff_odd_drop_bit odd_iff_mod_2_eq_one)

definition window_parity :: "u32 \<Rightarrow> u32" where
  "window_parity x =
     (let s = kIndexTransformationStock ! unat x in of_bool (bit s 3) XOR of_bool (bit s 2))"

lemma Window_doubled: "n < 4 \<Longrightarrow> Window n w = drop_bit (4 * (3 - n)) (doubled w) AND 0x1F"
proof -
  assume "n < 4"
  then have "12 - n * 4 = 4 * (3 - n)" by simp
  then show ?thesis by (simp only: Window_def Let_def doubled_def) (simp add: kSubkeys_def)
qed

lemma parity_by_window:
  assumes "n < kNybbles"
  shows "Bits (ucast (FFunction w k)) (kInBits ! n) 0 = window_parity (Window n (w XOR k))"
proof -
  have "n \<in> {0, 1, 2, 3}" using assms by (auto simp: kNybbles_def)
  then show ?thesis
    by (auto simp: Bits_def Bit_eq kInBits_def bit_simps FFunction_bit window_parity_def Window_doubled sbox_def Let_def)
qed

lemma doubled_xor: "doubled (a XOR b) = doubled a XOR doubled b"
  by (rule bit_word_eqI) (auto simp: doubled_def bit_simps impossible_bit)

lemma Window_xor: "n < kNybbles \<Longrightarrow> Window n (w XOR k) = Window n w XOR Window n k"
  by (rule bit_word_eqI) (auto simp: Window_doubled kNybbles_def doubled_xor bit_simps)

lemma Window_less: "n < kNybbles \<Longrightarrow> unat (Window n w) < kSubkeys"
  using and_31_less by (simp add: Window_doubled kNybbles_def kSubkeys_def)

lemma Window_Candidate:
  assumes "n < kNybbles" and "s < kSubkeys"
  shows "Window n (Candidate n (of_nat s)) = of_nat s"
proof -
  have "\<forall>n \<in> set [0, 1, 2, 3]. \<forall>s \<in> set [0..<32]. Window n (Candidate n (of_nat s)) = of_nat s"
    by (simp add: upt_rec Window_def Candidate_def Let_def kSubkeys_def)
  moreover have "n \<in> set [0, 1, 2, 3]" "s \<in> set [0..<32]" using assms by (auto simp: kNybbles_def kSubkeys_def)
  ultimately show ?thesis by blast
qed

definition tally :: "('a \<Rightarrow> bool) \<Rightarrow> 'a list \<Rightarrow> nat" where
  "tally P xs = length (filter P xs)"

lemma tally_simps [simp]:
  "tally P [] = 0" "tally P (x # xs) = (if P x then Suc (tally P xs) else tally P xs)"
  "tally P (xs @ ys) = tally P xs + tally P ys"
  by (simp_all add: tally_def)

lemma tally_cong: "(\<And>x. x \<in> set xs \<Longrightarrow> P x = Q x) \<Longrightarrow> tally P xs = tally Q xs"
  by (simp add: tally_def cong: filter_cong)

lemma tally_le: "tally P xs \<le> length xs"
  by (simp add: tally_def)

lemma tally_all: "tally P xs = length xs \<longleftrightarrow> (\<forall>x \<in> set xs. P x)"
  by (simp add: tally_def) (metis filter_True length_filter_less nat_neq_iff)

text \<open>A loop that increments one cell per element counts the elements of each cell.\<close>

lemma fold_increment_length [simp]:
  "length (fold (\<lambda>x cells. cells[c x := cells ! c x + (1 :: nat)]) xs cells) = length cells"
  by (induction xs arbitrary: cells) auto

lemma fold_increment:
  assumes "k < length cells"
  shows "fold (\<lambda>x cells. cells[c x := cells ! c x + 1]) xs cells ! k = cells ! k + tally (\<lambda>x. c x = k) xs"
  using assms by (induction xs arbitrary: cells) (auto simp: nth_list_update)

lemma fold_increment2:
  assumes "k < length g" and "w < length (g ! k)"
    and "\<And>x. x \<in> set xs \<Longrightarrow> c x < length g"
  shows "fold (\<lambda>x g. g[c x := (g ! c x)[d x := g ! c x ! d x + 1]]) xs g ! k ! w =
    g ! k ! w + tally (\<lambda>x. c x = k \<and> d x = w) xs"
  using assms
proof (induction xs arbitrary: g)
  case (Cons x xs)
  let ?g = "g[c x := (g ! c x)[d x := g ! c x ! d x + 1]]"
  have "fold (\<lambda>x g. g[c x := (g ! c x)[d x := g ! c x ! d x + 1]]) xs ?g ! k ! w =
      ?g ! k ! w + tally (\<lambda>x. c x = k \<and> d x = w) xs"
    by (rule Cons.IH) (use Cons.prems in \<open>auto simp: nth_list_update\<close>)
  moreover have "?g ! k ! w = g ! k ! w + (if c x = k \<and> d x = w then 1 else 0)"
    using Cons.prems by (auto simp: nth_list_update)
  ultimately show ?case by simp
qed simp

lemma group_pairs_nth:
  assumes "\<And>pair. unat (parity_constant (t pair n)) < 2" and "k < 2" and "w < kSubkeys"
  shows "group_pairs n t pairs ! k ! w =
    tally (\<lambda>pair. unat (parity_constant (t pair n)) = k \<and> unat (Window n (parity_word (t pair n))) = w) pairs"
  unfolding group_pairs_def Let_def
  by (subst fold_increment2) (use assms in \<open>auto simp: nth_replicate\<close>)

text \<open>Each pair is in the group of its own window, so summing over the windows counts each pair once.\<close>

lemma sum_windows:
  assumes "\<And>x. x \<in> set xs \<Longrightarrow> W x < (m :: nat)"
  shows "(\<Sum>w<m. tally (\<lambda>x. C x = q w \<and> W x = w) xs) = tally (\<lambda>x. C x = q (W x)) xs"
  using assms
proof (induction xs)
  case (Cons x xs)
  have "(\<Sum>w<m. tally (\<lambda>x. C x = q w \<and> W x = w) (x # xs)) =
      (\<Sum>w<m. (if w = W x then (if C x = q (W x) then 1 else 0) else 0) + tally (\<lambda>x. C x = q w \<and> W x = w) xs)"
    by (rule sum.cong) auto
  also have "\<dots> = (if C x = q (W x) then 1 else 0) + tally (\<lambda>x. C x = q (W x)) xs"
    using Cons by (simp add: sum.distrib sum.delta)
  finally show ?case by simp
qed simp

lemma fold_add_sum: "fold (\<lambda>i acc. acc + g i) [0..<m] (a :: nat) = a + (\<Sum>i<m. g i)"
  by (induction m) (auto simp: add.assoc)

lemma xor_zero_iff: "a XOR b = 0 \<longleftrightarrow> a = (b :: u32)"
proof
  assume "a XOR b = 0"
  then have "(a XOR b) XOR b = b" by simp
  then show "a = b" by (simp add: xor.assoc)
qed simp

lemma window_parity_bit: "unat (window_parity x) < 2"
  by (simp add: window_parity_def Let_def)

lemma agreeing_count_correct:
  assumes n: "n < kNybbles" and s: "s < kSubkeys"
    and c: "\<And>pair. unat (parity_constant (t pair n)) < 2"
  shows "agreeing_count n (group_pairs n t pairs) s =
    tally (\<lambda>pair. parity_constant (t pair n)
             XOR Bits (ucast (FFunction (parity_word (t pair n)) (Candidate n (of_nat s)))) (kInBits ! n) 0 = 0)
      pairs"
proof -
  let ?W = "\<lambda>pair. unat (Window n (parity_word (t pair n)))"
  let ?q = "\<lambda>w. unat (window_parity (of_nat w XOR of_nat s))"
  have "agreeing_count n (group_pairs n t pairs) s = (\<Sum>w<kSubkeys. group_pairs n t pairs ! ?q w ! w)"
    unfolding agreeing_count_def Let_def fold_add_sum
    by (simp add: parity_by_window Window_xor Window_Candidate n s)
  also have "\<dots> = (\<Sum>w<kSubkeys. tally (\<lambda>pair. unat (parity_constant (t pair n)) = ?q w \<and> ?W pair = w) pairs)"
    by (rule sum.cong) (auto simp: group_pairs_nth c window_parity_bit)
  also have "\<dots> = tally (\<lambda>pair. unat (parity_constant (t pair n)) = ?q (?W pair)) pairs"
    by (rule sum_windows) (rule Window_less [OF n])
  also have "\<dots> = tally (\<lambda>pair. parity_constant (t pair n)
             XOR Bits (ucast (FFunction (parity_word (t pair n)) (Candidate n (of_nat s)))) (kInBits ! n) 0 = 0)
      pairs"
    by (rule tally_cong)
      (simp add: parity_by_window Window_xor Window_Candidate n s word_unat_eq_iff [symmetric] xor_zero_iff)
  finally show ?thesis .
qed

lemma Bits_bool: "unat (Bits v p k) < 2" "Bits v p k = of_bool (bit v (32 - (fst p + k)) \<noteq> bit v (32 - (snd p + k)))"
  by (auto simp: Bits_def Bit_eq)

lemma k4_term_bit: "unat (parity_constant (k4_term pair n)) < 2"
  by (simp add: k4_term_def Let_def Bits_bool)

lemma k1_term_bit: "unat (parity_constant (k1_term k4 pair n)) < 2"
  by (simp add: k1_term_def Let_def Bits_bool)

text \<open>The chosen subkey has the largest bias, and is the highest one that has it.\<close>

definition bias_of :: "nat \<Rightarrow> nat \<Rightarrow> nat" where
  "bias_of half n = (if n > half then n - half else half - n)"

definition best_step :: "nat \<Rightarrow> (nat \<Rightarrow> nat) \<Rightarrow> nat \<Rightarrow> nat \<times> nat \<Rightarrow> nat \<times> nat" where
  "best_step half agreeing s r =
     (if bias_of half (agreeing s) \<ge> snd r then (s, bias_of half (agreeing s)) else r)"

lemma best_subkey_steps: "best_subkey half agreeing = fold (best_step half agreeing) [0..<kSubkeys] (0, 0)"
  unfolding best_subkey_def best_step_def bias_of_def Let_def case_prod_unfold prod.collapse by (rule refl)

lemma best_fold:
  "fold (best_step half agreeing) [0..<Suc m] (0, 0) = (b, d) \<Longrightarrow>
   b \<le> m \<and> d = bias_of half (agreeing b) \<and>
   (\<forall>s \<le> m. bias_of half (agreeing s) \<le> d \<and> (bias_of half (agreeing s) = d \<longrightarrow> s \<le> b))"
proof (induction m arbitrary: b d)
  case 0
  then show ?case by (auto simp: best_step_def)
next
  case (Suc m)
  obtain b' d' where prev: "fold (best_step half agreeing) [0..<Suc m] (0, 0) = (b', d')"
    by fastforce
  have "(b, d) = best_step half agreeing (Suc m) (b', d')"
    using Suc.prems prev by (simp add: upt_Suc_append)
  with Suc.IH [OF prev] show ?case by (auto simp: best_step_def le_Suc_eq split: if_splits)
qed

lemma best_subkey_correct:
  assumes "best_subkey half agreeing = (b, d)"
  shows "b < kSubkeys \<and> d = bias_of half (agreeing b) \<and>
    (\<forall>s < kSubkeys. bias_of half (agreeing s) \<le> d \<and> (bias_of half (agreeing s) = d \<longrightarrow> s \<le> b))"
proof -
  have k: "kSubkeys = Suc 31" by (simp add: kSubkeys_def)
  show ?thesis using best_fold [of half agreeing 31 b d] assms
    unfolding best_subkey_steps k less_Suc_eq_le by blast
qed

section \<open>The inverse of the round function\<close>

text \<open>The counting sort groups the indices by output, each group in increasing order.\<close>

abbreviation hits :: "(nat \<Rightarrow> nat) \<Rightarrow> nat \<Rightarrow> nat \<Rightarrow> nat list" where
  "hits f n out \<equiv> filter (\<lambda>v. f v = out) [0..<n]"

lemma count_outputs_nth: "out < n \<Longrightarrow> count_outputs n f ! out = length (hits f n out)"
  unfolding count_outputs_def by (subst fold_increment) (simp_all add: tally_def)

lemma first_fold_length [simp]:
  "length (fold (\<lambda>out first. first[Suc out := first ! out + counts ! out]) xs first) = length first"
  by (induction xs arbitrary: first) auto

lemma first_fold:
  assumes "m < length first" and "first ! 0 = (0 :: nat)" and "out \<le> m"
  shows "fold (\<lambda>out first. first[Suc out := first ! out + counts ! out]) [0..<m] first ! out =
    (\<Sum>i<out. counts ! i)"
  using assms
proof (induction m arbitrary: out)
  case (Suc m)
  then show ?case
    by (cases "out = Suc m") (auto simp: nth_list_update le_Suc_eq)
qed simp

lemma first_offsets_nth:
  assumes "out \<le> n"
  shows "first_offsets n (count_outputs n f) ! out = (\<Sum>i<out. length (hits f n i))"
proof -
  have "first_offsets n (count_outputs n f) ! out = (\<Sum>i<out. count_outputs n f ! i)"
    unfolding first_offsets_def Suc_eq_plus1 [symmetric] by (rule first_fold) (use assms in auto)
  then show ?thesis using assms by (simp add: count_outputs_nth)
qed

lemma first_offsets_length [simp]: "length (first_offsets n counts) = n + 1"
  unfolding first_offsets_def Suc_eq_plus1 [symmetric] by (simp del: replicate_Suc)

definition group_start :: "(nat \<Rightarrow> nat) \<Rightarrow> nat \<Rightarrow> nat \<Rightarrow> nat" where
  "group_start f n out = (\<Sum>i<out. length (hits f n i))"

lemma group_start_mono:
  assumes "a < b"
  shows "group_start f n a + length (hits f n a) \<le> group_start f n b"
proof -
  have "group_start f n (Suc a) \<le> group_start f n b"
    unfolding group_start_def by (rule sum_mono2) (use assms in auto)
  then show ?thesis by (simp add: group_start_def)
qed

lemma group_start_apart:
  assumes "a \<noteq> b" and "i < length (hits f n a)" and "j < length (hits f n b)"
  shows "group_start f n a + i \<noteq> group_start f n b + j"
  using group_start_mono [of a b f n] group_start_mono [of b a f n] assms by (cases "a < b") auto

lemma group_start_total:
  assumes "\<And>v. v < n \<Longrightarrow> f v < n"
  shows "group_start f n n = n"
proof -
  have "group_start f n n = (\<Sum>w<n. tally (\<lambda>x. () = () \<and> f x = w) [0..<n])"
    by (simp add: group_start_def tally_def)
  also have "\<dots> = tally (\<lambda>x. () = ()) [0..<n]"
    by (rule sum_windows [where C = "\<lambda>_. ()" and q = "\<lambda>_. ()"]) (use assms in auto)
  finally show ?thesis by (simp add: tally_def)
qed

lemma group_slot_less:
  assumes "\<And>v. v < n \<Longrightarrow> f v < n" and "out < n" and "i < length (hits f n out)"
  shows "group_start f n out + i < n"
proof -
  have "group_start f n n = n" by (rule group_start_total) (rule assms(1))
  then show ?thesis using group_start_mono [OF assms(2), of f n] assms(3) by linarith
qed

lemma hits_grow: "k \<le> n \<Longrightarrow> length (hits f k out) \<le> length (hits f n out)"
  using upt_add_eq_append [of 0 k "n - k"] by simp

definition placed :: "nat \<Rightarrow> (nat \<Rightarrow> nat) \<Rightarrow> nat \<Rightarrow> nat list \<times> nat list \<Rightarrow> bool" where
  "placed n f k s \<longleftrightarrow> length (fst s) = n \<and> length (snd s) = n \<and>
     (\<forall>out < n. fst s ! out = group_start f n out + length (hits f k out) \<and>
        (\<forall>i < length (hits f k out). snd s ! (group_start f n out + i) = hits f k out ! i))"

lemma placed_step:
  assumes f: "\<And>v. v < n \<Longrightarrow> f v < n" and k: "k < n" and p: "placed n f k (nxt, vals)"
  shows "placed n f (Suc k) (nxt[f k := nxt ! f k + 1], vals[nxt ! f k := k])"
proof -
  let ?p = "group_start f n (f k) + length (hits f k (f k))"
  have fk: "f k < n" using f k .
  have "hits f (Suc k) (f k) = hits f k (f k) @ [k]" by simp
  then have more: "length (hits f k (f k)) < length (hits f n (f k))"
    using hits_grow [of "Suc k" n f "f k"] k by simp
  have nx: "nxt ! f k = ?p" and len: "length nxt = n" "length vals = n"
    using p fk by (simp_all add: placed_def)
  have inr: "?p < n" by (rule group_slot_less [OF f fk more])
  have other: "group_start f n out + i \<noteq> ?p" if "out \<noteq> f k" "i < length (hits f k out)" for out i
    using group_start_apart [OF that(1) less_le_trans [OF that(2) hits_grow] more] k by simp
  show ?thesis unfolding placed_def nx
  proof (intro conjI allI impI)
    fix out assume o: "out < n"
    show "fst (nxt[f k := ?p + 1], vals[?p := k]) ! out = group_start f n out + length (hits f (Suc k) out)"
      using p o len by (auto simp: placed_def nth_list_update)
    fix i assume "i < length (hits f (Suc k) out)"
    then consider "i < length (hits f k out)" | "out = f k" "i = length (hits f k out)"
      by (auto simp: less_Suc_eq split: if_splits)
    then show "snd (nxt[f k := ?p + 1], vals[?p := k]) ! (group_start f n out + i) = hits f (Suc k) out ! i"
    proof cases
      case 1
      then have "group_start f n out + i \<noteq> ?p" using other by (cases "out = f k") auto
      with 1 p o show ?thesis by (auto simp: placed_def nth_append)
    next
      case 2
      with inr len show ?thesis by (simp add: nth_append)
    qed
  qed (use len in auto)
qed

lemma place_values_placed:
  assumes f: "\<And>v. v < n \<Longrightarrow> f v < n"
  shows "placed n f n (place_values n f (first_offsets n (count_outputs n f)))"
proof -
  let ?s = "\<lambda>v (next, vals). (next[f v := next ! f v + 1], vals[next ! f v := v])"
  let ?i = "(butlast (first_offsets n (count_outputs n f)), replicate n (0 :: nat))"
  have "k \<le> n \<Longrightarrow> placed n f k (fold ?s [0..<k] ?i)" for k
  proof (induction k)
    case 0
    show ?case by (simp add: placed_def nth_butlast first_offsets_nth group_start_def)
  next
    case (Suc k)
    obtain nxt vals where s: "fold ?s [0..<k] ?i = (nxt, vals)" by fastforce
    have "placed n f (Suc k) (nxt[f k := nxt ! f k + 1], vals[nxt ! f k := k])"
      by (rule placed_step) (use f Suc s in auto)
    then show ?case using s by simp
  qed
  then show ?thesis unfolding place_values_def by blast
qed

lemma preimages_in_correct:
  assumes f: "\<And>v. v < n \<Longrightarrow> f v < n" and o: "out < n"
  shows "preimages_in n f out = hits f n out"
proof -
  let ?vals = "snd (place_values n f (first_offsets n (count_outputs n f)))"
  have p: "placed n f n (place_values n f (first_offsets n (count_outputs n f)))"
    using place_values_placed f .
  have "group_start f n out + length (hits f n out) \<le> n"
    using group_start_mono [OF o, of f n] group_start_total [of n f, OF f] by simp
  moreover have "first_offsets n (count_outputs n f) ! (out + 1) - first_offsets n (count_outputs n f) ! out =
      length (hits f n out)" using o by (simp add: first_offsets_nth)
  moreover have "first_offsets n (count_outputs n f) ! out = group_start f n out"
    using o by (simp add: first_offsets_nth group_start_def)
  moreover have "length ?vals = n" "\<forall>i < length (hits f n out). ?vals ! (group_start f n out + i) = hits f n out ! i"
    using p o by (simp_all add: placed_def)
  ultimately show ?thesis
    unfolding preimages_in_def Let_def by (intro nth_equalityI) (auto simp: subspan_def)
qed

lemma Preimages_eq:
  "Preimages out = map of_nat (filter (\<lambda>v. FFunction (of_nat v) 0 = out) [0..<kKeySpace])"
proof -
  have "unat (x :: u16) < kKeySpace" for x using unsigned_less [of x, where ?'a = nat] by (simp add: kKeySpace_def)
  then have "preimages_in kKeySpace (\<lambda>v. unat (FFunction (of_nat v) 0)) (unat out) =
      filter (\<lambda>v. unat (FFunction (of_nat v) 0) = unat out) [0..<kKeySpace]"
    by (intro preimages_in_correct) auto
  then show ?thesis by (simp add: Preimages_def word_unat_eq_iff [symmetric])
qed

lemma Preimages_correct: "set (Preimages out) = {v. FFunction v 0 = out}"
proof -
  have "v \<in> set (Preimages out)" if "FFunction v 0 = out" for v
    unfolding Preimages_eq set_map set_filter
    by (rule image_eqI [of _ _ "unat v"]) (use that unsigned_less [of v, where ?'a = nat] in \<open>simp_all add: kKeySpace_def\<close>)
  then show ?thesis by (auto simp: Preimages_eq)
qed

lemma Preimages_distinct: "distinct (Preimages out)"
proof -
  have "inj_on (of_nat :: nat \<Rightarrow> u16) {0..<kKeySpace}"
    by (rule inj_onI) (simp add: word_of_nat_eq_iff kKeySpace_def take_bit_nat_eq_self)
  then show ?thesis unfolding Preimages_eq
    by (simp add: distinct_map) (rule inj_on_subset, auto)
qed

section \<open>Voting\<close>

lemma FFunction_xor: "FFunction (a XOR b) 0 = FFunction a b"
  by (simp add: FFunction_def)

definition satisfies :: "u16 \<Rightarrow> Equation \<Rightarrow> bool" where
  "satisfies key e \<longleftrightarrow> FFunction (eq_input e) key = eq_output e"

lemma tally_distinct: "distinct xs \<Longrightarrow> tally (\<lambda>x. x = a) xs = (if a \<in> set xs then 1 else 0)"
  by (induction xs) auto

lemma vote_preimages:
  assumes "k < kKeySpace"
  shows "tally (\<lambda>v. unat (eq_input e XOR v) = k) (Preimages (eq_output e)) =
    (if satisfies (of_nat k) e then 1 else 0)"
proof -
  have "(unat (eq_input e XOR v) = k) = (v = eq_input e XOR of_nat k)" for v
  proof -
    have "(unat (eq_input e XOR v) = k) = (eq_input e XOR v = of_nat k)"
      using assms by (auto simp: unsigned_of_nat kKeySpace_def take_bit_nat_eq_self)
    then show ?thesis by (auto simp: xor.assoc [symmetric])
  qed
  then show ?thesis
    by (simp add: tally_distinct Preimages_distinct Preimages_correct satisfies_def FFunction_xor)
qed

lemma count_votes_nth:
  assumes "k < kKeySpace"
  shows "count_votes es ! k = tally (satisfies (of_nat k)) es"
proof -
  have "length votes = kKeySpace \<Longrightarrow>
      fold (\<lambda>e votes. fold (\<lambda>v votes. let k = unat (eq_input e XOR v) in votes[k := votes ! k + 1])
          (Preimages (eq_output e)) votes) es votes ! k = votes ! k + tally (satisfies (of_nat k)) es" for votes
  proof (induction es arbitrary: votes)
    case (Cons e es)
    then show ?case using assms unfolding Let_def
      by (simp only: fold_Cons comp_apply fold_increment fold_increment_length vote_preimages) simp
  qed simp
  then show ?thesis using assms by (simp add: count_votes_def)
qed

lemma length_count_votes: "length (count_votes es) = kKeySpace"
proof -
  have "length (fold (\<lambda>e votes. fold (\<lambda>v votes. let k = unat (eq_input e XOR v) in votes[k := votes ! k + 1])
          (Preimages (eq_output e)) votes) es votes) = length votes" for votes :: "nat list"
    unfolding Let_def
  proof (induction es arbitrary: votes)
    case (Cons e es)
    then show ?case using fold_increment_length [of "\<lambda>v. unat (eq_input e XOR v)"] by simp
  qed simp
  then show ?thesis by (simp add: count_votes_def)
qed

lemma max_index_spec:
  assumes "b < i" and "ys = pre @ xs" and "length pre = i" and "best = ys ! b"
    and "\<forall>j < i. ys ! j \<le> best \<and> (ys ! j = best \<longrightarrow> b \<le> j)"
  shows "max_index xs i b best < length ys \<and>
    (\<forall>j < length ys. ys ! j \<le> ys ! max_index xs i b best \<and>
       (ys ! j = ys ! max_index xs i b best \<longrightarrow> max_index xs i b best \<le> j))"
  using assms
proof (induction xs arbitrary: i b best pre)
  case (Cons x xs)
  have x: "ys ! i = x" using Cons.prems by (simp add: nth_append)
  show ?case
  proof (cases "best < x")
    case True
    have "max_index xs (Suc i) i x < length ys \<and>
      (\<forall>j < length ys. ys ! j \<le> ys ! max_index xs (Suc i) i x \<and>
       (ys ! j = ys ! max_index xs (Suc i) i x \<longrightarrow> max_index xs (Suc i) i x \<le> j))"
      by (rule Cons.IH [of i "Suc i" "pre @ [x]" x])
        (use Cons.prems x True in \<open>auto simp: less_Suc_eq dest: le_less_trans\<close>)
    with True show ?thesis by simp
  next
    case False
    have "max_index xs (Suc i) b best < length ys \<and>
      (\<forall>j < length ys. ys ! j \<le> ys ! max_index xs (Suc i) b best \<and>
       (ys ! j = ys ! max_index xs (Suc i) b best \<longrightarrow> max_index xs (Suc i) b best \<le> j))"
      by (rule Cons.IH [of b "Suc i" "pre @ [x]" best]) (use Cons.prems x False in \<open>auto simp: less_Suc_eq\<close>)
    with False show ?thesis by simp
  qed
qed simp

lemma winner_spec:
  fixes ys :: "nat list"
  assumes "ys \<noteq> []"
  defines "w \<equiv> max_index (tl ys) 1 0 (hd ys)"
  shows "w < length ys \<and> (\<forall>j < length ys. ys ! j \<le> ys ! w \<and> (ys ! j = ys ! w \<longrightarrow> w \<le> j))"
  unfolding w_def
  using assms(1) by (intro max_index_spec [of 0 1 ys "[hd ys]"]) (auto simp: neq_Nil_conv)

text \<open>The reference: the key that satisfies the most equations, the lowest on a tie.\<close>

definition plurality :: "Equation list \<Rightarrow> u16 \<Rightarrow> bool" where
  "plurality es k \<longleftrightarrow>
     (\<forall>k'. tally (satisfies k') es \<le> tally (satisfies k) es \<and>
        (tally (satisfies k') es = tally (satisfies k) es \<longrightarrow> k \<le> k'))"

lemma plurality_unique: "plurality es k \<Longrightarrow> plurality es k' \<Longrightarrow> k = k'"
  unfolding plurality_def by (meson order_antisym)

lemma MajorityKey_plurality:
  "\<exists>k. plurality es k \<and>
     MajorityKey es = (if tally (satisfies k) es * 2 \<le> length es then Inl kNoMatchingKey else Inr k)"
proof -
  define ys where "ys = count_votes es"
  define w where "w = max_index (tl ys) 1 0 (hd ys)"
  have len: "length ys = kKeySpace" by (simp add: ys_def length_count_votes)
  then have "ys \<noteq> []" by (auto simp: kKeySpace_def)
  then have w: "w < kKeySpace" "\<forall>j < kKeySpace. ys ! j \<le> ys ! w \<and> (ys ! j = ys ! w \<longrightarrow> w \<le> j)"
    using winner_spec [of ys] len unfolding w_def by simp_all
  have "plurality es (of_nat w)" unfolding plurality_def
  proof (intro allI)
    fix k' :: u16
    have k': "unat k' < kKeySpace" using unsigned_less [of k', where ?'a = nat] by (simp add: kKeySpace_def)
    show "tally (satisfies k') es \<le> tally (satisfies (of_nat w)) es \<and>
        (tally (satisfies k') es = tally (satisfies (of_nat w)) es \<longrightarrow> of_nat w \<le> k')"
      using w(2) [rule_format, OF k'] count_votes_nth [OF k', of es] count_votes_nth [OF w(1), of es] w(1)
      by (simp add: ys_def word_le_nat_alt unsigned_of_nat kKeySpace_def take_bit_nat_eq_self)
  qed
  moreover have "MajorityKey es = (if tally (satisfies (of_nat w)) es * 2 \<le> length es then Inl kNoMatchingKey else Inr (of_nat w))"
    using count_votes_nth [OF w(1), of es] by (simp add: MajorityKey_def Let_def ys_def w_def)
  ultimately show ?thesis by blast
qed

lemma MajorityKey_success:
  "MajorityKey es = Inr k \<longleftrightarrow> plurality es k \<and> length es < tally (satisfies k) es * 2"
proof -
  obtain k' where p: "plurality es k'" and m: "MajorityKey es =
      (if tally (satisfies k') es * 2 \<le> length es then Inl kNoMatchingKey else Inr k')"
    using MajorityKey_plurality by blast
  have "plurality es k \<longleftrightarrow> k = k'" using p plurality_unique by blast
  then show ?thesis using p m by auto
qed

lemma MajorityKey_failure:
  "MajorityKey es = Inl e \<longleftrightarrow> e = kNoMatchingKey \<and> (\<forall>k. tally (satisfies k) es * 2 \<le> length es)"
  using MajorityKey_plurality [of es] unfolding plurality_def
  by (auto split: if_splits) (meson le_trans mult_le_mono1)

lemma MajorityKey_all:
  assumes "es \<noteq> []" and "\<forall>e \<in> set es. satisfies k e"
  shows "\<exists>k'. MajorityKey es = Inr k' \<and> (\<forall>e \<in> set es. satisfies k' e)"
proof -
  obtain k' where p: "plurality es k'" and m: "MajorityKey es =
      (if tally (satisfies k') es * 2 \<le> length es then Inl kNoMatchingKey else Inr k')"
    using MajorityKey_plurality by blast
  have "tally (satisfies k) es = length es" using assms(2) by (simp add: tally_all)
  then have "tally (satisfies k') es = length es"
    using p tally_le [of "satisfies k'" es] unfolding plurality_def by (metis le_antisym)
  moreover have "0 < length es" using assms(1) by simp
  ultimately have "MajorityKey es = Inr k'" "\<forall>e \<in> set es. satisfies k' e"
    using m tally_all [of "satisfies k'" es] by simp_all
  then show ?thesis by blast
qed

section \<open>The middle equations\<close>

lemma High_join: "High (push_bit 16 (ucast a) OR ucast b) = a" "Low (push_bit 16 (ucast a) OR ucast b) = b"
  for a b :: u16
  by (rule bit_word_eqI, auto simp: High_def Low_def bit_simps impossible_bit)+

lemma rotl_halves: "High (word_rotl 16 w) = Low w" "Low (word_rotl 16 w) = High w"
proof -
  show "High (word_rotl 16 w) = Low w"
    by (rule bit_word_eqI) (auto simp: High_def Low_def bit_simps mod_if)
  show "Low (word_rotl 16 w) = High w"
    by (rule bit_word_eqI) (simp add: High_def Low_def bit_simps mod_if, simp only: add.commute)
qed

lemma word_halves_eq: "a = b \<longleftrightarrow> High a = High b \<and> Low a = Low b"
proof -
  have "x = (push_bit 16 (ucast (High x)) OR ucast (Low x) :: u32)" for x
    by (rule bit_word_eqI) (auto simp: High_def Low_def bit_simps)
  then show ?thesis by metis
qed

lemma xor_swap: "a XOR b = c \<longleftrightarrow> b = a XOR (c :: u16)"
  by (auto simp: xor.assoc [symmetric])

lemma xor_move: "a XOR b = c \<longleftrightarrow> a = c XOR (b :: u16)"
  using xor_swap [of b a c] by (simp add: xor.commute)

lemma middle_equations:
  "Encrypt (plain pair) [k1, k2, k3, k4] = cipher pair \<longleftrightarrow>
     satisfies k2 (k2_equation k1 k4 pair) \<and> satisfies k3 (k3_equation k1 k4 pair)"
proof -
  define x2 where "x2 = High (plain pair) XOR FFunction (Low (plain pair)) k1"
  define x3 where "x3 = High (cipher pair) XOR FFunction (Low (cipher pair)) k4"
  let ?x3 = "Low (plain pair) XOR FFunction x2 k2"
  let ?x4 = "x2 XOR FFunction ?x3 k3"
  have "Encrypt (plain pair) [k1, k2, k3, k4] = cipher pair \<longleftrightarrow>
      ?x3 XOR FFunction ?x4 k4 = High (cipher pair) \<and> ?x4 = Low (cipher pair)"
    by (simp add: Encrypt_def Let_def word_halves_eq [of "word_rotl 16 _"] rotl_halves High_join x2_def)
  also have "\<dots> \<longleftrightarrow> ?x3 = x3 \<and> ?x4 = Low (cipher pair)"
    using xor_move [of ?x3 "FFunction (Low (cipher pair)) k4" "High (cipher pair)"] unfolding x3_def by metis
  also have "\<dots> \<longleftrightarrow> FFunction x2 k2 = x3 XOR Low (plain pair) \<and> FFunction x3 k3 = x2 XOR Low (cipher pair)"
    using xor_swap [of "Low (plain pair)" "FFunction x2 k2" x3] xor_swap [of x2 "FFunction x3 k3" "Low (cipher pair)"]
      xor.commute [of x3 "Low (plain pair)"] by metis
  finally show ?thesis
    by (simp add: satisfies_def k2_equation_def k3_equation_def Let_def x2_def x3_def)
qed

section \<open>The recovery as a whole\<close>

lemma distinct_pairs_from_set:
  "pair \<in> set (distinct_pairs_from p c os seen) \<longleftrightarrow>
     plain pair \<notin> seen \<and>
     (\<exists>i < length os. plain pair = ReadU32Be p (os ! i) \<and> cipher pair = ReadU32Be c (os ! i) \<and>
        (\<forall>j < i. ReadU32Be p (os ! j) \<noteq> plain pair))"
proof (induction os arbitrary: seen)
  case (Cons off os)
  let ?P = "\<lambda>os i. plain pair = ReadU32Be p (os ! i) \<and> cipher pair = ReadU32Be c (os ! i) \<and>
        (\<forall>j < i. ReadU32Be p (os ! j) \<noteq> plain pair)"
  let ?w = "ReadU32Be p off"
  have ex: "(\<exists>i < length (off # os). ?P (off # os) i) \<longleftrightarrow>
      (plain pair = ?w \<and> cipher pair = ReadU32Be c off) \<or> (plain pair \<noteq> ?w \<and> (\<exists>i < length os. ?P os i))"
    by (auto simp: Ex_less_Suc2 All_less_Suc2)
  have eq: "pair = \<lparr>plain = ?w, cipher = ReadU32Be c off\<rparr> \<longleftrightarrow> plain pair = ?w \<and> cipher pair = ReadU32Be c off"
    by (cases pair) simp
  show ?case
  proof (cases "?w \<in> seen")
    case True
    then show ?thesis unfolding ex by (auto simp: Let_def Cons.IH)
  next
    case False
    then show ?thesis unfolding ex by (auto simp: Let_def Cons.IH eq)
  qed
qed simp

lemma distinct_pairs_from_distinct: "distinct (map plain (distinct_pairs_from p c os seen))"
proof (induction os arbitrary: seen)
  case (Cons off os)
  then show ?case by (auto simp: Let_def distinct_pairs_from_set)
qed simp

lemma DistinctPairs_set:
  "pair \<in> set (DistinctPairs p c) \<longleftrightarrow>
     (\<exists>i < kAnalyzedBytes div 4. plain pair = ReadU32Be p (4 * i) \<and> cipher pair = ReadU32Be c (4 * i) \<and>
        (\<forall>j < i. ReadU32Be p (4 * j) \<noteq> plain pair))"
proof -
  have "(\<forall>j < i. ReadU32Be p (map ((*) 4) [0..<kAnalyzedBytes div 4] ! j) \<noteq> w) \<longleftrightarrow>
      (\<forall>j < i. ReadU32Be p (4 * j) \<noteq> w)" if "i < kAnalyzedBytes div 4" for i w
    using that by auto
  then show ?thesis by (auto simp: DistinctPairs_def distinct_pairs_from_set)
qed

lemma DistinctPairs_plain: "set (map plain (DistinctPairs p c)) = {ReadU32Be p (4 * i) | i. i < kAnalyzedBytes div 4}"
proof -
  have "ReadU32Be p (4 * i) \<in> set (map plain (DistinctPairs p c))" if i: "i < kAnalyzedBytes div 4" for i
  proof -
    define m where "m = (LEAST j. ReadU32Be p (4 * j) = ReadU32Be p (4 * i))"
    have m: "ReadU32Be p (4 * m) = ReadU32Be p (4 * i)" "m \<le> i"
      unfolding m_def by (auto intro: LeastI Least_le)
    moreover have "\<forall>j < m. ReadU32Be p (4 * j) \<noteq> ReadU32Be p (4 * i)"
      unfolding m_def using not_less_Least by blast
    ultimately have "\<lparr>plain = ReadU32Be p (4 * m), cipher = ReadU32Be c (4 * m)\<rparr> \<in> set (DistinctPairs p c)"
      unfolding DistinctPairs_set using i by (intro exI [of _ m]) simp
    then show ?thesis using m by force
  qed
  then show ?thesis by (auto simp: DistinctPairs_set)
qed

lemma DistinctPairs_distinct: "distinct (map plain (DistinctPairs p c))"
  by (simp add: DistinctPairs_def distinct_pairs_from_distinct)

lemma DistinctPairs_nonempty: "DistinctPairs p c \<noteq> []"
proof -
  have "\<lparr>plain = ReadU32Be p 0, cipher = ReadU32Be c 0\<rparr> \<in> set (DistinctPairs p c)"
    unfolding DistinctPairs_set by (rule exI [of _ 0]) (simp add: kAnalyzedBytes_def)
  then show ?thesis by auto
qed

definition outer_k4 :: "bytes \<Rightarrow> bytes \<Rightarrow> u16" where
  "outer_k4 p c = MostBiasedKey (DistinctPairs p c) k4_term"

definition outer_k1 :: "bytes \<Rightarrow> bytes \<Rightarrow> u16" where
  "outer_k1 p c = MostBiasedKey (DistinctPairs p c) (k1_term (outer_k4 p c))"

definition middle_k2 :: "bytes \<Rightarrow> bytes \<Rightarrow> Failure + u16" where
  "middle_k2 p c = MajorityKey (map (k2_equation (outer_k1 p c) (outer_k4 p c)) (DistinctPairs p c))"

definition middle_k3 :: "bytes \<Rightarrow> bytes \<Rightarrow> Failure + u16" where
  "middle_k3 p c = MajorityKey (map (k3_equation (outer_k1 p c) (outer_k4 p c)) (DistinctPairs p c))"

lemma RecoverKeys_Inr:
  assumes "kAnalyzedBytes \<le> length p" and "kAnalyzedBytes \<le> length c"
  shows "RecoverKeys p c = Inr r \<longleftrightarrow>
    (\<exists>k2 k3. middle_k2 p c = Inr k2 \<and> middle_k3 p c = Inr k3 \<and>
       recovered_keys r = [outer_k1 p c, k2, k3, outer_k4 p c] \<and> distinct_pairs r = length (DistinctPairs p c) \<and>
       reproduced_pairs r = tally (\<lambda>pair. Encrypt (plain pair) (recovered_keys r) = cipher pair) (DistinctPairs p c))"
proof -
  have "RecoverKeys p c = result_bind (middle_k2 p c) (\<lambda>k2. result_bind (middle_k3 p c) (\<lambda>k3.
      let keys = [outer_k1 p c, k2, k3, outer_k4 p c] in
      Inr \<lparr>recovered_keys = keys, distinct_pairs = length (DistinctPairs p c),
           reproduced_pairs = tally (\<lambda>pair. Encrypt (plain pair) keys = cipher pair) (DistinctPairs p c)\<rparr>))"
    using assms by (simp add: RecoverKeys_def middle_k2_def middle_k3_def outer_k1_def outer_k4_def tally_def Let_def)
  then show ?thesis
    by (cases r; cases "middle_k2 p c"; cases "middle_k3 p c") (auto simp: Let_def)
qed

lemma RecoverKeys_complete:
  assumes "kAnalyzedBytes \<le> length p" and "kAnalyzedBytes \<le> length c"
  shows "(\<exists>r. RecoverKeys p c = Inr r \<and> reproduced_pairs r = distinct_pairs r) \<longleftrightarrow>
    (\<exists>k2 k3. \<forall>pair \<in> set (DistinctPairs p c).
       Encrypt (plain pair) [outer_k1 p c, k2, k3, outer_k4 p c] = cipher pair)"
    (is "?L \<longleftrightarrow> ?R")
proof
  assume ?L
  then obtain r where ok: "RecoverKeys p c = Inr r" and all: "reproduced_pairs r = distinct_pairs r" by blast
  from ok obtain k2 k3 where keys: "recovered_keys r = [outer_k1 p c, k2, k3, outer_k4 p c]"
    and "distinct_pairs r = length (DistinctPairs p c)"
    and "reproduced_pairs r = tally (\<lambda>pair. Encrypt (plain pair) (recovered_keys r) = cipher pair) (DistinctPairs p c)"
    unfolding RecoverKeys_Inr [OF assms] by blast
  then have "\<forall>pair \<in> set (DistinctPairs p c). Encrypt (plain pair) [outer_k1 p c, k2, k3, outer_k4 p c] = cipher pair"
    using all unfolding tally_all [symmetric] by simp
  then show ?R by blast
next
  assume ?R
  then obtain k2 k3 where
    "\<forall>e \<in> set (map (k2_equation (outer_k1 p c) (outer_k4 p c)) (DistinctPairs p c)). satisfies k2 e"
    "\<forall>e \<in> set (map (k3_equation (outer_k1 p c) (outer_k4 p c)) (DistinctPairs p c)). satisfies k3 e"
    unfolding middle_equations by auto
  then obtain k2' k3' where "middle_k2 p c = Inr k2'" "middle_k3 p c = Inr k3'"
    and all: "\<forall>pair \<in> set (DistinctPairs p c). Encrypt (plain pair) [outer_k1 p c, k2', k3', outer_k4 p c] = cipher pair"
    unfolding middle_k2_def middle_k3_def middle_equations
    using MajorityKey_all DistinctPairs_nonempty by (metis (no_types, lifting) imageI list.map_disc_iff list.set_map)
  then have "RecoverKeys p c = Inr \<lparr>recovered_keys = [outer_k1 p c, k2', k3', outer_k4 p c],
      distinct_pairs = length (DistinctPairs p c), reproduced_pairs = length (DistinctPairs p c)\<rparr>"
    unfolding RecoverKeys_Inr [OF assms] unfolding tally_all [symmetric] by auto
  then show ?L by auto
qed

section \<open>Properties\<close>

text \<open>C14: the recovery file's own \<^verbatim>\<open>FFunction\<close> and \<^verbatim>\<open>Encrypt\<close>, which look four nibbles up one by one,
  are the SSM round and the SSM payload transform with the stock pair table.\<close>

theorem encrypt_is_the_ssm_transform:
  "FFunction w k = round_key kStockPairTable w k \<and>
   Encrypt p keys = TransformWord False p keys kStockPairTable"
  using FFunction_round Encrypt_TransformWord by blast

text \<open>C11: for both uses of \<^verbatim>\<open>MostBiasedKey\<close>, counting pairs grouped by window and constant gives each
  candidate subkey the number of pairs whose parity it makes zero, as counting pair by pair would;
  and the subkey kept has the largest bias, the highest one on a tie.\<close>

theorem grouped_counting_is_pairwise:
  assumes "n < kNybbles" and "s < kSubkeys" and "t = k4_term \<or> t = k1_term k4"
  shows "agreeing_count n (group_pairs n t pairs) s =
      tally (\<lambda>pair. parity_constant (t pair n)
         XOR Bits (ucast (FFunction (parity_word (t pair n)) (Candidate n (of_nat s)))) (kInBits ! n) 0 = 0) pairs \<and>
    (case best_subkey half agreeing of (b, d) \<Rightarrow>
       b < kSubkeys \<and> d = bias_of half (agreeing b) \<and> bias_of half (agreeing s) \<le> d \<and>
       (bias_of half (agreeing s) = d \<longrightarrow> s \<le> b))"
proof -
  have "unat (parity_constant (t pair n)) < 2" for pair
    using assms(3) k4_term_bit k1_term_bit by blast
  note agreeing_count_correct [OF assms(1,2), of t pairs, OF this]
  moreover obtain b d where bd: "best_subkey half agreeing = (b, d)" by fastforce
  ultimately show ?thesis using best_subkey_correct [OF bd] assms(2) by (auto simp: bd)
qed

theorem grouped_counting_is_pairwise_witness:
  "0 < kNybbles \<and> 3 < kSubkeys \<and>
   agreeing_count 0 (group_pairs 0 k4_term [\<lparr>plain = 1, cipher = 2\<rparr>]) 3 =
     tally (\<lambda>pair. parity_constant (k4_term pair 0)
       XOR Bits (ucast (FFunction (parity_word (k4_term pair 0)) (Candidate 0 3))) (kInBits ! 0) 0 = 0)
       [\<lparr>plain = 1, cipher = 2\<rparr>]"
proof -
  have k: "0 < kNybbles" "3 < kSubkeys" by (simp_all add: kNybbles_def kSubkeys_def)
  show ?thesis
    using grouped_counting_is_pairwise [OF k, of k4_term 0 "[\<lparr>plain = 1, cipher = 2\<rparr>]"] k by simp
qed

text \<open>C10: the counting-sort inverse lists, for every output, exactly the words the round function
  maps to it, each once; so a key receives one vote per equation it satisfies, and
  \<^verbatim>\<open>MajorityKey\<close> returns the key satisfying the most equations, the lowest on a tie, exactly when
  that is more than half of them.\<close>

theorem majority_key_is_the_plurality:
  "set (Preimages v) = {w. FFunction w 0 = v} \<and> distinct (Preimages v) \<and>
   (MajorityKey es = Inr k) = (plurality es k \<and> length es < tally (satisfies k) es * 2) \<and>
   (MajorityKey es = Inl e) = (e = kNoMatchingKey \<and> (\<forall>k. tally (satisfies k) es * 2 \<le> length es))"
  using Preimages_correct Preimages_distinct MajorityKey_success MajorityKey_failure by blast

text \<open>C6: \<^verbatim>\<open>RecoverKeys\<close> on inputs of at least 128 KiB: each distinct plaintext word is analysed once,
  with the ciphertext of its first occurrence; and the recovery succeeds with every distinct pair
  reproduced exactly when some middle keys complete the recovered outer keys to keys that encrypt
  every pair.\<close>

theorem recovery_is_complete:
  assumes "kAnalyzedBytes \<le> length p" and "kAnalyzedBytes \<le> length c"
  shows "distinct (map plain (DistinctPairs p c)) \<and>
    set (map plain (DistinctPairs p c)) = {ReadU32Be p (4 * i) | i. i < kAnalyzedBytes div 4} \<and>
    (\<exists>r. RecoverKeys p c = Inr r \<and> reproduced_pairs r = distinct_pairs r) =
      (\<exists>k2 k3. list_all (\<lambda>pair. Encrypt (plain pair) [outer_k1 p c, k2, k3, outer_k4 p c] = cipher pair)
         (DistinctPairs p c))"
  using DistinctPairs_distinct DistinctPairs_plain RecoverKeys_complete [OF assms] by (simp add: list_all_iff)

theorem recovery_is_complete_witness:
  "kAnalyzedBytes \<le> length (replicate 0x20000 (0 :: u8)) \<and>
   distinct (map plain (DistinctPairs (replicate 0x20000 0) (replicate 0x20000 0))) \<and>
   (\<exists>r. RecoverKeys (replicate 0x20000 0) (replicate 0x20000 0) = Inr r \<and> reproduced_pairs r = distinct_pairs r) =
      (\<exists>k2 k3. list_all (\<lambda>pair. Encrypt (plain pair)
          [outer_k1 (replicate 0x20000 0) (replicate 0x20000 0), k2, k3,
           outer_k4 (replicate 0x20000 0) (replicate 0x20000 0)] = cipher pair)
         (DistinctPairs (replicate 0x20000 0) (replicate 0x20000 0)))"
proof -
  have len: "kAnalyzedBytes \<le> length (replicate 0x20000 (0 :: u8))"
    unfolding length_replicate by (simp add: kAnalyzedBytes_def)
  show ?thesis using recovery_is_complete [OF len len] len by blast
qed

end
