(* ===== verification/Spec2Isabelle.thy ===== *)
theory Spec2Isabelle
  imports Checksum_Dispatch Key_Recovery
begin

text \<open>FastECU: memory layout, checksum correction, and protocol cores.\<close>

end
